(* ===== verification/Prelude.thy ===== *)
theory Prelude
  imports Main "HOL-Library.Word" "HOL-Library.Monad_Syntax" "HOL-Library.Signed_Division"
begin

text \<open>
  What every component shares: the reading of Go values (bytes, \<open>int\<close>, errors, slices),
  the rule for a call that does not return normally, and the list and arithmetic lemmas
  that carry the component proofs.

  A Go call that panics (a slice bound out of range, a division by zero, an explicit
  \<open>panic\<close>), blocks for ever or loops for ever has the value \<open>None\<close>; a call that
  returns has the value \<open>Some\<close> of its results and of the new state. So a theorem of the
  form \<open>f x = Some y\<close> states termination and the absence of panics together with the
  result. Go \<open>error\<close> results are ordinary values of type \<open>goerror option\<close>
  (\<open>None\<close> is \<open>nil\<close>).
\<close>

section \<open>Bytes, integers and errors\<close>

type_synonym byte = "8 word"

text \<open>
  \<open>int\<close> of the program is the 64-bit signed integer of the supported platforms. Values
  that are bounded by the memory of the process are read as mathematical integers; where
  the source computes with a possible overflow in mind, the wrap-around is written out
  with \<open>wrap64\<close>.
\<close>

definition wrap64 :: "int \<Rightarrow> int" where
  "wrap64 x = (x + 2 ^ 63) mod 2 ^ 64 - 2 ^ 63"

definition MaxInt32 :: int where
  "MaxInt32 = 2147483647"

text \<open>Go's \<open>%\<close> truncates towards zero and panics on a zero divisor.\<close>

definition go_mod :: "int \<Rightarrow> int \<Rightarrow> int option" where
  "go_mod a b = (if b = 0 then None else Some (a smod b))"

text \<open>
  The error values the program returns or compares with: those of \<open>pkg/errors\<close>, of the
  ring buffer, of the standard library's \<open>io\<close>, and the system call errors it tests
  (every other \<open>errno\<close> is \<open>Errno n\<close>).
\<close>

datatype goerror =
    ErrIsEmpty | ErrEmptyEngine | ErrEngineShutdown | ErrEngineInShutdown | ErrAcceptSocket
  | ErrTooManyEventLoopThreads | ErrUnsupportedProtocol | ErrUnsupportedTCPProtocol
  | ErrUnsupportedUDPProtocol | ErrUnsupportedUDSProtocol | ErrUnsupportedPlatform
  | ErrUnsupportedOp | ErrNegativeSize | ErrNoIPv4AddressOnInterface
  | EOF | ErrShortWrite | ErrShortBuffer | ErrUnexpectedEOF
  | EAGAIN | EINTR | ECONNRESET | EINPROGRESS | EINVAL | ENOSYS | ENOENT
  | Errno int | SyscallError string goerror | AddrError string | OtherError string

text \<open>\<open>os.NewSyscallError\<close> keeps \<open>nil\<close>.\<close>

definition NewSyscallError :: "string \<Rightarrow> goerror option \<Rightarrow> goerror option" where
  "NewSyscallError name err = map_option (SyscallError name) err"

section \<open>Slices\<close>

text \<open>
  A byte slice is the bytes up to its length and the bytes between its length and its
  capacity. A slice is a value here: two slices never share an array. Slices the program
  hands out are read before the array they point into is written again.
\<close>

record slice =
  sdata :: "byte list"
  sspare :: "byte list"

definition slen :: "slice \<Rightarrow> int" where
  "slen s = int (length (sdata s))"

definition scap :: "slice \<Rightarrow> int" where
  "scap s = int (length (sdata s) + length (sspare s))"

definition nil_slice :: slice where
  "nil_slice = \<lparr>sdata = [], sspare = []\<rparr>"

text \<open>\<open>make([]byte, n)\<close> panics on a negative length.\<close>

definition make_slice :: "int \<Rightarrow> slice option" where
  "make_slice n = (if n < 0 then None else Some \<lparr>sdata = replicate (nat n) 0, sspare = []\<rparr>)"

text \<open>The slice expression \<open>s[lo:hi]\<close>: bounds up to the capacity, else a panic.\<close>

definition reslice :: "slice \<Rightarrow> int \<Rightarrow> int \<Rightarrow> slice option" where
  "reslice s lo hi =
     (if 0 \<le> lo \<and> lo \<le> hi \<and> hi \<le> scap s
      then let a = sdata s @ sspare s
           in Some \<lparr>sdata = take (nat (hi - lo)) (drop (nat lo) a), sspare = drop (nat hi) a\<rparr>
      else None)"

text \<open>The bytes of \<open>s[lo:hi]\<close>, and of \<open>s[lo:]\<close>.\<close>

definition sview :: "slice \<Rightarrow> int \<Rightarrow> int \<Rightarrow> byte list option" where
  "sview s lo hi = map_option sdata (reslice s lo hi)"

definition sview_from :: "slice \<Rightarrow> int \<Rightarrow> byte list option" where
  "sview_from s lo = sview s lo (slen s)"

text \<open>The slice expression of a byte slice given by its bytes alone (length = capacity).\<close>

definition lview :: "byte list \<Rightarrow> int \<Rightarrow> int \<Rightarrow> byte list option" where
  "lview p lo hi =
     (if 0 \<le> lo \<and> lo \<le> hi \<and> hi \<le> int (length p)
      then Some (take (nat (hi - lo)) (drop (nat lo) p)) else None)"

text \<open>\<open>copy(dst, src)\<close> into the bytes \<open>d\<close> from offset \<open>k\<close> on.\<close>

definition blit :: "byte list \<Rightarrow> nat \<Rightarrow> byte list \<Rightarrow> byte list" where
  "blit d k src = take k d @ take (length d - k) src @ drop (k + length src) d"

definition copy_count :: "byte list \<Rightarrow> byte list \<Rightarrow> int" where
  "copy_count dst src = int (min (length dst) (length src))"

text \<open>\<open>copy(s[lo:], src)\<close> and \<open>copy(p[lo:], src)\<close>: the changed slice.\<close>

definition scopy_at :: "slice \<Rightarrow> int \<Rightarrow> byte list \<Rightarrow> slice option" where
  "scopy_at s lo src =
     (if 0 \<le> lo \<and> lo \<le> slen s then Some (s\<lparr>sdata := blit (sdata s) (nat lo) src\<rparr>) else None)"

definition lcopy_at :: "byte list \<Rightarrow> int \<Rightarrow> byte list \<Rightarrow> byte list option" where
  "lcopy_at p lo src =
     (if 0 \<le> lo \<and> lo \<le> int (length p) then Some (blit p (nat lo) src) else None)"

text \<open>Writing one element, \<open>s[i] = c\<close>, and reading one, \<open>s[i]\<close>.\<close>

definition sput :: "slice \<Rightarrow> int \<Rightarrow> byte \<Rightarrow> slice option" where
  "sput s i c =
     (if 0 \<le> i \<and> i < slen s then Some (s\<lparr>sdata := (sdata s)[nat i := c]\<rparr>) else None)"

definition sget :: "slice \<Rightarrow> int \<Rightarrow> byte option" where
  "sget s i = (if 0 \<le> i \<and> i < slen s then Some (sdata s ! nat i) else None)"

section \<open>Shared lemmas\<close>

named_theorems slice_simps \<open>what the slice primitives compute inside their bounds\<close>

lemma slen_nat [simp]: "nat (slen s) = length (sdata s)"
  by (simp add: slen_def)

lemma slen_nonneg [simp]: "0 \<le> slen s"
  by (simp add: slen_def)

lemma scap_ge_slen [simp]: "slen s \<le> scap s"
  by (simp add: slen_def scap_def)

lemma wrap64_id [simp]: "- (2 ^ 63) \<le> x \<Longrightarrow> x < 2 ^ 63 \<Longrightarrow> wrap64 x = x"
  by (simp add: wrap64_def)

lemma smod_nonneg [simp]: "0 \<le> (a::int) \<Longrightarrow> 0 < b \<Longrightarrow> a smod b = a mod b"
  by (cases "a = 0") (simp_all add: signed_modulo_int_def)

lemma sdiv_nonneg [simp]: "0 \<le> (a::int) \<Longrightarrow> 0 < b \<Longrightarrow> a sdiv b = a div b"
  by (cases "a = 0") (simp_all add: signed_divide_int_def)

lemma go_mod_less [slice_simps]: "0 \<le> a \<Longrightarrow> a < b \<Longrightarrow> go_mod a b = Some a"
  by (simp add: go_mod_def)

lemma go_mod_wrap [slice_simps]: "0 < b \<Longrightarrow> b \<le> a \<Longrightarrow> a < 2 * b \<Longrightarrow> go_mod a b = Some (a - b)"
proof -
  assume b: "0 < b" "b \<le> a" "a < 2 * b"
  then have "a mod b = a - b"
    by (metis add_diff_cancel_right' diff_add_cancel diff_less_eq mod_add_self2 mod_pos_pos_trivial
        le_diff_eq mult_2 add_0)
  with b show ?thesis by (simp add: go_mod_def)
qed

lemma sview_in [slice_simps]:
  "0 \<le> lo \<Longrightarrow> lo \<le> hi \<Longrightarrow> hi \<le> slen s \<Longrightarrow>
   sview s lo hi = Some (take (nat (hi - lo)) (drop (nat lo) (sdata s)))"
  by (auto simp: sview_def reslice_def Let_def slen_def scap_def)

lemma sview_from_in [slice_simps]:
  "0 \<le> lo \<Longrightarrow> lo \<le> slen s \<Longrightarrow> sview_from s lo = Some (drop (nat lo) (sdata s))"
  by (simp add: sview_from_def slice_simps) (simp add: slen_def nat_diff_distrib)

lemma length_blit [simp]: "k \<le> length d \<Longrightarrow> length (blit d k src) = length d"
  by (simp add: blit_def)

text \<open>The shape lemma that every copy of this development goes through.\<close>

lemma blit_middle [slice_simps]:
  "length b = length src \<Longrightarrow> k = length a \<Longrightarrow> blit (a @ b @ c) k src = a @ src @ c"
  by (simp add: blit_def)

lemma blit_prefix [slice_simps]: "length src \<le> length d \<Longrightarrow> blit d 0 src = src @ drop (length src) d"
  by (simp add: blit_def)

lemma blit_clip: "length d \<le> k + length src \<Longrightarrow> blit d k src = take k d @ take (length d - k) src"
  by (simp add: blit_def)

lemma scopy_at_in [slice_simps]:
  "0 \<le> lo \<Longrightarrow> lo \<le> slen s \<Longrightarrow> scopy_at s lo src = Some (s\<lparr>sdata := blit (sdata s) (nat lo) src\<rparr>)"
  by (simp add: scopy_at_def)

lemma lcopy_at_in [slice_simps]:
  "0 \<le> lo \<Longrightarrow> lo \<le> int (length p) \<Longrightarrow> lcopy_at p lo src = Some (blit p (nat lo) src)"
  by (simp add: lcopy_at_def)

lemma lview_in [slice_simps]:
  "0 \<le> lo \<Longrightarrow> lo \<le> hi \<Longrightarrow> hi \<le> int (length p) \<Longrightarrow>
   lview p lo hi = Some (take (nat (hi - lo)) (drop (nat lo) p))"
  by (simp add: lview_def)

lemma sput_in [slice_simps]:
  "0 \<le> i \<Longrightarrow> i < slen s \<Longrightarrow> sput s i c = Some (s\<lparr>sdata := (sdata s)[nat i := c]\<rparr>)"
  by (simp add: sput_def)

lemma sget_in [slice_simps]: "0 \<le> i \<Longrightarrow> i < slen s \<Longrightarrow> sget s i = Some (sdata s ! nat i)"
  by (simp add: sget_def)

lemma split_three:
  assumes "i \<le> j" and "j \<le> length d"
  shows "\<exists>a b c. d = a @ b @ c \<and> length a = i \<and> length b = j - i"
proof (intro exI conjI)
  show "d = take i d @ drop i (take j d) @ drop j d"
    using assms by (metis append.assoc append_take_drop_id drop_take take_add le_add_diff_inverse)
qed (use assms in auto)

lemma bind_Some_conv: "Option.bind m f = Some y \<longleftrightarrow> (\<exists>x. m = Some x \<and> f x = Some y)"
  by (cases m) auto

end
