(* ===== verification/PowerMath.thy ===== *)
theory PowerMath
  imports Prelude
begin

unbundle bit_operations_syntax

text \<open>
  \<open>internal/math/math.go\<close>: the power-of-two helpers that size every ring buffer.
  \<open>int\<close> is 64 bits wide here (\<open>bitSize = 64\<close>), and the bit operations on HOL integers
  are those of two's complement; the only subtraction that can wrap is the one of
  \<open>IsPowerOfTwo\<close>. The lemmas show which bits the shift cascade sets, hence where the
  results are powers of two (arguments up to \<open>2 ^ 32\<close>) and where they are not.
\<close>

section \<open>Definitions\<close>

definition maxintHeadBit :: int where
  "maxintHeadBit = 2 ^ 62"

definition IsPowerOfTwo :: "int \<Rightarrow> bool" where
  "IsPowerOfTwo n \<longleftrightarrow> n AND wrap64 (n - 1) = 0"

text \<open>The shift cascade \<open>n |= n >> 1; ...; n |= n >> 16\<close> of both rounding functions.\<close>

definition smear :: "int \<Rightarrow> int" where
  "smear n =
     (let n = n OR drop_bit 1 n;
          n = n OR drop_bit 2 n;
          n = n OR drop_bit 4 n;
          n = n OR drop_bit 8 n;
          n = n OR drop_bit 16 n
      in n)"

definition CeilToPowerOfTwo :: "int \<Rightarrow> int option" where
  "CeilToPowerOfTwo n =
     (if n AND maxintHeadBit \<noteq> 0 \<and> n > maxintHeadBit then None
      else if n \<le> 2 then Some 2
      else Some (smear (n - 1) + 1))"

definition FloorToPowerOfTwo :: "int \<Rightarrow> int" where
  "FloorToPowerOfTwo n =
     (if n \<le> 2 then n
      else let n = smear n in n - drop_bit 1 n)"

definition ClosestPowerOfTwo :: "int \<Rightarrow> int option" where
  "ClosestPowerOfTwo n =
     do {
       nxt \<leftarrow> CeilToPowerOfTwo n;
       let prev = nxt sdiv 2;
       Some (if n - prev < nxt - n then prev else nxt)
     }"

section \<open>The bits of the cascade\<close>

lemma bit_or_shift:
  fixes n :: int
  shows "bit (n OR drop_bit k n) i \<longleftrightarrow> bit n i \<or> bit n (i + k)"
  by (simp add: bit_or_iff bit_drop_bit_eq add.commute)

lemma bit_cascade_step:
  fixes n n' :: int
  assumes "\<And>i. bit n' i \<longleftrightarrow> (\<exists>j<a. bit n (i + j))"
  shows "bit (n' OR drop_bit a n') i \<longleftrightarrow> (\<exists>j<2 * a. bit n (i + j))"
proof -
  have "(\<exists>j<2 * a. bit n (i + j)) \<longleftrightarrow> (\<exists>j<a. bit n (i + j)) \<or> (\<exists>j<a. bit n (i + a + j))"
  proof (intro iffI)
    assume "\<exists>j<2 * a. bit n (i + j)"
    then obtain j where j: "j < 2 * a" "bit n (i + j)" by blast
    show "(\<exists>j<a. bit n (i + j)) \<or> (\<exists>j<a. bit n (i + a + j))"
    proof (cases "j < a")
      case False
      then have "j - a < a" "bit n (i + a + (j - a))" using j by auto
      then show ?thesis by blast
    qed (use j in blast)
  next
    assume "(\<exists>j<a. bit n (i + j)) \<or> (\<exists>j<a. bit n (i + a + j))"
    then obtain j where "j < a \<and> bit n (i + j) \<or> j < a \<and> bit n (i + (a + j))"
      by (auto simp: add.assoc)
    moreover have "j < a \<Longrightarrow> j < 2 * a" "j < a \<Longrightarrow> a + j < 2 * a" by simp_all
    ultimately show "\<exists>j<2 * a. bit n (i + j)" by blast
  qed
  then show ?thesis by (simp add: bit_or_shift assms)
qed

lemma bit_smear: "bit (smear n) i \<longleftrightarrow> (\<exists>j<32. bit n (i + j))"
proof -
  define n1 where "n1 = n OR drop_bit 1 n"
  define n2 where "n2 = n1 OR drop_bit 2 n1"
  define n4 where "n4 = n2 OR drop_bit 4 n2"
  define n8 where "n8 = n4 OR drop_bit 8 n4"
  have "bit n1 i \<longleftrightarrow> (\<exists>j<2. bit n (i + j))" for i
    unfolding n1_def using bit_cascade_step [of n 1 n i] by simp
  then have "bit n2 i \<longleftrightarrow> (\<exists>j<4. bit n (i + j))" for i
    unfolding n2_def using bit_cascade_step [of n1 2 n i] by simp
  then have "bit n4 i \<longleftrightarrow> (\<exists>j<8. bit n (i + j))" for i
    unfolding n4_def using bit_cascade_step [of n2 4 n i] by simp
  then have "bit n8 i \<longleftrightarrow> (\<exists>j<16. bit n (i + j))" for i
    unfolding n8_def using bit_cascade_step [of n4 8 n i] by simp
  then have "bit (n8 OR drop_bit 16 n8) i \<longleftrightarrow> (\<exists>j<32. bit n (i + j))"
    using bit_cascade_step [of n8 16 n i] by simp
  then show ?thesis
    by (simp add: smear_def Let_def n1_def n2_def n4_def n8_def)
qed

lemma bit_below:
  fixes m :: int
  shows "0 \<le> m \<Longrightarrow> m < 2 ^ k \<Longrightarrow> bit m i \<Longrightarrow> i < k"
  by (metis bit_take_bit_iff take_bit_int_eq_self)

lemma bit_top:
  fixes m :: int
  shows "2 ^ k \<le> m \<Longrightarrow> m < 2 ^ Suc k \<Longrightarrow> bit m k"
proof -
  assume m: "2 ^ k \<le> m" "m < 2 ^ Suc k"
  then have "m div 2 ^ k = 1"
    by (intro int_div_pos_eq [of _ _ _ "m - 2 ^ k"]) auto
  then show ?thesis by (simp add: bit_iff_odd)
qed

text \<open>The leading bit of a positive integer.\<close>

lemma leading_bit:
  fixes m :: int
  shows "0 < m \<Longrightarrow> \<exists>k. 2 ^ k \<le> m \<and> m < 2 ^ Suc k"
proof -
  assume "0 < m"
  then have "\<exists>k. 2 ^ k \<le> nat m \<and> nat m < 2 ^ (k + 1)"
    using ex_power_ivl1 [of 2 "nat m"] by simp
  then show ?thesis using \<open>0 < m\<close> by (auto simp: nat_le_iff nat_less_iff le_nat_iff)
qed

lemma smear_mask:
  assumes "2 ^ k \<le> m" and "m < 2 ^ Suc k" and "k < 32"
  shows "smear m = 2 ^ Suc k - 1"
proof -
  have m0: "0 \<le> m" using assms(1) zero_le_power [of "2::int" k] by linarith
  have "smear m = mask (Suc k)"
  proof (rule bit_eqI)
    fix i
    show "bit (smear m) i \<longleftrightarrow> bit (mask (Suc k) :: int) i"
    proof (cases "i \<le> k")
      case True
      then have "bit m (i + (k - i))" "k - i < 32" using assms bit_top by auto
      then show ?thesis using True by (auto simp: bit_smear bit_mask_iff)
    next
      case False
      then show ?thesis using bit_below [OF m0 assms(2)] by (fastforce simp: bit_smear bit_mask_iff)
    qed
  qed
  then show ?thesis by (simp add: mask_eq_exp_minus_1)
qed

lemma smear_nonneg: "0 \<le> m \<Longrightarrow> 0 \<le> smear m"
  by (simp add: smear_def Let_def)

lemma le_or_shift:
  fixes m :: int
  shows "0 \<le> m \<Longrightarrow> x \<le> m \<Longrightarrow> x \<le> m OR drop_bit k m"
  by (rule order_trans [OF _ or_greater_eq]) simp_all

lemma smear_ge: "0 \<le> m \<Longrightarrow> m \<le> smear m"
  by (simp only: smear_def Let_def le_or_shift or_nonnegative_int_iff
      drop_bit_nonnegative_int_iff order_refl)

lemma smear_less:
  assumes "0 \<le> m" and "m < 2 ^ k"
  shows "smear m < 2 ^ k"
proof -
  have "take_bit k (smear m) = smear m"
    using bit_below [OF assms] by (intro bit_eqI) (fastforce simp: bit_take_bit_iff bit_smear)
  then show ?thesis by (metis take_bit_int_less_exp)
qed

section \<open>What the rounding functions return\<close>

lemma and_head_bit: "2 ^ 62 \<le> n \<Longrightarrow> n < 2 ^ 63 \<Longrightarrow> n AND maxintHeadBit \<noteq> 0"
proof -
  assume n: "2 ^ 62 \<le> n" "n < 2 ^ 63"
  have "bit n 62" by (rule bit_top) (use n in simp_all)
  then have "bit (n AND maxintHeadBit) 62"
    by (simp add: bit_and_iff maxintHeadBit_def bit_exp_iff)
  then show ?thesis by (metis bit_0_eq bot_apply bot_bool_def)
qed

lemma CeilToPowerOfTwo_exact:
  assumes "2 ^ k < n" and "n \<le> 2 ^ Suc k" and "0 < k" and "k < 32"
  shows "CeilToPowerOfTwo n = Some (2 ^ Suc k)"
proof -
  have "(2::int) ^ 1 \<le> 2 ^ k" using assms(3) by (intro power_increasing) auto
  moreover have "(2::int) ^ Suc k \<le> 2 ^ 32" using assms(4) by (intro power_increasing) auto
  ultimately have "\<not> n \<le> 2" "\<not> n > maxintHeadBit" using assms by (auto simp: maxintHeadBit_def)
  then show ?thesis using smear_mask [of k "n - 1"] assms by (simp add: CeilToPowerOfTwo_def)
qed

lemma CeilToPowerOfTwo_small [simp]: "n \<le> 2 \<Longrightarrow> CeilToPowerOfTwo n = Some 2"
  by (simp add: CeilToPowerOfTwo_def maxintHeadBit_def)

text \<open>
  What the ring buffer relies on: below the panic bound the result is defined, large
  enough, and at most twice the argument, whether or not it is a power of two.
\<close>

lemma CeilToPowerOfTwo_bounds:
  assumes "2 < n" and "n \<le> 2 ^ 62"
  shows "\<exists>m. CeilToPowerOfTwo n = Some m \<and> n \<le> m \<and> m \<le> 2 * n"
proof -
  obtain k where k: "2 ^ k \<le> n - 1" "n - 1 < 2 ^ Suc k"
    using leading_bit [of "n - 1"] assms by auto
  then have "smear (n - 1) < 2 ^ Suc k" using smear_less [of "n - 1" "Suc k"] assms by simp
  moreover have "n - 1 \<le> smear (n - 1)" using smear_ge assms by simp
  ultimately show ?thesis using assms k by (simp add: CeilToPowerOfTwo_def maxintHeadBit_def)
qed

section \<open>Properties\<close>

lemma power_range: "(2::int) ^ k < n \<Longrightarrow> n \<le> 2 ^ 32 \<Longrightarrow> k < 32"
  by (metis order.strict_trans1 order_less_le_trans power_strict_increasing_iff one_less_numeral_iff
      semiring_norm(76) of_nat_less_iff)

lemma ceil_exponent:
  assumes "2 < n" and "n \<le> 2 ^ 32"
  obtains k where "0 < k" "2 ^ k < n" "n \<le> 2 ^ Suc k" "CeilToPowerOfTwo n = Some (2 ^ Suc k)"
proof -
  obtain k where k: "2 ^ k \<le> n - 1" "n - 1 < 2 ^ Suc k"
    using leading_bit [of "n - 1"] assms by auto
  have "0 < k" using k assms(1) by (cases k) auto
  moreover have "2 ^ k < n" "n \<le> 2 ^ Suc k" using k by auto
  moreover have "k < 32" using power_range [of k n] k assms(2) by simp
  ultimately show ?thesis using that CeilToPowerOfTwo_exact by blast
qed

text \<open>
  Up to \<open>2 ^ 32\<close>, \<open>CeilToPowerOfTwo\<close> returns (without panicking) the least power
  of two that is at least 2 and at least its argument.
\<close>

theorem CeilToPowerOfTwo_least:
  assumes "n \<le> 2 ^ 32"
  shows "\<exists>k\<ge>1. CeilToPowerOfTwo n = Some (2 ^ k) \<and> n \<le> 2 ^ k \<and> (\<forall>j\<ge>1. n \<le> 2 ^ j \<longrightarrow> k \<le> j)"
proof (cases "n \<le> 2")
  case True
  then show ?thesis by (intro exI [of _ 1]) auto
next
  case False
  then obtain k where k: "2 ^ k < n" "n \<le> 2 ^ Suc k" "CeilToPowerOfTwo n = Some (2 ^ Suc k)"
    using ceil_exponent assms by (metis not_le)
  have "Suc k \<le> j" if "n \<le> 2 ^ j" for j
    using less_le_trans [OF k(1) that] by (intro Suc_leI power_less_imp_less_exp [of "2::int"]) simp_all
  with k show ?thesis by (intro exI [of _ "Suc k"]) auto
qed

theorem CeilToPowerOfTwo_least_witness:
  "\<exists>k\<ge>1. CeilToPowerOfTwo 1025 = Some (2 ^ k) \<and> (1025::int) \<le> 2 ^ k \<and> (\<forall>j\<ge>1. (1025::int) \<le> 2 ^ j \<longrightarrow> k \<le> j)"
  by (rule CeilToPowerOfTwo_least) simp

text \<open>
  The cascade stops at a shift of 16 bits, so \<open>CeilToPowerOfTwo\<close> is wrong on 64-bit
  integers: for every \<open>k\<close> from 32 to 61 it maps \<open>2 ^ k + 1\<close> to a number that is not a
  power of two.
\<close>

theorem CeilToPowerOfTwo_above_32_bits:
  assumes "32 \<le> k" and "k \<le> 61"
  shows "\<exists>m. CeilToPowerOfTwo (2 ^ k + 1) = Some m \<and> \<not> (\<exists>j. m = 2 ^ j)"
proof -
  let ?m = "smear (2 ^ k) + 1"
  have "\<not> bit (smear (2 ^ k)) 0" using assms(1) by (auto simp: bit_smear bit_exp_iff)
  then have "odd ?m" by (simp add: bit_0)
  moreover have "1 < ?m" using smear_ge [of "2 ^ k"] zero_less_power [of "2::int" k] by linarith
  ultimately have "\<not> (\<exists>j. ?m = 2 ^ j)" by (metis even_power less_irrefl power_0 gr0I even_numeral)
  moreover have "(2::int) ^ k \<le> 2 ^ 61" "(2::int) ^ 32 \<le> 2 ^ k"
    using assms power_increasing [of k 61 "2::int"] power_increasing [of 32 k "2::int"] by simp_all
  then have "CeilToPowerOfTwo (2 ^ k + 1) = Some ?m"
    by (simp add: CeilToPowerOfTwo_def maxintHeadBit_def)
  ultimately show ?thesis by blast
qed

theorem CeilToPowerOfTwo_above_32_bits_witness:
  "\<exists>m. CeilToPowerOfTwo (2 ^ 40 + 1) = Some m \<and> \<not> (\<exists>j. m = 2 ^ j)"
  by (rule CeilToPowerOfTwo_above_32_bits) simp_all

text \<open>
  For every 64-bit argument, \<open>CeilToPowerOfTwo\<close> panics exactly above \<open>2 ^ 62\<close>, the
  largest power of two an \<open>int\<close> holds; everywhere else it returns at least its argument.
\<close>

theorem CeilToPowerOfTwo_panics_iff:
  assumes "n < 2 ^ 63"
  shows "(CeilToPowerOfTwo n = None \<longleftrightarrow> 2 ^ 62 < n) \<and> (\<forall>m. CeilToPowerOfTwo n = Some m \<longrightarrow> n \<le> m)"
proof (cases "2 ^ 62 < n")
  case True
  then show ?thesis using and_head_bit [of n] assms by (auto simp: CeilToPowerOfTwo_def maxintHeadBit_def)
next
  case False
  then show ?thesis using CeilToPowerOfTwo_bounds [of n] by (cases "n \<le> 2") auto
qed

theorem CeilToPowerOfTwo_panics_iff_witness:
  "CeilToPowerOfTwo (2 ^ 62 + 1) = None"
  using CeilToPowerOfTwo_panics_iff [of "2 ^ 62 + 1"] by simp

text \<open>
  For a positive argument below \<open>2 ^ 32\<close>, \<open>FloorToPowerOfTwo\<close> returns the greatest
  power of two that is not above it (the comment in the source promises the next-highest).
\<close>

theorem FloorToPowerOfTwo_greatest:
  assumes "0 < n" and "n < 2 ^ 32"
  shows "\<exists>k. FloorToPowerOfTwo n = 2 ^ k \<and> 2 ^ k \<le> n \<and> n < 2 ^ Suc k"
proof -
  obtain k where k: "2 ^ k \<le> n" "n < 2 ^ Suc k" using leading_bit assms(1) by blast
  have "k < 32" using k assms(2) by (metis order.strict_trans1 power_less_imp_less_exp one_less_numeral_iff semiring_norm(76))
  then have sm: "smear n = 2 ^ Suc k - 1" using smear_mask k by blast
  have half: "drop_bit 1 (2 ^ Suc k - 1 :: int) = 2 ^ k - 1" by (simp add: drop_bit_eq_div)
  show ?thesis
  proof (cases "n \<le> 2")
    case True
    then consider "n = 1" | "n = 2" using assms(1) by linarith
    then show ?thesis
      by cases (intro exI [of _ 0] exI [of _ 1], simp add: FloorToPowerOfTwo_def)+
  next
    case False
    then have "FloorToPowerOfTwo n = 2 ^ k" using sm half by (simp add: FloorToPowerOfTwo_def)
    then show ?thesis using k by blast
  qed
qed

theorem FloorToPowerOfTwo_greatest_witness:
  "\<exists>k. FloorToPowerOfTwo 1000 = 2 ^ k \<and> (2::int) ^ k \<le> 1000 \<and> (1000::int) < 2 ^ Suc k"
  by (rule FloorToPowerOfTwo_greatest) simp_all

text \<open>
  Up to \<open>2 ^ 32\<close>, \<open>ClosestPowerOfTwo\<close> returns a power of two and no power of two is
  nearer to its argument.
\<close>

theorem ClosestPowerOfTwo_nearest:
  assumes "2 < n" and "n \<le> 2 ^ 32"
  shows "\<exists>k. ClosestPowerOfTwo n = Some (2 ^ k) \<and> (\<forall>j. \<bar>n - 2 ^ k\<bar> \<le> \<bar>n - 2 ^ j\<bar>)"
proof -
  obtain k where k: "2 ^ k < n" "n \<le> 2 ^ Suc k" and c: "CeilToPowerOfTwo n = Some (2 ^ Suc k)"
    using ceil_exponent assms by metis
  have far: "(2::int) ^ j \<le> 2 ^ k \<or> 2 ^ Suc k \<le> (2::int) ^ j" for j
    by (cases "j \<le> k") (auto intro: power_increasing simp: not_le Suc_le_eq simp del: power_Suc)
  have cl: "ClosestPowerOfTwo n = Some (if n - 2 ^ k < 2 ^ Suc k - n then 2 ^ k else 2 ^ Suc k)"
    by (simp add: ClosestPowerOfTwo_def c)
  show ?thesis
  proof (cases "n - 2 ^ k < 2 ^ Suc k - n")
    case True
    then have "\<bar>n - 2 ^ k\<bar> \<le> \<bar>n - 2 ^ j\<bar>" for j using far [of j] k by linarith
    with True cl show ?thesis by auto
  next
    case False
    then have "\<bar>n - 2 ^ Suc k\<bar> \<le> \<bar>n - 2 ^ j\<bar>" for j using far [of j] k by linarith
    with False cl show ?thesis by (intro exI [of _ "Suc k"]) auto
  qed
qed

theorem ClosestPowerOfTwo_nearest_witness:
  "\<exists>k. ClosestPowerOfTwo 1300 = Some (2 ^ k) \<and> (\<forall>j. \<bar>(1300::int) - 2 ^ k\<bar> \<le> \<bar>1300 - 2 ^ j\<bar>)"
  by (rule ClosestPowerOfTwo_nearest) simp_all

text \<open>
  On 64-bit integers \<open>IsPowerOfTwo\<close> holds exactly of the powers of two, of 0 and of the
  least integer.
\<close>

theorem IsPowerOfTwo_iff:
  assumes "- (2 ^ 63) \<le> n" and "n < 2 ^ 63"
  shows "IsPowerOfTwo n \<longleftrightarrow> n = 0 \<or> n = - (2 ^ 63) \<or> (\<exists>k. n = 2 ^ k)"
proof -
  consider "n = 0" | "n = - (2 ^ 63)" | "0 < n" | "- (2 ^ 63) < n" "n < 0" using assms by linarith
  then show ?thesis
  proof cases
    case 3
    then obtain k where k: "2 ^ k \<le> n" "n < 2 ^ Suc k" using leading_bit by blast
    have w: "wrap64 (n - 1) = n - 1" using 3 assms by simp
    show ?thesis
    proof (cases "n = 2 ^ k")
      case True
      have "n AND (n - 1) = 0"
        by (rule bit_eqI) (auto simp: True bit_and_iff bit_exp_iff mask_eq_exp_minus_1 [symmetric] bit_mask_iff)
      then show ?thesis using True w by (auto simp: IsPowerOfTwo_def)
    next
      case False
      then have "bit n k" "bit (n - 1) k" using k bit_top [of k n] bit_top [of k "n - 1"] by auto
      then have "bit (n AND (n - 1)) k" by (simp add: bit_and_iff)
      then have "\<not> IsPowerOfTwo n" using w by (auto simp: IsPowerOfTwo_def)
      moreover have "n \<noteq> 2 ^ j" for j
      proof
        assume "n = 2 ^ j"
        then have "k = j" using k by (metis power_le_imp_le_exp power_less_imp_less_exp less_Suc_eq_le
              one_less_numeral_iff semiring_norm(76) antisym)
        then show False using False \<open>n = 2 ^ j\<close> by simp
      qed
      ultimately show ?thesis using 3 by auto
    qed
  next
    case 4
    then have "n AND (n - 1) < 0" by (subst and_negative_int_iff) simp
    then have "n AND (n - 1) \<noteq> 0" by linarith
    moreover have "wrap64 (n - 1) = n - 1" using 4 by simp
    moreover have "n \<noteq> 2 ^ k" for k using 4 zero_less_power [of "2::int" k] by linarith
    ultimately show ?thesis using 4 by (auto simp: IsPowerOfTwo_def)
  qed (simp_all add: IsPowerOfTwo_def wrap64_def)
qed

theorem IsPowerOfTwo_iff_witness:
  "IsPowerOfTwo 96 \<longleftrightarrow> (96::int) = 0 \<or> (96::int) = - (2 ^ 63) \<or> (\<exists>k. (96::int) = 2 ^ k)"
  by (rule IsPowerOfTwo_iff) simp_all

end
