(* ===== verification/Endian.thy ===== *)
theory Endian
  imports Prelude
begin

text \<open>
  The fixed-width integers of \<open>encoding/binary\<close>: big-endian for the descriptors, little-endian
  for the default message header.
\<close>

section \<open>Big-endian\<close>

fun be_put :: "nat \<Rightarrow> nat \<Rightarrow> byte list" where
  "be_put 0 x = []"
| "be_put (Suc n) x = word_of_nat (x div 256 ^ n) # be_put n x"

definition be_get :: "byte list \<Rightarrow> nat" where
  "be_get bs = foldl (\<lambda>a b. a * 256 + unat b) 0 bs"

lemma length_be_put [simp]: "length (be_put n x) = n"
  by (induction n) auto

lemma foldl_be_put: "foldl (\<lambda>a b. a * 256 + unat b) a (be_put n x) = a * 256 ^ n + x mod 256 ^ n"
proof (induction n arbitrary: a)
  case (Suc n)
  have "x mod 256 ^ Suc n = 256 ^ n * (x div 256 ^ n mod 256) + x mod 256 ^ n"
    by (metis mod_mult2_eq power_Suc2)
  then show ?case using Suc
    by (simp add: unat_of_nat take_bit_eq_mod algebra_simps del: power_Suc) (simp add: algebra_simps)
qed simp

lemma be_get_put: "be_get (be_put n x) = x mod 256 ^ n"
  using foldl_be_put [of 0 n x] by (simp add: be_get_def)

lemma foldl_be_bound: "foldl (\<lambda>a b. a * 256 + unat (b::byte)) a bs < (a + 1) * 256 ^ length bs"
proof (induction bs arbitrary: a)
  case (Cons b bs)
  have "unat b < 2 ^ 8" using uint_bounded [of b] by (simp add: unat_eq_nat_uint nat_less_iff del: nat_uint_eq)
  then have "a * 256 + unat b + 1 \<le> (a + 1) * 256" by simp
  then have "(a * 256 + unat b + 1) * 256 ^ length bs \<le> (a + 1) * 256 * 256 ^ length bs"
    by (rule mult_le_mono1)
  with Cons [of "a * 256 + unat b"]
  have "foldl (\<lambda>a b. a * 256 + unat b) (a * 256 + unat b) bs < (a + 1) * 256 * 256 ^ length bs"
    by (rule less_le_trans)
  then show ?case by (simp add: algebra_simps)
qed simp

lemma be_get_bound: "be_get bs < 256 ^ length bs"
  using foldl_be_bound [of 0 bs] by (simp add: be_get_def)

section \<open>Little-endian\<close>

definition le_put :: "nat \<Rightarrow> nat \<Rightarrow> byte list" where
  "le_put n x = rev (be_put n x)"

definition le_get :: "byte list \<Rightarrow> nat" where
  "le_get bs = be_get (rev bs)"

lemma length_le_put [simp]: "length (le_put n x) = n"
  by (simp add: le_put_def)

lemma le_get_put: "le_get (le_put n x) = x mod 256 ^ n"
  by (simp add: le_get_def le_put_def be_get_put)

lemma byte_256: "(256 :: byte) = 0"
  by code_simp

lemma be_put_get: "be_put (length bs) (be_get bs) = bs"
proof -
  have "be_put (length bs) (foldl (\<lambda>a b. a * 256 + unat b) a bs) = bs" for a
  proof (induction bs arbitrary: a)
    case (Cons b bs)
    let ?f = "foldl (\<lambda>a b. a * 256 + unat b) (a * 256 + unat b) bs"
    have "?f = (a * 256 + unat b) * 256 ^ length bs + be_get bs"
      unfolding be_get_def
    proof (induction bs rule: rev_induct)
      case (snoc x xs)
      then show ?case by (simp add: algebra_simps)
    qed simp
    then have "?f div 256 ^ length bs = a * 256 + unat b" using be_get_bound [of bs] by simp
    moreover have "(word_of_nat (a * 256 + unat b) :: byte) = word_of_nat a * 256 + b" by simp
    ultimately have "(word_of_nat (?f div 256 ^ length bs) :: byte) = b" by (simp only: byte_256) simp
    then show ?case using Cons.IH [of "a * 256 + unat b"] by simp
  qed simp
  then show ?thesis by (simp add: be_get_def)
qed

lemma le_put_4:
  "le_put 4 x = [word_of_nat x, word_of_nat (x div 256), word_of_nat (x div 65536), word_of_nat (x div 16777216)]"
proof -
  have four: "4 = Suc (Suc (Suc (Suc 0)))" by simp
  have "256 ^ 3 = (16777216 :: nat)" "256 ^ 2 = (65536 :: nat)" by simp_all
  then have "be_put 4 x = [word_of_nat (x div 16777216), word_of_nat (x div 65536), word_of_nat (x div 256), word_of_nat x]"
    unfolding four be_put.simps by (simp only: numeral_3_eq_3 numeral_2_eq_2 power_0 One_nat_def power_Suc0_right) simp
  then show ?thesis by (simp add: le_put_def)
qed

end
