(* ===== verification/Gfd.thy ===== *)
theory Gfd
  imports Endian
begin

text \<open>
  \<open>internal/gfd/gfd.go\<close>: the 16-byte descriptor that packs an event-loop index, the two
  indexes of the connection matrix, a sequence number and the file descriptor. A GFD is its
  byte list; the big-endian conversions of \<open>encoding/binary\<close> are \<open>be_put\<close> and \<open>be_get\<close>.
\<close>

section \<open>Definitions\<close>

type_synonym gfd = "byte list"

definition ConnMatrixColumnOffset :: nat where
  "ConnMatrixColumnOffset = 2"

definition SequenceOffset :: nat where
  "SequenceOffset = 4"

definition FdOffset :: nat where
  "FdOffset = 8"

definition EventLoopIndexMax :: int where
  "EventLoopIndexMax = 256"

definition ConnMatrixRowMax :: int where
  "ConnMatrixRowMax = 256"

definition ConnMatrixColumnMax :: int where
  "ConnMatrixColumnMax = 65536"

definition MaxInt :: int where
  "MaxInt = 2 ^ 63 - 1"

text \<open>The bytes from one offset to the next, \<open>gfd[lo:hi]\<close>, and writing them.\<close>

definition gfd_field :: "gfd \<Rightarrow> nat \<Rightarrow> nat \<Rightarrow> byte list" where
  "gfd_field g lo hi = take (hi - lo) (drop lo g)"

text \<open>\<open>monoSeq.Inc()\<close> on the 32-bit counter: it returns the new value and wraps.\<close>

definition monotoneSeq_Inc :: "32 word \<Rightarrow> 32 word" where
  "monotoneSeq_Inc seq = seq + 1"

text \<open>\<open>int(uint64)\<close> reinterprets the 64 bits as a signed integer.\<close>

definition gfd_Fd :: "gfd \<Rightarrow> int" where
  "gfd_Fd g = wrap64 (int (be_get (drop FdOffset g)))"

definition gfd_EventLoopIndex :: "gfd \<Rightarrow> int" where
  "gfd_EventLoopIndex g = uint (g ! 0)"

definition gfd_ConnMatrixRow :: "gfd \<Rightarrow> int" where
  "gfd_ConnMatrixRow g = uint (g ! 1)"

definition gfd_ConnMatrixColumn :: "gfd \<Rightarrow> int" where
  "gfd_ConnMatrixColumn g = int (be_get (gfd_field g ConnMatrixColumnOffset SequenceOffset))"

definition gfd_Sequence :: "gfd \<Rightarrow> nat" where
  "gfd_Sequence g = be_get (gfd_field g SequenceOffset FdOffset)"

definition gfd_UpdateIndexes :: "gfd \<Rightarrow> int \<Rightarrow> int \<Rightarrow> gfd" where
  "gfd_UpdateIndexes g row column =
     (let g = g[1 := word_of_int row]
      in blit g ConnMatrixColumnOffset (be_put 2 (unat (word_of_int column :: 16 word))))"

definition gfd_Validate :: "gfd \<Rightarrow> bool" where
  "gfd_Validate g \<longleftrightarrow>
     gfd_Fd g > 2 \<and> gfd_Fd g \<le> MaxInt \<and>
     gfd_EventLoopIndex g \<ge> 0 \<and> gfd_EventLoopIndex g < EventLoopIndexMax \<and>
     gfd_ConnMatrixRow g \<ge> 0 \<and> gfd_ConnMatrixRow g < ConnMatrixRowMax \<and>
     gfd_ConnMatrixColumn g \<ge> 0 \<and> gfd_ConnMatrixColumn g < ConnMatrixColumnMax \<and>
     gfd_Sequence g > 0"

text \<open>\<open>NewGFD\<close>, with the sequence counter before and after.\<close>

definition NewGFD :: "32 word \<Rightarrow> int \<Rightarrow> int \<Rightarrow> int \<Rightarrow> int \<Rightarrow> gfd \<times> 32 word" where
  "NewGFD seq fd elIndex row column =
     (let g = replicate 16 0;
          g = g[0 := word_of_int elIndex];
          g = g[1 := word_of_int row];
          g = blit g ConnMatrixColumnOffset (be_put 2 (unat (word_of_int column :: 16 word)));
          seq = monotoneSeq_Inc seq;
          g = blit g SequenceOffset (be_put 4 (unat seq));
          g = blit g FdOffset (be_put 8 (unat (word_of_int fd :: 64 word)))
      in (g, seq))"

section \<open>Layout\<close>

definition gfd_layout :: "byte \<Rightarrow> byte \<Rightarrow> byte list \<Rightarrow> byte list \<Rightarrow> byte list \<Rightarrow> gfd" where
  "gfd_layout e r c s f = e # r # c @ s @ f"

lemma NewGFD_layout:
  "NewGFD seq fd elIndex row column =
    (gfd_layout (word_of_int elIndex) (word_of_int row) (be_put 2 (unat (word_of_int column :: 16 word)))
       (be_put 4 (unat (seq + 1))) (be_put 8 (unat (word_of_int fd :: 64 word))), seq + 1)"
proof -
  let ?c = "be_put 2 (unat (word_of_int column :: 16 word))" and ?s = "be_put 4 (unat (seq + 1))"
    and ?f = "be_put 8 (unat (word_of_int fd :: 64 word))"
  have "(replicate 16 0 :: gfd) = [0, 0] @ replicate 2 0 @ replicate 4 0 @ replicate 8 0"
    by (simp add: numeral_eq_Suc)
  then have u: "(replicate 16 0)[0 := e, 1 := r] = [e, r] @ replicate 2 0 @ replicate 4 0 @ replicate 8 0" for e r :: byte
    by simp
  have "blit ([e, r] @ replicate 2 0 @ replicate 4 0 @ replicate 8 0) 2 ?c =
      ([e, r] @ ?c) @ replicate 4 0 @ replicate 8 0" for e r
    by (subst blit_middle) simp_all
  moreover have "blit (([e, r] @ ?c) @ replicate 4 0 @ replicate 8 0) 4 ?s = ([e, r] @ ?c @ ?s) @ replicate 8 0 @ []" for e r
    by (subst blit_middle) simp_all
  moreover have "blit (([e, r] @ ?c @ ?s) @ replicate 8 0 @ []) 8 ?f = ([e, r] @ ?c @ ?s) @ ?f @ []" for e r
    by (subst blit_middle) simp_all
  ultimately show ?thesis
    unfolding NewGFD_def Let_def gfd_layout_def ConnMatrixColumnOffset_def SequenceOffset_def FdOffset_def
      monotoneSeq_Inc_def u
    by (simp only: append_Nil2 append_Cons append_Nil append_assoc)
qed

lemma gfd_split:
  assumes "length g = 16"
  obtains e r c s f where "g = gfd_layout e r c s f" "length c = 2" "length s = 4" "length f = 8"
proof -
  obtain e g1 where "g = e # g1" "length g1 = 15" using assms by (cases g) auto
  moreover obtain r t where "g1 = r # t" "length t = 14" using calculation by (cases g1) auto
  moreover have "t = take 2 t @ take 4 (drop 2 t) @ drop 4 (drop 2 t)"
    by (simp only: append_take_drop_id)
  ultimately have "g = gfd_layout e r (take 2 t) (take 4 (drop 2 t)) (drop 4 (drop 2 t))" "length t = 14"
    by (simp_all only: gfd_layout_def)
  then show ?thesis by (intro that) auto
qed

lemma gfd_layout_fields:
  assumes "length c = 2" and "length s = 4" and "length f = 8"
  shows "gfd_EventLoopIndex (gfd_layout e r c s f) = uint e" and "gfd_ConnMatrixRow (gfd_layout e r c s f) = uint r"
    and "gfd_ConnMatrixColumn (gfd_layout e r c s f) = int (be_get c)"
    and "gfd_Sequence (gfd_layout e r c s f) = be_get s"
    and "gfd_Fd (gfd_layout e r c s f) = wrap64 (int (be_get f))"
    and "gfd_UpdateIndexes (gfd_layout e r c s f) row col =
      gfd_layout e (word_of_int row) (be_put 2 (unat (word_of_int col :: 16 word))) s f"
  using assms
  by (auto simp: gfd_layout_def gfd_EventLoopIndex_def gfd_ConnMatrixRow_def gfd_ConnMatrixColumn_def
      gfd_Sequence_def gfd_Fd_def gfd_UpdateIndexes_def gfd_field_def ConnMatrixColumnOffset_def
      SequenceOffset_def FdOffset_def blit_def Let_def)

lemma uint_small [simp]: "0 \<le> x \<Longrightarrow> x < 256 \<Longrightarrow> uint (word_of_int x :: byte) = x"
  by (simp add: uint_word_of_int)

lemma column_back:
  "0 \<le> x \<Longrightarrow> x < 65536 \<Longrightarrow> be_get (be_put 2 (unat (word_of_int x :: 16 word))) = nat x"
  by (simp add: be_get_put unat_eq_nat_uint uint_word_of_int del: nat_uint_eq)

lemma fd_back:
  assumes "- (2 ^ 63) \<le> fd" and "fd < 2 ^ 63"
  shows "wrap64 (int (be_get (be_put 8 (unat (word_of_int fd :: 64 word))))) = fd"
proof -
  have u: "unat (word_of_int fd :: 64 word) = nat (fd mod 2 ^ 64)"
    by (simp add: unat_eq_nat_uint uint_word_of_int del: nat_uint_eq)
  have "nat (fd mod 2 ^ 64) < 2 ^ 64" by (simp add: nat_less_iff)
  then have "be_get (be_put 8 (unat (word_of_int fd :: 64 word))) = nat (fd mod 2 ^ 64)"
    unfolding u be_get_put by simp
  then have "int (be_get (be_put 8 (unat (word_of_int fd :: 64 word)))) = fd mod 2 ^ 64" by simp
  then show ?thesis using assms by (simp only: wrap64_def) (simp add: mod_add_left_eq)
qed

section \<open>Properties\<close>

text \<open>
  C36: the descriptor round trip. Every field that \<open>NewGFD\<close> is given within its documented
  range is read back unchanged, the sequence is the incremented counter, and \<open>UpdateIndexes\<close>
  replaces the two matrix indexes and nothing else.
\<close>

theorem NewGFD_roundtrip:
  assumes "0 \<le> fd" and "fd \<le> MaxInt" and "0 \<le> el" and "el < EventLoopIndexMax"
    and "0 \<le> row" and "row < ConnMatrixRowMax" and "0 \<le> col" and "col < ConnMatrixColumnMax"
    and "0 \<le> row'" and "row' < ConnMatrixRowMax" and "0 \<le> col'" and "col' < ConnMatrixColumnMax"
  shows "\<exists>g. NewGFD seq fd el row col = (g, seq + 1) \<and> length g = 16 \<and>
    gfd_Fd g = fd \<and> gfd_EventLoopIndex g = el \<and> gfd_ConnMatrixRow g = row \<and> gfd_ConnMatrixColumn g = col \<and>
    gfd_Sequence g = unat (seq + 1) \<and>
    (let g' = gfd_UpdateIndexes g row' col' in
      gfd_ConnMatrixRow g' = row' \<and> gfd_ConnMatrixColumn g' = col' \<and> gfd_Fd g' = fd \<and>
      gfd_EventLoopIndex g' = el \<and> gfd_Sequence g' = unat (seq + 1))"
proof -
  have s: "be_get (be_put 4 (unat (seq + 1))) = unat (seq + 1)"
    using uint_bounded [of "seq + 1"] by (simp add: be_get_put unat_eq_nat_uint nat_less_iff del: nat_uint_eq)
  have f: "wrap64 (int (be_get (be_put 8 (unat (word_of_int fd :: 64 word))))) = fd"
    using assms(1,2) by (intro fd_back) (simp_all add: MaxInt_def)
  note [simp] = EventLoopIndexMax_def ConnMatrixRowMax_def ConnMatrixColumnMax_def
  show ?thesis
    using assms column_back [of col] column_back [of col']
    by (simp add: NewGFD_layout gfd_layout_fields s f Let_def) (simp add: gfd_layout_def)
qed

theorem NewGFD_roundtrip_witness:
  "\<exists>g. NewGFD 41 77 3 2 515 = (g, 41 + 1) \<and> length g = 16 \<and>
    gfd_Fd g = 77 \<and> gfd_EventLoopIndex g = 3 \<and> gfd_ConnMatrixRow g = 2 \<and> gfd_ConnMatrixColumn g = 515 \<and>
    gfd_Sequence g = unat (41 + 1 :: 32 word) \<and>
    (let g' = gfd_UpdateIndexes g 9 1 in
      gfd_ConnMatrixRow g' = 9 \<and> gfd_ConnMatrixColumn g' = 1 \<and> gfd_Fd g' = 77 \<and>
      gfd_EventLoopIndex g' = 3 \<and> gfd_Sequence g' = unat (41 + 1 :: 32 word))"
  by (rule NewGFD_roundtrip)
    (simp_all add: MaxInt_def EventLoopIndexMax_def ConnMatrixRowMax_def ConnMatrixColumnMax_def)

text \<open>
  \<open>Validate\<close> decides exactly two things of any 16 bytes: that the descriptor is above 2
  and that the sequence is not 0; its six range checks of the indexes can never fail, since a
  byte and two bytes cannot be out of their range.
\<close>

theorem gfd_Validate_iff:
  assumes "length g = 16"
  shows "gfd_Validate g \<longleftrightarrow> 2 < gfd_Fd g \<and> gfd_Sequence g \<noteq> 0"
proof -
  obtain e r c s f where g: "g = gfd_layout e r c s f" "length c = 2" "length s = 4" "length f = 8"
    using assms by (rule gfd_split)
  have "uint e < 256" "uint r < 256" using uint_bounded [of e] uint_bounded [of r] by simp_all
  moreover have "be_get c < 65536" using be_get_bound [of c] g(2) by simp
  moreover have "wrap64 x \<le> MaxInt" for x
  proof -
    have "(x + 2 ^ 63) mod 2 ^ 64 < 2 ^ 64" by simp
    then show ?thesis by (simp add: wrap64_def MaxInt_def)
  qed
  ultimately show ?thesis
    unfolding g(1) gfd_Validate_def gfd_layout_fields [OF g(2-4)]
    by (auto simp: EventLoopIndexMax_def ConnMatrixRowMax_def ConnMatrixColumnMax_def)
qed

theorem gfd_Validate_iff_witness:
  "gfd_Validate (replicate 15 0 @ [9]) \<longleftrightarrow>
     2 < gfd_Fd (replicate 15 0 @ [9]) \<and> gfd_Sequence (replicate 15 0 @ [9]) \<noteq> 0"
  by (rule gfd_Validate_iff) simp

end
