(* ===== verification/Byteslice.thy ===== *)
theory Byteslice
  imports Prelude
begin

text \<open>
  \<open>pkg/pool/byteslice/byteslice.go\<close>: the pool of byte slices, 32 \<open>sync.Pool\<close>s of arrays
  indexed by the binary logarithm of the capacity. The pool keeps bare array pointers and
  rebuilds the slice header with capacity \<open>1 << idx\<close>; the component is correct when the
  array behind every stored pointer is at least that long (\<open>pool_ok\<close>).

  A \<open>sync.Pool\<close> is the list of the arrays put into it, the last one first. \<open>Get\<close>
  of the real one may return any of them or none and the collector may drop some; every
  lemma below holds for every pool that satisfies \<open>pool_ok\<close>, and dropping or reordering
  arrays keeps \<open>pool_ok\<close>.
\<close>

section \<open>Definitions\<close>

record bsPool =
  pools :: "nat \<Rightarrow> byte list list"

definition empty_bsPool :: bsPool where
  "empty_bsPool = \<lparr>pools = (\<lambda>_. [])\<rparr>"

text \<open>\<open>math/bits\<close>: the number of bits needed to write \<open>n\<close>.\<close>

fun bits_Len :: "nat \<Rightarrow> nat" where
  "bits_Len n = (if n = 0 then 0 else Suc (bits_Len (n div 2)))"

declare bits_Len.simps [simp del]

lemma bits_Len_0 [simp]: "bits_Len 0 = 0"
  by (simp add: bits_Len.simps)

text \<open>\<open>index(n uint32) = bits.Len32(n - 1)\<close>, on 32-bit words.\<close>

definition bs_index :: "32 word \<Rightarrow> nat" where
  "bs_index n = bits_Len (unat (n - 1))"

text \<open>\<open>pools[idx].Get()\<close>: an array and the pool without it.\<close>

definition pool_take :: "bsPool \<Rightarrow> nat \<Rightarrow> (byte list \<times> bsPool) option" where
  "pool_take p idx =
     (case pools p idx of
        [] \<Rightarrow> None
      | a # as \<Rightarrow> Some (a, p\<lparr>pools := (pools p)(idx := as)\<rparr>))"

text \<open>
  \<open>Get\<close>: the header it builds around a pooled array reaches \<open>1 << idx\<close> bytes; were
  the array shorter, the header would reach foreign memory, which the model gives no value
  (\<open>None\<close>). The bytes of a pooled array are stale.
\<close>

definition bs_Get :: "bsPool \<Rightarrow> int \<Rightarrow> (slice \<times> bsPool) option" where
  "bs_Get p sz =
     (if sz \<le> 0 then Some (nil_slice, p)
      else if sz > MaxInt32 then map_option (\<lambda>s. (s, p)) (make_slice sz)
      else
        let idx = bs_index (word_of_int sz) in
        case pool_take p idx of
          None \<Rightarrow>
            do {
              s \<leftarrow> make_slice (2 ^ idx);
              s \<leftarrow> reslice s 0 sz;
              Some (s, p)
            }
        | Some (a, p') \<Rightarrow>
            if length a < 2 ^ idx then None
            else Some (\<lparr>sdata = take (nat sz) a, sspare = drop (nat sz) (take (2 ^ idx) a)\<rparr>, p'))"

text \<open>\<open>Put\<close> stores the array from the start of the slice on, all of its capacity.\<close>

definition bs_Put :: "bsPool \<Rightarrow> slice \<Rightarrow> bsPool" where
  "bs_Put p s =
     (let sz = scap s in
      if sz = 0 \<or> sz > MaxInt32 then p
      else
        let idx = bs_index (word_of_int sz);
            idx = (if sz \<noteq> 2 ^ idx then idx - 1 else idx)
        in p\<lparr>pools := (pools p)(idx := (sdata s @ sspare s) # pools p idx)\<rparr>)"

definition pool_ok :: "bsPool \<Rightarrow> bool" where
  "pool_ok p \<longleftrightarrow> (\<forall>i. \<forall>a \<in> set (pools p i). 2 ^ i \<le> length a)"

section \<open>The index function\<close>

lemma bits_Len_bounds: "n < 2 ^ bits_Len n \<and> (n \<noteq> 0 \<longrightarrow> 2 ^ bits_Len n \<le> 2 * n)"
proof (induction n rule: bits_Len.induct)
  case (1 n)
  show ?case
  proof (cases "n = 0")
    case False
    with 1 have ih: "n div 2 < 2 ^ bits_Len (n div 2)"
      "n div 2 \<noteq> 0 \<longrightarrow> 2 ^ bits_Len (n div 2) \<le> 2 * (n div 2)" by auto
    have "bits_Len n = Suc (bits_Len (n div 2))" using False by (simp add: bits_Len.simps [of n])
    then show ?thesis using ih False by (cases "n div 2 = 0") auto
  qed (simp add: bits_Len.simps)
qed

lemma bits_Len_le: "n < 2 ^ k \<Longrightarrow> bits_Len n \<le> k"
proof (rule ccontr)
  assume n: "n < 2 ^ k" and "\<not> bits_Len n \<le> k"
  then have "(2::nat) ^ Suc k \<le> 2 ^ bits_Len n" by (intro power_increasing) auto
  moreover have "n \<noteq> 0" using \<open>\<not> bits_Len n \<le> k\<close> by (intro notI) simp
  ultimately show False using bits_Len_bounds [of n] n by simp
qed

lemma unat_size_minus_1:
  assumes "0 < sz" and "sz \<le> MaxInt32"
  shows "unat (word_of_int sz - 1 :: 32 word) = nat (sz - 1)"
proof -
  have "uint (word_of_int (sz - 1) :: 32 word) = take_bit 32 (sz - 1)"
    by (simp only: uint_word_of_int_eq) simp
  also have "\<dots> = sz - 1"
    using assms by (intro take_bit_int_eq_self) (simp_all add: MaxInt32_def)
  finally show ?thesis
    by (simp add: wi_hom_syms nat_uint_eq [symmetric] del: of_int_diff nat_uint_eq)
qed

text \<open>
  The index of a size is the rounded-up binary logarithm: \<open>2 ^ idx\<close> holds the size, and a
  size that is not a power of two is above \<open>2 ^ (idx - 1)\<close>.
\<close>

lemma bs_index_bounds:
  assumes "0 < sz" and "sz \<le> MaxInt32"
  shows "sz \<le> 2 ^ bs_index (word_of_int sz)" and "bs_index (word_of_int sz) \<le> 31"
    and "1 < sz \<Longrightarrow>
      bs_index (word_of_int sz) \<noteq> 0 \<and> 2 ^ (bs_index (word_of_int sz) - 1) < sz"
proof -
  define m where "m = nat (sz - 1)"
  have idx: "bs_index (word_of_int sz) = bits_Len m"
    using unat_size_minus_1 [OF assms] by (simp add: bs_index_def m_def)
  have m: "m < 2 ^ bits_Len m" "m \<noteq> 0 \<Longrightarrow> 2 ^ bits_Len m \<le> 2 * m" using bits_Len_bounds by auto
  have sz: "sz = int m + 1" using assms m_def by simp
  have "int (Suc m) \<le> int (2 ^ bits_Len m)" using m(1) by (simp only: of_nat_le_iff Suc_le_eq)
  then show "sz \<le> 2 ^ bs_index (word_of_int sz)" unfolding idx using sz by simp
  have "m < 2 ^ 31" using assms by (simp add: m_def MaxInt32_def)
  then show "bs_index (word_of_int sz) \<le> 31" using bits_Len_le idx by simp
  assume "1 < sz"
  then have "m \<noteq> 0" using sz by simp
  then have "bits_Len m \<noteq> 0" using m(1) by (metis less_one power_0)
  then have "2 * (2::nat) ^ (bits_Len m - 1) \<le> 2 * m"
    using m(2) \<open>m \<noteq> 0\<close> by (metis power_eq_if)
  then have "int (2 ^ (bits_Len m - 1)) \<le> int m" by (simp only: of_nat_le_iff)
  then show "bs_index (word_of_int sz) \<noteq> 0 \<and> 2 ^ (bs_index (word_of_int sz) - 1) < sz"
    unfolding idx using \<open>bits_Len m \<noteq> 0\<close> sz by simp
qed

lemma bs_index_1 [simp]: "bs_index 1 = 0"
  by (simp add: bs_index_def)

lemma bs_index_eq:
  assumes "0 < sz" and "sz \<le> MaxInt32" and "sz \<le> 2 ^ i" and "i = 0 \<or> 2 ^ (i - 1) < sz"
  shows "bs_index (word_of_int sz) = i"
proof (cases "sz = 1")
  case True
  have "(1::int) \<le> 2 ^ (i - 1)" by (rule one_le_power) simp
  then have "i = 0" using assms(4) True by linarith
  then show ?thesis using True by simp
next
  case False
  define idx where "idx = bs_index (word_of_int sz)"
  have b: "sz \<le> 2 ^ idx" "idx \<noteq> 0" "2 ^ (idx - 1) < sz"
    using bs_index_bounds [OF assms(1,2)] False assms(1) by (auto simp: idx_def)
  have "(2::int) ^ (idx - 1) < 2 ^ i" using b(3) assms(3) by linarith
  then have "idx - 1 < i" by (rule power_less_imp_less_exp [rotated]) simp
  have "i \<noteq> 0" using assms(3) False assms(1) by (intro notI) simp
  then have "(2::int) ^ (i - 1) < 2 ^ idx" using b(1) assms(4) by linarith
  then have "i - 1 < idx" by (rule power_less_imp_less_exp [rotated]) simp
  with \<open>idx - 1 < i\<close> b(2) \<open>i \<noteq> 0\<close> show ?thesis unfolding idx_def [symmetric] by linarith
qed

section \<open>Get and Put keep the pool sound\<close>

lemma pool_ok_empty [simp]: "pool_ok empty_bsPool"
  by (simp add: pool_ok_def empty_bsPool_def)

lemma pool_take_ok:
  assumes "pool_ok p" and "pool_take p idx = Some (a, p')"
  shows "pool_ok p'" and "2 ^ idx \<le> length a"
  using assms by (auto simp: pool_ok_def pool_take_def split: list.splits if_splits)

lemma bs_Get_None [simp]: "sz \<le> 0 \<Longrightarrow> bs_Get p sz = Some (nil_slice, p)"
  by (simp add: bs_Get_def)

lemma slen_nil_slice [simp]: "slen nil_slice = 0" and sdata_nil_slice [simp]: "sdata nil_slice = []"
  and sspare_nil_slice [simp]: "sspare nil_slice = []"
  by (simp_all add: slen_def nil_slice_def)

text \<open>The contract of \<open>Get\<close> the buffers rely on: it returns, with a slice of the length asked for.\<close>

lemma bs_Get_spec:
  assumes "pool_ok p" and "0 < sz"
  shows "\<exists>s p'. bs_Get p sz = Some (s, p') \<and> length (sdata s) = nat sz \<and> pool_ok p'"
proof (cases "sz > MaxInt32")
  case True
  then show ?thesis using assms by (simp add: bs_Get_def make_slice_def)
next
  case False
  define idx where "idx = bs_index (word_of_int sz)"
  have le: "sz \<le> 2 ^ idx" using bs_index_bounds(1) assms(2) False by (simp add: idx_def)
  then have nle: "nat sz \<le> 2 ^ idx" using assms(2) by (simp add: nat_le_iff)
  show ?thesis
  proof (cases "pool_take p idx")
    case None
    then have "bs_Get p sz =
        Some (\<lparr>sdata = replicate (nat sz) 0, sspare = replicate (2 ^ idx - nat sz) 0\<rparr>, p)"
      using assms(2) False le nle
      by (simp add: bs_Get_def idx_def [symmetric] make_slice_def reslice_def scap_def Let_def
          min_absorb1 nat_power_eq)
    then show ?thesis using assms by simp
  next
    case (Some ap)
    obtain a p' where ap: "ap = (a, p')" by force
    from pool_take_ok [OF assms(1) Some [unfolded ap]]
    have ok: "pool_ok p'" and len: "2 ^ idx \<le> length a" by auto
    have "bs_Get p sz = Some (\<lparr>sdata = take (nat sz) a, sspare = drop (nat sz) (take (2 ^ idx) a)\<rparr>, p')"
      using assms(2) False len Some ap by (simp add: bs_Get_def idx_def [symmetric] Let_def)
    then show ?thesis using order_trans [OF nle len] ok by simp
  qed
qed

lemma bs_Put_ok:
  assumes "pool_ok p"
  shows "pool_ok (bs_Put p s)"
proof (cases "scap s = 0 \<or> scap s > MaxInt32")
  case False
  define a where "a = sdata s @ sspare s"
  have pos: "0 < scap s" "scap s \<le> MaxInt32" "scap s = int (length a)"
    using False by (auto simp: scap_def a_def)
  define idx where "idx = bs_index (word_of_int (scap s))"
  define idx' where "idx' = (if scap s \<noteq> 2 ^ idx then idx - 1 else idx)"
  have "2 ^ idx' \<le> scap s"
    using bs_index_bounds(3) [OF pos(1,2)] pos(1)
    by (cases "scap s = 1") (auto simp: idx'_def idx_def [symmetric], simp add: idx_def)
  then have "int (2 ^ idx') \<le> int (length a)" using pos(3) by simp
  then have "2 ^ idx' \<le> length a" by (simp only: of_nat_le_iff)
  moreover have "bs_Put p s = p\<lparr>pools := (pools p)(idx' := a # pools p idx')\<rparr>"
    using False by (simp add: bs_Put_def Let_def idx_def [symmetric] idx'_def a_def)
  ultimately show ?thesis using assms by (auto simp: pool_ok_def)
qed (use assms in \<open>auto simp: bs_Put_def Let_def\<close>)

section \<open>Runs of the pool\<close>

text \<open>
  Every state the pool can reach: calls of \<open>Get\<close> and \<open>Put\<close> in any order, and the
  collector, which may drop and reorder the arrays a \<open>sync.Pool\<close> holds.
\<close>

inductive pool_reach :: "bsPool \<Rightarrow> bool" where
  init: "pool_reach empty_bsPool"
| get: "pool_reach p \<Longrightarrow> bs_Get p sz = Some (s, p') \<Longrightarrow> pool_reach p'"
| put: "pool_reach p \<Longrightarrow> pool_reach (bs_Put p s)"
| collect: "pool_reach p \<Longrightarrow> (\<And>i. set (pools p' i) \<subseteq> set (pools p i)) \<Longrightarrow> pool_reach p'"

lemma bs_Get_ok: "pool_ok p \<Longrightarrow> bs_Get p sz = Some (s, p') \<Longrightarrow> pool_ok p'"
  using bs_Get_spec [of p sz] by (cases "0 < sz") auto

lemma pool_reach_ok: "pool_reach p \<Longrightarrow> pool_ok p"
proof (induction rule: pool_reach.induct)
  case (collect p p')
  then show ?case unfolding pool_ok_def by blast
qed (auto intro: bs_Get_ok bs_Put_ok)

text \<open>
  C33: memory safety of the slice pool. In every state the pool can reach (any calls of
  \<open>Get\<close> and \<open>Put\<close>, slices of any capacity, the collector at work), \<open>Get\<close> of any
  size returns a slice of exactly that length (empty for a size of at most 0) and never
  builds a header that reaches past the array it recycles.
\<close>

theorem bs_Get_safe_in_every_run:
  assumes "pool_reach p"
  shows "\<exists>s p'. bs_Get p sz = Some (s, p') \<and> slen s = max 0 sz \<and> pool_reach p'"
proof (cases "0 < sz")
  case True
  then obtain s p' where "bs_Get p sz = Some (s, p')" "length (sdata s) = nat sz"
    using bs_Get_spec [OF pool_reach_ok [OF assms]] by blast
  then show ?thesis using True pool_reach.get [OF assms] by (auto simp: slen_def)
qed (use assms in simp)

theorem bs_Get_safe_in_every_run_witness:
  "\<exists>s p'. bs_Get (bs_Put empty_bsPool \<lparr>sdata = replicate 100 7, sspare = []\<rparr>) 64 = Some (s, p') \<and>
     slen s = max 0 64 \<and> pool_reach p'"
  by (rule bs_Get_safe_in_every_run) (rule pool_reach.put [OF pool_reach.init])

text \<open>
  Recycling. A slice whose capacity is the power of two \<open>2 ^ i\<close>, put back, is what the
  next \<open>Get\<close> of a size of the same class returns, with its old bytes, and the pool is then
  as before: nothing is allocated and nothing leaks.
\<close>

theorem bs_Put_Get_recycles:
  assumes "scap s = 2 ^ i" and "i < 31"
    and "0 < sz" and "sz \<le> 2 ^ i" and "i = 0 \<or> 2 ^ (i - 1) < sz"
  shows "bs_Get (bs_Put p s) sz =
    Some (\<lparr>sdata = take (nat sz) (sdata s @ sspare s), sspare = drop (nat sz) (sdata s @ sspare s)\<rparr>, p)"
proof -
  have "(2::int) ^ i \<le> 2 ^ 30" using assms(2) by (intro power_increasing) auto
  then have small: "(2::int) ^ i \<le> MaxInt32" by (simp add: MaxInt32_def)
  have i: "bs_index (word_of_int (2 ^ i)) = i"
    using small by (intro bs_index_eq) (auto simp: power_strict_increasing_iff)
  have sz: "bs_index (word_of_int sz) = i"
    using small assms by (intro bs_index_eq) auto
  have len: "length (sdata s @ sspare s) = 2 ^ i"
    using assms(1) by (metis scap_def length_append of_nat_eq_iff of_nat_numeral of_nat_power)
  have "bs_Put p s = p\<lparr>pools := (pools p)(i := (sdata s @ sspare s) # pools p i)\<rparr>"
    using assms(1) small i by (simp add: bs_Put_def)
  then show ?thesis
    using assms(3,4) small sz len
    by (simp add: bs_Get_def pool_take_def Let_def)
qed

theorem bs_Put_Get_recycles_witness:
  "bs_Get (bs_Put empty_bsPool \<lparr>sdata = [1, 2], sspare = [3, 4]\<rparr>) 3 =
     Some (\<lparr>sdata = take (nat 3) ([1, 2] @ [3, 4]), sspare = drop (nat 3) ([1, 2] @ [3, 4])\<rparr>, empty_bsPool)"
  using bs_Put_Get_recycles [of "\<lparr>sdata = [1, 2], sspare = [3, 4]\<rparr>" 2 3 empty_bsPool]
  by (simp add: scap_def)

end
