(* ===== verification/ByteStream.thy ===== *)
theory ByteStream
  imports Prelude
begin

text \<open>
  The contract of a byte buffer, as the program uses it: \<open>Write\<close> appends, \<open>Read\<close>
  takes from the front. The providers are the ring buffer, the linked-list buffer, the
  elastic ring buffer and the elastic buffer; each interprets the locales on its own
  operations in its own theory. What is proved here once is what a client sees: whatever
  the order and the sizes of the calls, the bytes come out in the order they went in, none
  lost, none duplicated.
\<close>

section \<open>Writers\<close>

text \<open>
  \<open>lim\<close> bounds the number of pending bytes up to which the provider promises to take
  more (the buffers grow by doubling an \<open>int\<close>).
\<close>

locale byte_sink =
  fixes wr :: "'s \<Rightarrow> byte list \<Rightarrow> (int \<times> goerror option \<times> 's) option"
    and contents :: "'s \<Rightarrow> byte list"
    and ok :: "'s \<Rightarrow> bool"
    and lim :: nat
  assumes wr_law: "ok s \<Longrightarrow> length (contents s) + length p \<le> lim \<Longrightarrow>
    \<exists>s'. wr s p = Some (int (length p), None, s') \<and> ok s' \<and> contents s' = contents s @ p"
begin

lemma wr_ok: "ok s \<Longrightarrow> length (contents s) + length p \<le> lim \<Longrightarrow> wr s p = Some (n, e, s') \<Longrightarrow> ok s'"
  using wr_law [of s p] by auto

lemma wr_contents:
  "ok s \<Longrightarrow> length (contents s) + length p \<le> lim \<Longrightarrow> wr s p = Some (n, e, s') \<Longrightarrow>
   n = int (length p) \<and> e = None \<and> contents s' = contents s @ p"
  using wr_law [of s p] by auto

end

section \<open>Readers\<close>

text \<open>
  \<open>rd s p\<close> is \<open>Read(p)\<close>: the count, the error, the caller's slice after the call and
  the new state. The error value is the provider's own (the ring buffer reports an empty
  buffer, the linked list does not).
\<close>

locale byte_source =
  fixes rd :: "'s \<Rightarrow> byte list \<Rightarrow> (int \<times> goerror option \<times> byte list \<times> 's) option"
    and contents :: "'s \<Rightarrow> byte list"
    and ok :: "'s \<Rightarrow> bool"
  assumes rd_law: "ok s \<Longrightarrow>
    \<exists>e s'. rd s p = Some (int (min (length p) (length (contents s))), e,
        take (length p) (contents s) @ drop (length (contents s)) p, s') \<and>
      ok s' \<and> contents s' = drop (length p) (contents s)"
begin

lemma rd_exact:
  assumes "ok s" and "length p \<le> length (contents s)"
  shows "\<exists>e s'. rd s p = Some (int (length p), e, take (length p) (contents s), s') \<and>
    ok s' \<and> contents s' = drop (length p) (contents s)"
  using rd_law [OF assms(1), of p] assms(2) by (simp add: min_absorb1)

end

section \<open>First in, first out\<close>

datatype fifo_op = Wr "byte list" | Rd nat

fun fifo_input :: "fifo_op list \<Rightarrow> byte list" where
  "fifo_input [] = []"
| "fifo_input (Wr p # xs) = p @ fifo_input xs"
| "fifo_input (Rd n # xs) = fifo_input xs"

text \<open>
  A client that writes and reads through the two operations and collects what it read, the
  first \<open>n\<close> bytes of a fresh slice for each call; a reported write error or a call that
  does not return stops it.
\<close>

fun fifo_run ::
  "('s \<Rightarrow> byte list \<Rightarrow> (int \<times> goerror option \<times> 's) option) \<Rightarrow>
   ('s \<Rightarrow> byte list \<Rightarrow> (int \<times> goerror option \<times> byte list \<times> 's) option) \<Rightarrow>
   's \<Rightarrow> fifo_op list \<Rightarrow> (byte list \<times> 's) option" where
  "fifo_run w r s [] = Some ([], s)"
| "fifo_run w r s (Wr p # xs) =
     (case w s p of Some (n, None, s') \<Rightarrow> fifo_run w r s' xs | _ \<Rightarrow> None)"
| "fifo_run w r s (Rd k # xs) =
     (case r s (replicate k 0) of
        Some (n, e, p, s') \<Rightarrow>
          map_option (\<lambda>(out, t). (take (nat n) p @ out, t)) (fifo_run w r s' xs)
      | None \<Rightarrow> None)"

locale byte_fifo = byte_sink wr contents ok lim + byte_source rd contents ok
  for wr :: "'s \<Rightarrow> byte list \<Rightarrow> (int \<times> goerror option \<times> 's) option"
    and rd :: "'s \<Rightarrow> byte list \<Rightarrow> (int \<times> goerror option \<times> byte list \<times> 's) option"
    and contents :: "'s \<Rightarrow> byte list"
    and ok :: "'s \<Rightarrow> bool"
    and lim :: nat
begin

lemma rd_step:
  assumes "ok s"
  obtains e s' where
    "rd s (replicate k 0) = Some (int (min k (length (contents s))), e,
       take k (contents s) @ drop (length (contents s)) (replicate k 0), s')"
    "ok s'" "contents s = take k (contents s) @ contents s'"
    "contents s' = drop k (contents s)"
  using rd_law [OF assms, of "replicate k 0"] by auto

lemma fifo_run_order:
  assumes "ok s" and "length (contents s) + length (fifo_input xs) \<le> lim"
  shows "\<exists>out s'. fifo_run wr rd s xs = Some (out, s') \<and> ok s' \<and>
    contents s @ fifo_input xs = out @ contents s'"
  using assms
proof (induction xs arbitrary: s)
  case (Cons x xs)
  show ?case
  proof (cases x)
    case (Wr p)
    then obtain s1 where w: "wr s p = Some (int (length p), None, s1)" "ok s1"
      "contents s1 = contents s @ p"
      using wr_law [of s p] Cons.prems by auto
    with Cons.IH [of s1] Cons.prems Wr show ?thesis by auto
  next
    case (Rd k)
    then obtain e s1 where r: "rd s (replicate k 0) = Some (int (min k (length (contents s))), e,
        take k (contents s) @ drop (length (contents s)) (replicate k 0), s1)"
      "ok s1" "contents s = take k (contents s) @ contents s1" "contents s1 = drop k (contents s)"
      using rd_step [OF Cons.prems(1), of k] by blast
    have "length (contents s1) \<le> length (contents s)" using r(4) by simp
    then obtain out s' where ih: "fifo_run wr rd s1 xs = Some (out, s')" "ok s'"
      "contents s1 @ fifo_input xs = out @ contents s'"
      using Cons.IH [OF r(2)] Cons.prems(2) Rd by auto
    have "contents s @ fifo_input xs = take k (contents s) @ out @ contents s'"
      using r(3) ih(3) by (metis append.assoc)
    moreover have "take (min k (length (contents s))) (contents s) = take k (contents s)"
      by (simp add: min_def)
    ultimately show ?thesis using Rd r(1) ih by simp
  qed
qed simp

end

end
