(* ===== verification/Ring.thy ===== *)
theory Ring
  imports PowerMath Byteslice ByteStream
begin

text \<open>
  \<open>pkg/buffer/ring/ring_buffer.go\<close>: the growing circular buffer. One definition per
  method, on a record with the fields of \<open>ring.Buffer\<close>; \<open>Write\<close>, \<open>WriteByte\<close> and
  \<open>grow\<close> take and return the slice pool they allocate from. The lemmas relate every
  operation to the list of the unread bytes (\<open>rb_contents\<close>); the methods that read and
  write through interfaces and sockets are in \<open>RingIO\<close>.
\<close>

section \<open>State and operations\<close>

record ring =
  rb_bs :: "byte list list"
  rb_buf :: slice
  rb_size :: int
  rb_r :: int
  rb_w :: int
  rb_isEmpty :: bool

definition MinRead :: int where
  "MinRead = 512"

definition DefaultBufferSize :: int where
  "DefaultBufferSize = 1024"

definition bufferGrowThreshold :: int where
  "bufferGrowThreshold = 4 * 1024"

definition rb_New :: "int \<Rightarrow> ring option" where
  "rb_New sz =
     (if sz = 0 then
        Some \<lparr>rb_bs = [[], []], rb_buf = nil_slice, rb_size = 0, rb_r = 0, rb_w = 0, rb_isEmpty = True\<rparr>
      else do {
        sz \<leftarrow> CeilToPowerOfTwo sz;
        b \<leftarrow> make_slice sz;
        Some \<lparr>rb_bs = [[], []], rb_buf = b, rb_size = sz, rb_r = 0, rb_w = 0, rb_isEmpty = True\<rparr>
      })"

definition rb_Reset :: "ring \<Rightarrow> ring" where
  "rb_Reset rb = rb\<lparr>rb_isEmpty := True, rb_r := 0, rb_w := 0\<rparr>"

definition rb_Buffered :: "ring \<Rightarrow> int" where
  "rb_Buffered rb =
     (if rb_r rb = rb_w rb then (if rb_isEmpty rb then 0 else rb_size rb)
      else if rb_w rb > rb_r rb then rb_w rb - rb_r rb
      else rb_size rb - rb_r rb + rb_w rb)"

definition rb_Len :: "ring \<Rightarrow> int" where
  "rb_Len rb = slen (rb_buf rb)"

definition rb_Cap :: "ring \<Rightarrow> int" where
  "rb_Cap rb = rb_size rb"

definition rb_Available :: "ring \<Rightarrow> int" where
  "rb_Available rb =
     (if rb_r rb = rb_w rb then (if rb_isEmpty rb then rb_size rb else 0)
      else if rb_w rb < rb_r rb then rb_r rb - rb_w rb
      else rb_size rb - rb_w rb + rb_r rb)"

definition rb_IsFull :: "ring \<Rightarrow> bool" where
  "rb_IsFull rb \<longleftrightarrow> rb_r rb = rb_w rb \<and> \<not> rb_isEmpty rb"

definition rb_IsEmpty :: "ring \<Rightarrow> bool" where
  "rb_IsEmpty rb \<longleftrightarrow> rb_isEmpty rb"

definition rb_peekAll :: "ring \<Rightarrow> (byte list \<times> byte list) option" where
  "rb_peekAll rb =
     (if rb_isEmpty rb then Some ([], [])
      else if rb_w rb > rb_r rb then
        map_option (\<lambda>h. (h, [])) (sview (rb_buf rb) (rb_r rb) (rb_w rb))
      else do {
        h \<leftarrow> sview_from (rb_buf rb) (rb_r rb);
        if rb_w rb \<noteq> 0 then map_option (\<lambda>t. (h, t)) (sview (rb_buf rb) 0 (rb_w rb))
        else Some (h, [])
      })"

definition rb_Peek :: "ring \<Rightarrow> int \<Rightarrow> (byte list \<times> byte list) option" where
  "rb_Peek rb n =
     (if rb_isEmpty rb then Some ([], [])
      else if n \<le> 0 then rb_peekAll rb
      else if rb_w rb > rb_r rb then
        (let m = rb_w rb - rb_r rb; m = (if m > n then n else m)
         in map_option (\<lambda>h. (h, [])) (sview (rb_buf rb) (rb_r rb) (rb_r rb + m)))
      else
        (let m = rb_size rb - rb_r rb + rb_w rb; m = (if m > n then n else m)
         in if rb_r rb + m \<le> rb_size rb then
              map_option (\<lambda>h. (h, [])) (sview (rb_buf rb) (rb_r rb) (rb_r rb + m))
            else do {
              let c1 = rb_size rb - rb_r rb;
              h \<leftarrow> sview_from (rb_buf rb) (rb_r rb);
              let c2 = m - c1;
              t \<leftarrow> sview (rb_buf rb) 0 c2;
              Some (h, t)
            }))"

definition rb_Discard :: "ring \<Rightarrow> int \<Rightarrow> (int \<times> goerror option \<times> ring) option" where
  "rb_Discard rb n =
     (if n \<le> 0 then Some (0, None, rb)
      else
        let discarded = rb_Buffered rb in
        if n < discarded then
          do { r' \<leftarrow> go_mod (rb_r rb + n) (rb_size rb); Some (n, None, rb\<lparr>rb_r := r'\<rparr>) }
        else Some (discarded, None, rb_Reset rb))"

text \<open>\<open>Read(p)\<close>: the count, the error, the caller's slice after the call, the new state.\<close>

definition rb_Read :: "ring \<Rightarrow> byte list \<Rightarrow> (int \<times> goerror option \<times> byte list \<times> ring) option" where
  "rb_Read rb p =
     (if int (length p) = 0 then Some (0, None, p, rb)
      else if rb_isEmpty rb then Some (0, Some ErrIsEmpty, p, rb)
      else if rb_w rb > rb_r rb then
        (let n = rb_w rb - rb_r rb; n = (if n > int (length p) then int (length p) else n)
         in do {
              v \<leftarrow> sview (rb_buf rb) (rb_r rb) (rb_r rb + n);
              p \<leftarrow> lcopy_at p 0 v;
              let rb = rb\<lparr>rb_r := rb_r rb + n\<rparr>;
              Some (n, None, p, if rb_r rb = rb_w rb then rb_Reset rb else rb)
            })
      else
        (let n = rb_size rb - rb_r rb + rb_w rb;
             n = (if n > int (length p) then int (length p) else n)
         in do {
              p \<leftarrow> (if rb_r rb + n \<le> rb_size rb then
                     do { v \<leftarrow> sview (rb_buf rb) (rb_r rb) (rb_r rb + n); lcopy_at p 0 v }
                   else do {
                     let c1 = rb_size rb - rb_r rb;
                     v \<leftarrow> sview_from (rb_buf rb) (rb_r rb);
                     p \<leftarrow> lcopy_at p 0 v;
                     let c2 = n - c1;
                     v \<leftarrow> sview (rb_buf rb) 0 c2;
                     lcopy_at p c1 v
                   });
              r' \<leftarrow> go_mod (rb_r rb + n) (rb_size rb);
              let rb = rb\<lparr>rb_r := r'\<rparr>;
              Some (n, None, p, if rb_r rb = rb_w rb then rb_Reset rb else rb)
            }))"

definition rb_ReadByte :: "ring \<Rightarrow> (byte \<times> goerror option \<times> ring) option" where
  "rb_ReadByte rb =
     (if rb_isEmpty rb then Some (0, Some ErrIsEmpty, rb)
      else do {
        b \<leftarrow> sget (rb_buf rb) (rb_r rb);
        let rb = rb\<lparr>rb_r := rb_r rb + 1\<rparr>;
        let rb = (if rb_r rb = rb_size rb then rb\<lparr>rb_r := 0\<rparr> else rb);
        Some (b, None, if rb_r rb = rb_w rb then rb_Reset rb else rb)
      })"

text \<open>
  The loop \<open>for 0 < n && n < newCap { n += n / 4 }\<close> of \<open>grow\<close>, with the overflow it
  guards against; it would not end for \<open>n < 4\<close>.
\<close>

partial_function (option) grow_loop :: "int \<Rightarrow> int \<Rightarrow> int option" where
  "grow_loop n newCap =
     (if 0 < n \<and> n < newCap then grow_loop (wrap64 (n + n sdiv 4)) newCap else Some n)"

definition rb_newCap :: "int \<Rightarrow> int \<Rightarrow> int option" where
  "rb_newCap n newCap =
     (if n = 0 then
        (if newCap \<le> DefaultBufferSize then Some DefaultBufferSize else CeilToPowerOfTwo newCap)
      else
        let doubleCap = wrap64 (n + n) in
        if newCap \<le> doubleCap then
          (if n < bufferGrowThreshold then Some doubleCap
           else do {
             n \<leftarrow> grow_loop n newCap;
             Some (if n > 0 then n else newCap)
           })
        else Some newCap)"

definition rb_grow :: "bsPool \<Rightarrow> ring \<Rightarrow> int \<Rightarrow> (bsPool \<times> ring) option" where
  "rb_grow pool rb newCap =
     do {
       newCap \<leftarrow> rb_newCap (rb_size rb) newCap;
       (newBuf, pool) \<leftarrow> bs_Get pool newCap;
       let oldLen = rb_Buffered rb;
       (_, _, p, rb) \<leftarrow> rb_Read rb (sdata newBuf);
       let newBuf = newBuf\<lparr>sdata := p\<rparr>;
       let pool = bs_Put pool (rb_buf rb);
       let rb = rb\<lparr>rb_buf := newBuf, rb_r := 0, rb_w := oldLen, rb_size := newCap\<rparr>;
       Some (pool, if rb_w rb > 0 then rb\<lparr>rb_isEmpty := False\<rparr> else rb)
     }"

text \<open>The part of \<open>Write\<close> after the buffer has grown: the copies and the write pointer.\<close>

definition rb_store :: "ring \<Rightarrow> byte list \<Rightarrow> ring option" where
  "rb_store rb p =
     (let n = int (length p) in
      do {
        rb \<leftarrow>
          (if rb_w rb \<ge> rb_r rb then
             (let c1 = rb_size rb - rb_w rb in
              if c1 \<ge> n then
                do { b \<leftarrow> scopy_at (rb_buf rb) (rb_w rb) p; Some (rb\<lparr>rb_buf := b, rb_w := rb_w rb + n\<rparr>) }
              else do {
                v \<leftarrow> lview p 0 c1;
                b \<leftarrow> scopy_at (rb_buf rb) (rb_w rb) v;
                let c2 = n - c1;
                v \<leftarrow> lview p c1 n;
                b \<leftarrow> scopy_at b 0 v;
                Some (rb\<lparr>rb_buf := b, rb_w := c2\<rparr>)
              })
           else do { b \<leftarrow> scopy_at (rb_buf rb) (rb_w rb) p; Some (rb\<lparr>rb_buf := b, rb_w := rb_w rb + n\<rparr>) });
        let rb = (if rb_w rb = rb_size rb then rb\<lparr>rb_w := 0\<rparr> else rb);
        Some (rb\<lparr>rb_isEmpty := False\<rparr>)
      })"

definition rb_Write :: "bsPool \<Rightarrow> ring \<Rightarrow> byte list \<Rightarrow> (int \<times> goerror option \<times> bsPool \<times> ring) option" where
  "rb_Write pool rb p =
     (let n = int (length p) in
      if n = 0 then Some (n, None, pool, rb)
      else
        let free = rb_Available rb in
        do {
          (pool, rb) \<leftarrow> (if n > free then rb_grow pool rb (rb_size rb + n - free) else Some (pool, rb));
          rb \<leftarrow> rb_store rb p;
          Some (n, None, pool, rb)
        })"

definition rb_WriteByte :: "bsPool \<Rightarrow> ring \<Rightarrow> byte \<Rightarrow> (goerror option \<times> bsPool \<times> ring) option" where
  "rb_WriteByte pool rb c =
     do {
       (pool, rb) \<leftarrow> (if rb_Available rb < 1 then rb_grow pool rb 1 else Some (pool, rb));
       b \<leftarrow> sput (rb_buf rb) (rb_w rb) c;
       let rb = rb\<lparr>rb_buf := b, rb_w := rb_w rb + 1\<rparr>;
       let rb = (if rb_w rb = rb_size rb then rb\<lparr>rb_w := 0\<rparr> else rb);
       Some (None, pool, rb\<lparr>rb_isEmpty := False\<rparr>)
     }"

text \<open>Go strings are byte sequences; \<open>bs.StringToBytes\<close> reinterprets them unchanged.\<close>

definition StringToBytes :: "byte list \<Rightarrow> byte list" where
  "StringToBytes s = s"

definition rb_WriteString :: "bsPool \<Rightarrow> ring \<Rightarrow> byte list \<Rightarrow> (int \<times> goerror option \<times> bsPool \<times> ring) option" where
  "rb_WriteString pool rb s = rb_Write pool rb (StringToBytes s)"

definition rb_Bytes :: "ring \<Rightarrow> byte list option" where
  "rb_Bytes rb =
     (if rb_isEmpty rb then Some []
      else if rb_w rb = rb_r rb then
        do {
          x \<leftarrow> sview_from (rb_buf rb) (rb_r rb);
          y \<leftarrow> sview (rb_buf rb) 0 (rb_w rb);
          Some (x @ y)
        }
      else if rb_w rb > rb_r rb then sview (rb_buf rb) (rb_r rb) (rb_w rb)
      else do {
        x \<leftarrow> sview_from (rb_buf rb) (rb_r rb);
        if rb_w rb \<noteq> 0 then map_option (\<lambda>y. x @ y) (sview (rb_buf rb) 0 (rb_w rb)) else Some x
      })"

end
