(* ===== verification/RingCorrect.thy ===== *)
theory RingCorrect
  imports Ring
begin

text \<open>
  The ring buffer refines a byte list. \<open>rb_contents\<close> is the list of the unread bytes in
  order, \<open>rb_ok\<close> the invariant of the record. Two shape lemmas name the three stretches
  the read and write pointers cut the array into; every operation is proved once over
  these shapes, and the contracts of \<open>ByteStream\<close> are discharged at the end.
\<close>

section \<open>Abstraction and invariant\<close>

definition rb_contents :: "ring \<Rightarrow> byte list" where
  "rb_contents rb =
     (let d = sdata (rb_buf rb) in
      if rb_isEmpty rb then []
      else if rb_w rb > rb_r rb then take (nat (rb_w rb - rb_r rb)) (drop (nat (rb_r rb)) d)
      else drop (nat (rb_r rb)) d @ take (nat (rb_w rb)) d)"

definition rb_ok :: "ring \<Rightarrow> bool" where
  "rb_ok rb \<longleftrightarrow>
     slen (rb_buf rb) = rb_size rb \<and> rb_size rb \<le> 2 ^ 61 \<and> length (rb_bs rb) = 2 \<and>
     (rb_isEmpty rb \<longrightarrow> rb_r rb = rb_w rb) \<and>
     0 \<le> rb_r rb \<and> 0 \<le> rb_w rb \<and>
     (rb_size rb = 0 \<longrightarrow> rb_isEmpty rb \<and> rb_r rb = 0) \<and>
     (rb_size rb \<noteq> 0 \<longrightarrow> rb_r rb < rb_size rb \<and> rb_w rb < rb_size rb)"

text \<open>
  Straight: the unread bytes \<open>b\<close> lie between the pointers (possibly none). Wrapped: they
  start in \<open>c\<close>, at the read pointer, and go on in \<open>a\<close>, up to the write pointer.
\<close>

definition straight :: "ring \<Rightarrow> byte list \<Rightarrow> byte list \<Rightarrow> byte list \<Rightarrow> bool" where
  "straight rb a b c \<longleftrightarrow>
     sdata (rb_buf rb) = a @ b @ c \<and> rb_r rb = int (length a) \<and> rb_w rb = int (length a + length b) \<and>
     rb_size rb = int (length a + length b + length c) \<and> (rb_isEmpty rb \<longleftrightarrow> b = [])"

definition wrapped :: "ring \<Rightarrow> byte list \<Rightarrow> byte list \<Rightarrow> byte list \<Rightarrow> bool" where
  "wrapped rb a b c \<longleftrightarrow>
     sdata (rb_buf rb) = a @ b @ c \<and> rb_w rb = int (length a) \<and> rb_r rb = int (length a + length b) \<and>
     rb_size rb = int (length a + length b + length c) \<and> c \<noteq> [] \<and> \<not> rb_isEmpty rb"

lemma straight_contents: "straight rb a b c \<Longrightarrow> rb_contents rb = b"
  by (auto simp: straight_def rb_contents_def Let_def)

lemma wrapped_contents: "wrapped rb a b c \<Longrightarrow> rb_contents rb = c @ a"
  by (auto simp: wrapped_def rb_contents_def Let_def nat_add_distrib)

lemma straight_ok:
  "straight rb a b c \<Longrightarrow> length (rb_bs rb) = 2 \<Longrightarrow> rb_size rb \<le> 2 ^ 61 \<Longrightarrow>
   c \<noteq> [] \<or> rb_size rb = 0 \<Longrightarrow> rb_ok rb"
  by (cases c) (auto simp: straight_def rb_ok_def slen_def add_nonneg_eq_0_iff)

lemma wrapped_ok:
  "wrapped rb a b c \<Longrightarrow> length (rb_bs rb) = 2 \<Longrightarrow> rb_size rb \<le> 2 ^ 61 \<Longrightarrow> rb_ok rb"
  by (auto simp: wrapped_def rb_ok_def slen_def neq_Nil_conv)

lemma ring_cases [consumes 1, case_names straight wrapped]:
  assumes "rb_ok rb"
  obtains a b c where "straight rb a b c" "c \<noteq> [] \<or> rb_size rb = 0"
        | a b c where "wrapped rb a b c"
proof (cases "rb_w rb > rb_r rb \<or> rb_isEmpty rb")
  case True
  have le: "nat (rb_r rb) \<le> nat (rb_w rb)" "nat (rb_w rb) \<le> length (sdata (rb_buf rb))"
    using assms True by (auto simp: rb_ok_def slen_def)
  then obtain a b c where s: "sdata (rb_buf rb) = a @ b @ c"
    "length a = nat (rb_r rb)" "length b = nat (rb_w rb) - nat (rb_r rb)"
    using split_three by blast
  have "straight rb a b c" "c \<noteq> [] \<or> rb_size rb = 0"
    using assms True s le by (auto simp: straight_def rb_ok_def slen_def)
  then show ?thesis by (rule that(1))
next
  case False
  then have le: "nat (rb_w rb) \<le> nat (rb_r rb)" "nat (rb_r rb) \<le> length (sdata (rb_buf rb))"
    using assms by (auto simp: rb_ok_def slen_def)
  then obtain a b c where s: "sdata (rb_buf rb) = a @ b @ c"
    "length a = nat (rb_w rb)" "length b = nat (rb_r rb) - nat (rb_w rb)"
    using split_three by blast
  have "wrapped rb a b c"
    using assms False s le by (auto simp: wrapped_def rb_ok_def slen_def)
  then show ?thesis by (rule that(2))
qed

lemmas ring_shape_defs = straight_def wrapped_def slen_def

section \<open>The observers\<close>

named_theorems ring_obs \<open>what the observers return, in terms of the contents\<close>

lemma rb_Buffered_contents [ring_obs]:
  assumes "rb_ok rb"
  shows "rb_Buffered rb = int (length (rb_contents rb))"
  using assms
proof (cases rule: ring_cases)
  case (straight a b c)
  then show ?thesis
    using straight_contents [OF straight(1)] by (auto simp: rb_Buffered_def straight_def)
next
  case (wrapped a b c)
  then show ?thesis
    using wrapped_contents [OF wrapped] by (auto simp: rb_Buffered_def wrapped_def)
qed

lemma rb_Available_contents [ring_obs]:
  assumes "rb_ok rb"
  shows "rb_Available rb = rb_size rb - int (length (rb_contents rb))"
  using rb_Buffered_contents [OF assms] assms
  by (auto simp: rb_Available_def rb_Buffered_def rb_ok_def split: if_splits)

lemma contents_le_size: "rb_ok rb \<Longrightarrow> int (length (rb_contents rb)) \<le> rb_size rb"
  using rb_Buffered_contents [of rb] by (auto simp: rb_Buffered_def rb_ok_def split: if_splits)

lemma rb_IsEmpty_contents [ring_obs]:
  assumes "rb_ok rb"
  shows "rb_isEmpty rb \<longleftrightarrow> rb_contents rb = []"
  using assms
proof (cases rule: ring_cases)
  case (straight a b c)
  then show ?thesis using straight_contents [OF straight(1)] by (simp add: straight_def)
next
  case (wrapped a b c)
  then show ?thesis using wrapped_contents [OF wrapped] by (simp add: wrapped_def)
qed

lemma rb_Reset_ok [simp]: "rb_ok rb \<Longrightarrow> rb_ok (rb_Reset rb)"
  by (auto simp: rb_ok_def rb_Reset_def)

lemma rb_Reset_contents [simp]: "rb_contents (rb_Reset rb) = []"
  by (simp add: rb_contents_def rb_Reset_def Let_def)

lemma rb_Reset_size [simp]: "rb_size (rb_Reset rb) = rb_size rb" "rb_buf (rb_Reset rb) = rb_buf rb"
  by (simp_all add: rb_Reset_def)

lemma rb_Reset_r [simp]: "rb_Reset (rb\<lparr>rb_r := x\<rparr>) = rb_Reset rb"
  by (simp add: rb_Reset_def)

lemma rb_New_ok:
  assumes "sz \<le> 2 ^ 60"
  shows "\<exists>rb. rb_New sz = Some rb \<and> rb_ok rb \<and> rb_contents rb = [] \<and> max 0 sz \<le> rb_size rb"
proof (cases "sz = 0")
  case False
  obtain m where m: "CeilToPowerOfTwo sz = Some m" "sz \<le> m" "2 \<le> m" "m \<le> 2 * sz \<or> m = 2"
    using CeilToPowerOfTwo_bounds [of sz] CeilToPowerOfTwo_small [of sz] assms
    by (cases "sz \<le> 2") auto
  then show ?thesis using False assms
    by (auto simp: rb_New_def make_slice_def rb_ok_def slen_def rb_contents_def)
qed (simp add: rb_New_def rb_ok_def rb_contents_def)

section \<open>Peek, Bytes, Discard and Read\<close>

lemma rb_peekAll_spec:
  assumes "rb_ok rb"
  shows "\<exists>h t. rb_peekAll rb = Some (h, t) \<and> h @ t = rb_contents rb \<and> (h = [] \<longrightarrow> t = [])"
  using assms
proof (cases rule: ring_cases)
  case (straight a b c)
  then show ?thesis using straight_contents [OF straight(1)]
    by (auto simp: rb_peekAll_def slice_simps ring_shape_defs)
next
  case (wrapped a b c)
  then show ?thesis using wrapped_contents [OF wrapped]
    by (auto simp: rb_peekAll_def slice_simps ring_shape_defs nat_add_distrib)
qed

lemma rb_Peek_spec:
  assumes "rb_ok rb" and "0 < n"
  shows "\<exists>h t. rb_Peek rb n = Some (h, t) \<and> h @ t = take (nat n) (rb_contents rb) \<and> (h = [] \<longrightarrow> t = [])"
  using assms(1)
proof (cases rule: ring_cases)
  case (straight a b c)
  then show ?thesis using straight_contents [OF straight(1)] assms(2)
    by (auto simp: rb_Peek_def Let_def slice_simps ring_shape_defs)
next
  case (wrapped a b c)
  then show ?thesis using wrapped_contents [OF wrapped] assms(2)
    by (auto simp: rb_Peek_def Let_def slice_simps ring_shape_defs nat_add_distrib nat_diff_distrib)
qed

lemma rb_Bytes_spec:
  assumes "rb_ok rb"
  shows "rb_Bytes rb = Some (rb_contents rb)"
  using assms
proof (cases rule: ring_cases)
  case (straight a b c)
  then show ?thesis using straight_contents [OF straight(1)]
    by (auto simp: rb_Bytes_def slice_simps ring_shape_defs)
next
  case (wrapped a b c)
  then show ?thesis using wrapped_contents [OF wrapped]
    by (auto simp: rb_Bytes_def slice_simps ring_shape_defs nat_add_distrib)
qed

text \<open>
  Moving the read pointer by \<open>k\<close> unread bytes, wrapping at the size, drops those bytes;
  \<open>Read\<close>, \<open>Discard\<close>, \<open>ReadByte\<close> and \<open>WriteTo\<close> all consume this way.
\<close>

definition rb_advance :: "ring \<Rightarrow> int \<Rightarrow> ring" where
  "rb_advance rb k =
     (let rb = rb\<lparr>rb_r := (if rb_r rb + k < rb_size rb then rb_r rb + k else rb_r rb + k - rb_size rb)\<rparr>
      in if rb_r rb = rb_w rb then rb_Reset rb else rb)"

lemma straight_advance:
  assumes st: "straight rb a b c" and c: "c \<noteq> []" and k: "0 < k" "k \<le> int (length b)"
  shows "(if k = int (length b) then rb_advance rb k = rb_Reset (rb\<lparr>rb_r := rb_w rb\<rparr>)
     else straight (rb_advance rb k) (a @ take (nat k) b) (drop (nat k) b) c)"
proof -
  have "0 < length c" using c by simp
  then show ?thesis
    using st k by (auto simp: rb_advance_def straight_def Let_def nat_less_iff)
qed

lemma wrapped_advance:
  assumes wr: "wrapped rb a b c" and k: "0 < k" "k \<le> int (length a + length c)"
  shows "(if k = int (length a + length c) then rb_contents (rb_advance rb k) = []
     else if k < int (length c) then wrapped (rb_advance rb k) a (b @ take (nat k) c) (drop (nat k) c)
     else straight (rb_advance rb k) (take (nat k - length c) a) (drop (nat k - length c) a) (b @ c))"
  using wr k by (auto simp: rb_advance_def straight_def wrapped_def Let_def)

lemma rb_advance_frame:
  shows "rb_size (rb_advance rb k) = rb_size rb" and "rb_buf (rb_advance rb k) = rb_buf rb"
    and "rb_bs (rb_advance rb k) = rb_bs rb"
  by (simp_all add: rb_advance_def Let_def rb_Reset_def)

lemma rb_advance_ok:
  assumes "rb_ok rb" and "\<not> rb_isEmpty rb" and "0 < k" and "k \<le> rb_size rb"
  shows "rb_ok (rb_advance rb k)"
  using assms by (auto simp: rb_ok_def rb_advance_def Let_def rb_Reset_def)

lemma rb_advance_contents:
  assumes "rb_ok rb" and "\<not> rb_isEmpty rb" and "0 < k" and "k \<le> int (length (rb_contents rb))"
  shows "rb_contents (rb_advance rb k) = drop (nat k) (rb_contents rb)"
  using assms(1)
proof (cases rule: ring_cases)
  case (straight a b c)
  have c: "c \<noteq> []" using straight assms by (auto simp: straight_def rb_ok_def)
  have b: "rb_contents rb = b" using straight(1) by (rule straight_contents)
  note adv = straight_advance [OF straight(1) c assms(3) assms(4) [unfolded b]]
  show ?thesis
  proof (cases "k = int (length b)")
    case False
    then have "straight (rb_advance rb k) (a @ take (nat k) b) (drop (nat k) b) c" using adv by simp
    then show ?thesis using b by (simp add: straight_contents)
  qed (use adv b in simp)
next
  case (wrapped a b c)
  have ca: "rb_contents rb = c @ a" using wrapped by (rule wrapped_contents)
  then have "k \<le> int (length a + length c)" using assms(4) by simp
  note adv = wrapped_advance [OF wrapped assms(3) this]
  consider "k = int (length a + length c)" | "k < int (length c)" "k \<noteq> int (length a + length c)"
    | "int (length c) \<le> k" "k \<noteq> int (length a + length c)" by linarith
  then show ?thesis
  proof cases
    case 2
    then have "wrapped (rb_advance rb k) a (b @ take (nat k) c) (drop (nat k) c)" using adv by simp
    then show ?thesis using ca 2 assms(3) by (simp add: wrapped_contents nat_less_iff)
  next
    case 3
    then have "straight (rb_advance rb k) (take (nat k - length c) a) (drop (nat k - length c) a) (b @ c)"
      using adv by simp
    then show ?thesis using ca 3 by (simp add: straight_contents)
  qed (use adv ca in simp)
qed

text \<open>\<open>Discard\<close>, in every case.\<close>

lemma rb_Discard_spec:
  assumes "rb_ok rb"
  shows "\<exists>rb'. rb_Discard rb n = Some (min (max 0 n) (int (length (rb_contents rb))), None, rb') \<and>
    rb_ok rb' \<and> rb_contents rb' = drop (nat n) (rb_contents rb) \<and> rb_size rb' = rb_size rb"
proof -
  consider "n \<le> 0" | "0 < n" "int (length (rb_contents rb)) \<le> n" | "0 < n" "n < int (length (rb_contents rb))"
    by linarith
  then show ?thesis
  proof cases
    case 3
    have ne: "\<not> rb_isEmpty rb" using 3 rb_IsEmpty_contents [OF assms] by auto
    have sz: "n < rb_size rb" using contents_le_size [OF assms] 3 by linarith
    have "go_mod (rb_r rb + n) (rb_size rb) =
        Some (if rb_r rb + n < rb_size rb then rb_r rb + n else rb_r rb + n - rb_size rb)"
      using assms 3 sz by (auto simp: rb_ok_def slice_simps)
    moreover have "rb_advance rb n =
        rb\<lparr>rb_r := if rb_r rb + n < rb_size rb then rb_r rb + n else rb_r rb + n - rb_size rb\<rparr>"
    proof -
      have "drop (nat n) (rb_contents rb) \<noteq> []" using 3 by (simp add: nat_less_iff)
      then have "rb_contents (rb_advance rb n) \<noteq> []" using rb_advance_contents [OF assms ne] 3 by simp
      then show ?thesis by (auto simp: rb_advance_def Let_def split: if_splits)
    qed
    ultimately have "rb_Discard rb n = Some (n, None, rb_advance rb n)"
      using 3 rb_Buffered_contents [OF assms] by (simp add: rb_Discard_def Let_def)
    then show ?thesis
      using rb_advance_ok [OF assms ne] rb_advance_contents [OF assms ne] rb_advance_frame(1) [of rb n] 3 sz
      by simp
  qed (use assms rb_Buffered_contents [OF assms] in \<open>auto simp: rb_Discard_def Let_def nat_le_iff\<close>)
qed

lemma blit_append: "blit (v @ q) (length v) u = v @ take (length q) u @ drop (length u) q"
  by (simp add: blit_def)

lemma rb_Read_advance:
  assumes "rb_ok rb" and "\<not> rb_isEmpty rb" and "p \<noteq> []"
    and n: "n = int (min (length p) (length (rb_contents rb)))"
  shows "rb_Read rb p = Some (n, None, take (length p) (rb_contents rb) @ drop (length (rb_contents rb)) p,
    rb_advance rb n)"
  using assms(1)
proof (cases rule: ring_cases)
  case (straight a b c)
  have b: "rb_contents rb = b" using straight(1) by (rule straight_contents)
  have "b \<noteq> []" "c \<noteq> []" using straight assms(1,2) by (auto simp: straight_def rb_ok_def)
  then have "0 < length b" "0 < length c" by auto
  then show ?thesis
    using straight(1) assms(2,3) n
    by (auto simp: rb_Read_def rb_advance_def Let_def slice_simps ring_shape_defs b blit_def min_def
        nat_add_distrib)
next
  case (wrapped a b c)
  have ca: "rb_contents rb = c @ a" using wrapped by (rule wrapped_contents)
  have m: "(if rb_size rb - rb_r rb + rb_w rb > int (length p) then int (length p)
      else rb_size rb - rb_r rb + rb_w rb) = n"
    using wrapped n by (auto simp: wrapped_def ca)
  have ne: "(int (length p) = 0) = False" "rb_isEmpty rb = False" "(rb_r rb < rb_w rb) = False"
    using assms(2,3) wrapped by (auto simp: wrapped_def)
  have rd: "rb_Read rb p = do {
      p \<leftarrow> (if rb_r rb + n \<le> rb_size rb then
             do { v \<leftarrow> sview (rb_buf rb) (rb_r rb) (rb_r rb + n); lcopy_at p 0 v }
           else do {
             v \<leftarrow> sview_from (rb_buf rb) (rb_r rb);
             p \<leftarrow> lcopy_at p 0 v;
             v \<leftarrow> sview (rb_buf rb) 0 (n - (rb_size rb - rb_r rb));
             lcopy_at p (rb_size rb - rb_r rb) v
           });
      r' \<leftarrow> go_mod (rb_r rb + n) (rb_size rb);
      Some (n, None, p, if r' = rb_w rb then rb_Reset rb else rb\<lparr>rb_r := r'\<rparr>) }"
    by (simp only: rb_Read_def Let_def m ne if_False) (simp cong: if_cong)
  have g: "go_mod (rb_r rb + n) (rb_size rb) =
      Some (if rb_r rb + n < rb_size rb then rb_r rb + n else rb_r rb + n - rb_size rb)"
    using wrapped assms(1) n by (auto simp: wrapped_def rb_ok_def ca slice_simps)
  show ?thesis
  proof (cases "length p \<le> length c")
    case True
    then show ?thesis unfolding rd g
      using wrapped n by (auto simp: rb_advance_def Let_def slice_simps ring_shape_defs ca blit_def)
  next
    case False
    then show ?thesis unfolding rd g
      using wrapped n
      by (auto simp: rb_advance_def Let_def slice_simps ring_shape_defs ca blit_append min_def add.commute
          nat_diff_distrib nat_add_distrib)
  qed
qed

text \<open>\<open>Read\<close>, in every case: the law of \<open>byte_source\<close>, with the error value.\<close>

lemma rb_Read_spec:
  assumes "rb_ok rb"
  shows "\<exists>rb'. rb_Read rb p = Some (int (min (length p) (length (rb_contents rb))),
      if p \<noteq> [] \<and> rb_contents rb = [] then Some ErrIsEmpty else None,
      take (length p) (rb_contents rb) @ drop (length (rb_contents rb)) p, rb') \<and>
    rb_ok rb' \<and> rb_contents rb' = drop (length p) (rb_contents rb) \<and>
    rb_size rb' = rb_size rb \<and> rb_buf rb' = rb_buf rb \<and> rb_bs rb' = rb_bs rb"
proof (cases "p = [] \<or> rb_isEmpty rb")
  case True
  then show ?thesis using rb_IsEmpty_contents [OF assms] assms by (auto simp: rb_Read_def)
next
  case False
  define n where "n = int (min (length p) (length (rb_contents rb)))"
  have n: "0 < n" "n \<le> int (length (rb_contents rb))" "n \<le> rb_size rb"
    using False rb_IsEmpty_contents [OF assms] contents_le_size [OF assms] by (auto simp: n_def)
  have "drop (nat n) (rb_contents rb) = drop (length p) (rb_contents rb)" by (simp add: n_def min_def)
  then show ?thesis
    using rb_Read_advance [OF assms _ _ n_def] False rb_IsEmpty_contents [OF assms]
      rb_advance_ok [OF assms _ n(1,3)] rb_advance_contents [OF assms _ n(1,2)] rb_advance_frame [of rb n]
    by (simp add: n_def)
qed

lemma rb_ReadByte_spec:
  assumes "rb_ok rb"
  shows "rb_ReadByte rb =
    (case rb_contents rb of [] \<Rightarrow> Some (0, Some ErrIsEmpty, rb)
     | b # _ \<Rightarrow> Some (b, None, rb_advance rb 1))"
  using assms
proof (cases rule: ring_cases)
  case (straight a b c)
  have b: "rb_contents rb = b" using straight(1) by (rule straight_contents)
  show ?thesis
  proof (cases b)
    case (Cons x xs)
    then obtain y ys where "c = y # ys" using straight assms by (cases c) (auto simp: straight_def rb_ok_def)
    then show ?thesis
      using straight(1) Cons by (auto simp: rb_ReadByte_def rb_advance_def Let_def slice_simps ring_shape_defs b)
  qed (use straight(1) b in \<open>simp add: rb_ReadByte_def straight_def\<close>)
next
  case (wrapped a b c)
  have ca: "rb_contents rb = c @ a" using wrapped by (rule wrapped_contents)
  show ?thesis
  proof (cases c)
    case (Cons x xs)
    then show ?thesis
      using wrapped by (auto simp: rb_ReadByte_def rb_advance_def Let_def slice_simps ring_shape_defs ca nth_append)
  qed (use wrapped in \<open>simp add: wrapped_def\<close>)
qed

section \<open>Growing\<close>

text \<open>
  The growth loop ends: from 4 on every round adds at least one, and below \<open>2 ^ 61\<close>
  nothing wraps. It returns the first value that reaches the wanted capacity.
\<close>

lemma grow_loop_spec:
  assumes "4 \<le> n" and "n \<le> 2 ^ 61" and "newCap \<le> 2 ^ 61"
  shows "\<exists>m. grow_loop n newCap = Some m \<and> newCap \<le> m \<and> n \<le> m \<and> (m = n \<or> m < 2 * newCap)"
  using assms(1,2)
proof (induction "nat (newCap - n)" arbitrary: n rule: less_induct)
  case less
  show ?case
  proof (cases "n < newCap")
    case True
    define n' where "n' = n + n div 4"
    have n': "wrap64 (n + n sdiv 4) = n'" "n < n'" "n' < 2 * newCap" "4 \<le> n'"
      using less.prems True assms(3) by (auto simp: n'_def)
    show ?thesis
    proof (cases "n' \<le> 2 ^ 61")
      case le: True
      obtain m where "grow_loop n' newCap = Some m" "newCap \<le> m" "n' \<le> m" "m = n' \<or> m < 2 * newCap"
        using less.hyps [OF _ n'(4) le] n'(2) True by auto
      then show ?thesis using n' True less.prems by (subst grow_loop.simps) auto
    next
      case False
      then have "grow_loop n' newCap = Some n'" using assms(3) by (subst grow_loop.simps) auto
      then show ?thesis using n' True less.prems False assms(3) by (subst grow_loop.simps) auto
    qed
  next
    case False
    then show ?thesis using less.prems by (subst grow_loop.simps) auto
  qed
qed

lemma rb_newCap_spec:
  assumes "0 \<le> n" and "n \<le> 2 ^ 61" and "0 < newCap" and "newCap \<le> 2 ^ 61"
  shows "\<exists>m. rb_newCap n newCap = Some m \<and> newCap \<le> m \<and> n \<le> m \<and> m \<le> max 8192 (max n (2 * newCap))"
proof -
  consider "n = 0" | "0 < n" "newCap \<le> 2 * n" "n < 4096" | "0 < n" "newCap \<le> 2 * n" "4096 \<le> n"
    | "0 < n" "2 * n < newCap" using assms(1) by linarith
  then show ?thesis
  proof cases
    case 1
    then show ?thesis using CeilToPowerOfTwo_bounds [of newCap] assms
      by (auto simp: rb_newCap_def DefaultBufferSize_def)
  next
    case 3
    obtain m where "grow_loop n newCap = Some m" "newCap \<le> m" "n \<le> m" "m = n \<or> m < 2 * newCap"
      using grow_loop_spec [of n newCap] assms 3 by auto
    then show ?thesis using 3 assms by (auto simp: rb_newCap_def bufferGrowThreshold_def Let_def)
  qed (use assms in \<open>auto simp: rb_newCap_def bufferGrowThreshold_def Let_def\<close>)
qed

text \<open>What \<open>grow\<close> leaves behind: the unread bytes at the front of a buffer of the new size.\<close>

lemma rb_grow_spec:
  assumes "rb_ok rb" and "pool_ok pool" and "rb_newCap (rb_size rb) newCap = Some m"
    and "0 < m" and "rb_size rb \<le> m"
  shows "\<exists>pool' rb' c. rb_grow pool rb newCap = Some (pool', rb') \<and> pool_ok pool' \<and>
    straight rb' [] (rb_contents rb) c \<and> rb_size rb' = m \<and> rb_bs rb' = rb_bs rb"
proof -
  obtain s pool1 where s: "bs_Get pool m = Some (s, pool1)" "length (sdata s) = nat m" "pool_ok pool1"
    using bs_Get_spec [OF assms(2,4)] by blast
  have fit: "length (rb_contents rb) \<le> length (sdata s)"
    using contents_le_size [OF assms(1)] assms(5) s(2) by linarith
  obtain rb1 where rd: "rb_Read rb (sdata s) = Some (int (length (rb_contents rb)),
        if sdata s \<noteq> [] \<and> rb_contents rb = [] then Some ErrIsEmpty else None,
        rb_contents rb @ drop (length (rb_contents rb)) (sdata s), rb1)"
      "rb_ok rb1" "rb_contents rb1 = []" "rb_bs rb1 = rb_bs rb"
    using rb_Read_spec [OF assms(1), of "sdata s"] fit by (auto simp: min_absorb2)
  have e: "rb_isEmpty rb1" using rd by (simp add: rb_IsEmpty_contents)
  show ?thesis
    using assms s rd fit e
    by (auto simp: rb_grow_def rb_Buffered_contents straight_def bs_Put_ok Let_def)
qed

section \<open>Writing\<close>

lemma blit_after: "blit (a @ c) (length a) src = a @ take (length c) src @ drop (length src) c"
  by (simp add: blit_def)

lemma blit_after2:
  "k = length a + length b \<Longrightarrow> blit (a @ b @ c) k src = a @ b @ take (length c) src @ drop (length src) c"
  using blit_after [of "a @ b" c src] by simp

lemma blit_three:
  "length b = length src \<Longrightarrow> blit (a @ x # b @ c) (length a) (y # src) = a @ y # src @ c"
  using blit_middle [of "x # b" "y # src" "length a" a c] by simp

lemma rb_store_straight:
  assumes st: "straight rb a b c" and p: "p \<noteq> []" "length p \<le> length a + length c" and c: "c \<noteq> []"
  shows "\<exists>rb'. rb_store rb p = Some rb' \<and> rb_size rb' = rb_size rb \<and> rb_bs rb' = rb_bs rb \<and>
    (if length p < length c then straight rb' a (b @ p) (drop (length p) c)
     else wrapped rb' (drop (length c) p) (drop (length p - length c) a) (b @ take (length c) p))"
proof (cases "length p \<le> length c")
  case True
  show ?thesis using st p c True
    by (auto simp: rb_store_def Let_def slice_simps ring_shape_defs blit_after2 nat_add_distrib)
next
  case False
  have bl: "blit (a @ b @ take (length c) p) 0 (drop (length c) p) =
      drop (length c) p @ drop (length p - length c) a @ b @ take (length c) p"
    using p(2) False by (simp add: blit_def)
  have ne: "b @ take (length c) p \<noteq> []" "0 < length c" using p(1) c by auto
  have nw: "int (length p) \<noteq> int (length c) + rb_size rb" using st p(2) ne(2) unfolding straight_def by linarith
  have "rb_store rb p = Some (rb\<lparr>rb_buf := (rb_buf rb)\<lparr>sdata :=
      drop (length c) p @ drop (length p - length c) a @ b @ take (length c) p\<rparr>,
      rb_w := int (length p) - int (length c), rb_isEmpty := False\<rparr>)"
    using st False ne(1) nw
    by (auto simp: rb_store_def Let_def slice_simps ring_shape_defs blit_after2 nat_add_distrib bl)
  then show ?thesis using st p c False ne
    by (auto simp: ring_shape_defs)
qed

lemma rb_store_wrapped:
  assumes wr: "wrapped rb a b c" and p: "p \<noteq> []" "length p \<le> length b"
  shows "\<exists>rb'. rb_store rb p = Some rb' \<and> rb_size rb' = rb_size rb \<and> rb_bs rb' = rb_bs rb \<and>
    wrapped rb' (a @ p) (drop (length p) b) c"
proof -
  obtain b1 b2 where b: "b = b1 @ b2" "length b1 = length p"
    using p(2) by (metis append_take_drop_id length_take min_absorb2)
  obtain x xs y ys z zs where "b1 = x # xs" "c = y # ys" "p = z # zs"
    using p(1) b(2) wr by (cases b1; cases c; cases p) (auto simp: wrapped_def)
  then show ?thesis using wr b
    by (auto simp: rb_store_def Let_def slice_simps ring_shape_defs blit_three)
qed

lemma rb_store_spec:
  assumes "rb_ok rb" and "p \<noteq> []" and "int (length p) \<le> rb_Available rb"
  shows "\<exists>rb'. rb_store rb p = Some rb' \<and> rb_ok rb' \<and> rb_contents rb' = rb_contents rb @ p \<and>
    rb_size rb' = rb_size rb"
proof -
  have fit: "int (length (rb_contents rb) + length p) \<le> rb_size rb"
    using assms(3) rb_Available_contents [OF assms(1)] by simp
  have frame: "rb_size rb \<le> 2 ^ 61" "length (rb_bs rb) = 2" using assms(1) by (auto simp: rb_ok_def)
  show ?thesis using assms(1)
  proof (cases rule: ring_cases)
    case (straight a b c)
    have b: "rb_contents rb = b" using straight(1) by (rule straight_contents)
    have le: "length p \<le> length a + length c" using straight(1) fit b by (auto simp: straight_def)
    have "rb_size rb \<noteq> 0" using fit assms(2) by (cases p) auto
    then have c: "c \<noteq> []" using straight(2) by simp
    obtain rb' where rb': "rb_store rb p = Some rb'" "rb_size rb' = rb_size rb" "rb_bs rb' = rb_bs rb"
      and sh: "if length p < length c then straight rb' a (b @ p) (drop (length p) c)
        else wrapped rb' (drop (length c) p) (drop (length p - length c) a) (b @ take (length c) p)"
      using rb_store_straight [OF straight(1) assms(2) le c] by blast
    show ?thesis
    proof (cases "length p < length c")
      case True
      then have sh: "straight rb' a (b @ p) (drop (length p) c)" using sh by simp
      then have "rb_ok rb'" using True frame rb' by (intro straight_ok [OF sh]) auto
      then show ?thesis using rb' sh b by (simp add: straight_contents)
    next
      case False
      then have sh: "wrapped rb' (drop (length c) p) (drop (length p - length c) a) (b @ take (length c) p)"
        using sh by simp
      then have "rb_ok rb'" using frame rb' by (intro wrapped_ok [OF sh]) auto
      then show ?thesis using rb' sh b by (simp add: wrapped_contents)
    qed
  next
    case (wrapped a b c)
    have ca: "rb_contents rb = c @ a" using wrapped by (rule wrapped_contents)
    have le: "length p \<le> length b" using wrapped fit ca by (auto simp: wrapped_def)
    obtain rb' where rb': "rb_store rb p = Some rb'" "rb_size rb' = rb_size rb" "rb_bs rb' = rb_bs rb"
      and sh: "wrapped rb' (a @ p) (drop (length p) b) c"
      using rb_store_wrapped [OF wrapped assms(2) le] by blast
    then have "rb_ok rb'" using frame by (intro wrapped_ok [OF sh]) auto
    then show ?thesis using rb' sh ca by (simp add: wrapped_contents)
  qed
qed

text \<open>
  \<open>Write\<close>, in every case: the law of \<open>byte_sink\<close>. The buffer grows exactly when the
  bytes do not fit.
\<close>

definition rb_limit :: nat where
  "rb_limit = 2 ^ 59"

lemma rb_Write_spec:
  assumes "rb_ok rb" and "pool_ok pool" and "length (rb_contents rb) + length p \<le> rb_limit"
  shows "\<exists>pool' rb'. rb_Write pool rb p = Some (int (length p), None, pool', rb') \<and> pool_ok pool' \<and>
    rb_ok rb' \<and> rb_contents rb' = rb_contents rb @ p \<and> rb_size rb \<le> rb_size rb' \<and>
    (int (length p) \<le> rb_Available rb \<longrightarrow> rb_size rb' = rb_size rb)"
proof -
  consider "p = []" | "p \<noteq> []" "int (length p) \<le> rb_Available rb" | "p \<noteq> []" "int (length p) > rb_Available rb"
    by linarith
  then show ?thesis
  proof cases
    case 2
    then show ?thesis using rb_store_spec [OF assms(1) 2] assms by (auto simp: rb_Write_def Let_def)
  next
    case 3
    define cap where "cap = rb_size rb + int (length p) - rb_Available rb"
    have cap: "cap = int (length (rb_contents rb) + length p)"
      using rb_Available_contents [OF assms(1)] by (simp add: cap_def)
    have sz: "0 \<le> rb_size rb" "rb_size rb \<le> 2 ^ 61" using assms(1) by (auto simp: rb_ok_def slen_def)
    have b: "0 < cap" "cap \<le> 2 ^ 59" using cap 3(1) assms(3) by (cases p; auto simp: rb_limit_def)+
    obtain m where m: "rb_newCap (rb_size rb) cap = Some m" "cap \<le> m" "rb_size rb \<le> m"
        "m \<le> max 8192 (max (rb_size rb) (2 * cap))"
      using rb_newCap_spec [of "rb_size rb" cap] sz b by auto
    obtain pool' rb1 c where g: "rb_grow pool rb cap = Some (pool', rb1)" "pool_ok pool'"
        "straight rb1 [] (rb_contents rb) c" "rb_size rb1 = m" "rb_bs rb1 = rb_bs rb"
      using rb_grow_spec [OF assms(1,2) m(1)] m b by auto
    have "m = int (length (rb_contents rb) + length c)" using g(3,4) by (simp add: straight_def)
    then have "length p \<le> length c" using m(2) cap by simp
    then have "c \<noteq> []" using 3(1) by auto
    then have ok1: "rb_ok rb1" using g m b sz assms(1) by (intro straight_ok [OF g(3)]) (auto simp: rb_ok_def)
    have c1: "rb_contents rb1 = rb_contents rb" using g(3) by (rule straight_contents)
    have "int (length p) \<le> rb_Available rb1"
      using rb_Available_contents [OF ok1] c1 g(4) m(2) cap by simp
    then obtain rb' where "rb_store rb1 p = Some rb'" "rb_ok rb'" "rb_contents rb' = rb_contents rb1 @ p"
        "rb_size rb' = rb_size rb1"
      using rb_store_spec [OF ok1 3(1)] by blast
    then show ?thesis using 3 g c1 m(3) by (auto simp: rb_Write_def Let_def cap_def)
  qed (use assms in \<open>auto simp: rb_Write_def\<close>)
qed

end
