(* ===== verification/RingContract.thy ===== *)
theory RingContract
  imports RingCorrect
begin

text \<open>
  What a client of the ring buffer may rely on: \<open>WriteByte\<close>, the refinement of the whole
  interface by a byte list, and the contracts of \<open>ByteStream\<close>, interpreted on the ring
  buffer together with the slice pool it allocates from.
\<close>

section \<open>WriteByte\<close>

lemma rb_WriteByte_store:
  assumes "rb_ok rb" and "1 \<le> rb_Available rb"
  shows "rb_WriteByte pool rb c = map_option (\<lambda>rb'. (None, pool, rb')) (rb_store rb [c])"
proof -
  have w: "0 \<le> rb_w rb" "rb_w rb < slen (rb_buf rb)" "rb_w rb + 1 \<le> rb_size rb"
    using assms contents_le_size [OF assms(1)] rb_Available_contents [OF assms(1)]
    by (auto simp: rb_ok_def)
  have b: "blit (sdata (rb_buf rb)) (nat (rb_w rb)) [c] = (sdata (rb_buf rb))[nat (rb_w rb) := c]"
    using w by (simp add: blit_def upd_conv_take_nth_drop slen_def nat_less_iff)
  show ?thesis using w assms(2)
    by (auto simp: rb_WriteByte_def rb_store_def Let_def slice_simps b)
qed

lemma rb_newCap_one:
  "0 \<le> n \<Longrightarrow> n \<le> 2 ^ 61 \<Longrightarrow>
   rb_newCap n 1 = Some (if n = 0 then DefaultBufferSize else if n < bufferGrowThreshold then 2 * n else n)"
  by (auto simp: rb_newCap_def DefaultBufferSize_def bufferGrowThreshold_def Let_def
      grow_loop.simps [of n 1])

lemma rb_WriteByte_spec:
  assumes "rb_ok rb" and "pool_ok pool" and "1 \<le> rb_Available rb \<or> rb_size rb < bufferGrowThreshold"
  shows "\<exists>pool' rb'. rb_WriteByte pool rb c = Some (None, pool', rb') \<and> pool_ok pool' \<and>
    rb_ok rb' \<and> rb_contents rb' = rb_contents rb @ [c]"
proof (cases "1 \<le> rb_Available rb")
  case True
  then show ?thesis
    using rb_WriteByte_store [OF assms(1) True] rb_store_spec [OF assms(1), of "[c]"] assms(2) by auto
next
  case False
  define m where "m = (if rb_size rb = 0 then DefaultBufferSize else 2 * rb_size rb)"
  have sz: "0 \<le> rb_size rb" "rb_size rb \<le> 2 ^ 61" "rb_size rb < 4096"
    using assms False by (auto simp: rb_ok_def slen_def bufferGrowThreshold_def)
  then have m: "rb_newCap (rb_size rb) 1 = Some m" "0 < m" "rb_size rb < m" "m \<le> 8192"
    by (auto simp: rb_newCap_one m_def DefaultBufferSize_def bufferGrowThreshold_def)
  obtain pool' rb1 k where g: "rb_grow pool rb 1 = Some (pool', rb1)" "pool_ok pool'"
      "straight rb1 [] (rb_contents rb) k" "rb_size rb1 = m" "rb_bs rb1 = rb_bs rb"
    using rb_grow_spec [OF assms(1,2) m(1)] m by auto
  have "int (length (rb_contents rb) + length k) = m" using g(3,4) by (simp add: straight_def)
  then have "k \<noteq> []" using contents_le_size [OF assms(1)] m(3) by auto
  then have ok1: "rb_ok rb1" using g m assms(1) by (intro straight_ok [OF g(3)]) (auto simp: rb_ok_def)
  have c1: "rb_contents rb1 = rb_contents rb" using g(3) by (rule straight_contents)
  have av: "1 \<le> rb_Available rb1"
    using rb_Available_contents [OF ok1] contents_le_size [OF assms(1)] c1 g(4) m(3) by simp
  have "rb_WriteByte pool rb c = rb_WriteByte pool' rb1 c"
    using False av g(1) by (simp add: rb_WriteByte_def)
  then show ?thesis
    using rb_WriteByte_store [OF ok1 av] rb_store_spec [OF ok1, of "[c]"] av c1 g(2) by auto
qed

text \<open>
  \<open>WriteByte\<close> on a full buffer of 4096 bytes or more panics. It asks \<open>grow\<close> for a
  capacity of 1 where \<open>Write\<close> asks for size plus need; from the threshold on \<open>grow\<close>
  then keeps the size, the write pointer equals the size and the store is out of range.
\<close>

theorem rb_WriteByte_full_panics:
  assumes "rb_ok rb" and "pool_ok pool" and "rb_Available rb = 0" and "bufferGrowThreshold \<le> rb_size rb"
  shows "rb_WriteByte pool rb c = None"
proof -
  have sz: "4096 \<le> rb_size rb" "rb_size rb \<le> 2 ^ 61"
    using assms by (auto simp: rb_ok_def bufferGrowThreshold_def)
  then have m: "rb_newCap (rb_size rb) 1 = Some (rb_size rb)"
    by (simp add: rb_newCap_one bufferGrowThreshold_def)
  obtain pool' rb1 k where g: "rb_grow pool rb 1 = Some (pool', rb1)"
      "straight rb1 [] (rb_contents rb) k" "rb_size rb1 = rb_size rb"
    using rb_grow_spec [OF assms(1,2) m] sz by auto
  have "int (length (rb_contents rb)) = rb_size rb"
    using rb_Available_contents [OF assms(1)] assms(3) by simp
  then have "\<not> rb_w rb1 < slen (rb_buf rb1)" using g(2,3) by (simp add: straight_def slen_def)
  then show ?thesis using g(1) assms(3) by (simp add: rb_WriteByte_def sput_def)
qed

theorem rb_WriteByte_full_panics_witness:
  "rb_WriteByte empty_bsPool \<lparr>rb_bs = [[], []], rb_buf = \<lparr>sdata = replicate 4096 0, sspare = []\<rparr>,
     rb_size = 4096, rb_r = 0, rb_w = 0, rb_isEmpty = False\<rparr> 7 = None"
  by (rule rb_WriteByte_full_panics)
    (simp_all add: rb_ok_def slen_def rb_Available_def bufferGrowThreshold_def)

section \<open>The interface as a state machine\<close>

text \<open>One operation of the buffer, and what it reports to its caller.\<close>

datatype ring_op =
    OpWrite "byte list" | OpWriteByte byte | OpRead "byte list" | OpReadByte
  | OpPeek int | OpDiscard int | OpBytes | OpBuffered | OpIsEmpty | OpReset

datatype ring_out =
    OutCount int "goerror option" | OutErr "goerror option" | OutRead int "goerror option" "byte list"
  | OutByte byte "goerror option" | OutViews "byte list" | OutInt int | OutBool bool | OutUnit

fun ring_exec :: "ring_op \<Rightarrow> bsPool \<times> ring \<Rightarrow> (ring_out \<times> bsPool \<times> ring) option" where
  "ring_exec (OpWrite p) (pool, rb) =
     do { (n, e, pool, rb) \<leftarrow> rb_Write pool rb p; Some (OutCount n e, pool, rb) }"
| "ring_exec (OpWriteByte c) (pool, rb) =
     do { (e, pool, rb) \<leftarrow> rb_WriteByte pool rb c; Some (OutErr e, pool, rb) }"
| "ring_exec (OpRead p) (pool, rb) =
     do { (n, e, p, rb) \<leftarrow> rb_Read rb p; Some (OutRead n e p, pool, rb) }"
| "ring_exec OpReadByte (pool, rb) =
     do { (b, e, rb) \<leftarrow> rb_ReadByte rb; Some (OutByte b e, pool, rb) }"
| "ring_exec (OpPeek n) (pool, rb) =
     do { (h, t) \<leftarrow> rb_Peek rb n; Some (OutViews (h @ t), pool, rb) }"
| "ring_exec (OpDiscard n) (pool, rb) =
     do { (k, e, rb) \<leftarrow> rb_Discard rb n; Some (OutCount k e, pool, rb) }"
| "ring_exec OpBytes (pool, rb) = do { b \<leftarrow> rb_Bytes rb; Some (OutViews b, pool, rb) }"
| "ring_exec OpBuffered (pool, rb) = Some (OutInt (rb_Buffered rb), pool, rb)"
| "ring_exec OpIsEmpty (pool, rb) = Some (OutBool (rb_IsEmpty rb), pool, rb)"
| "ring_exec OpReset (pool, rb) = Some (OutUnit, pool, rb_Reset rb)"

text \<open>The specification: a byte list.\<close>

fun queue_exec :: "ring_op \<Rightarrow> byte list \<Rightarrow> ring_out \<times> byte list" where
  "queue_exec (OpWrite p) q = (OutCount (int (length p)) None, q @ p)"
| "queue_exec (OpWriteByte c) q = (OutErr None, q @ [c])"
| "queue_exec (OpRead p) q =
     (OutRead (int (min (length p) (length q))) (if p \<noteq> [] \<and> q = [] then Some ErrIsEmpty else None)
        (take (length p) q @ drop (length q) p), drop (length p) q)"
| "queue_exec OpReadByte q =
     (case q of [] \<Rightarrow> (OutByte 0 (Some ErrIsEmpty), q) | b # bs \<Rightarrow> (OutByte b None, bs))"
| "queue_exec (OpPeek n) q = (OutViews (if n \<le> 0 then q else take (nat n) q), q)"
| "queue_exec (OpDiscard n) q = (OutCount (min (max 0 n) (int (length q))) None, drop (nat n) q)"
| "queue_exec OpBytes q = (OutViews q, q)"
| "queue_exec OpBuffered q = (OutInt (int (length q)), q)"
| "queue_exec OpIsEmpty q = (OutBool (q = []), q)"
| "queue_exec OpReset q = (OutUnit, [])"

definition ring_state_ok :: "bsPool \<times> ring \<Rightarrow> bool" where
  "ring_state_ok s \<longleftrightarrow> pool_ok (fst s) \<and> rb_ok (snd s)"

text \<open>The calls that return: a write below the bound, \<open>WriteByte\<close> with room or below the threshold.\<close>

fun ring_pre :: "ring_op \<Rightarrow> ring \<Rightarrow> bool" where
  "ring_pre (OpWrite p) rb \<longleftrightarrow> length (rb_contents rb) + length p \<le> rb_limit"
| "ring_pre (OpWriteByte c) rb \<longleftrightarrow> 1 \<le> rb_Available rb \<or> rb_size rb < bufferGrowThreshold"
| "ring_pre _ rb \<longleftrightarrow> True"

lemma ring_exec_refines:
  assumes "ring_state_ok (pool, rb)" and "ring_pre x rb"
  shows "\<exists>out pool' rb'. ring_exec x (pool, rb) = Some (out, pool', rb') \<and> ring_state_ok (pool', rb') \<and>
    queue_exec x (rb_contents rb) = (out, rb_contents rb')"
proof -
  have ok: "rb_ok rb" "pool_ok pool" using assms(1) by (auto simp: ring_state_ok_def)
  show ?thesis
  proof (cases x)
    case (OpWrite p)
    then show ?thesis using rb_Write_spec [OF ok, of p] assms(2) by (auto simp: ring_state_ok_def)
  next
    case (OpWriteByte c)
    then show ?thesis using rb_WriteByte_spec [OF ok, of c] assms(2) by (auto simp: ring_state_ok_def)
  next
    case (OpRead p)
    then show ?thesis using rb_Read_spec [OF ok(1), of p] ok by (auto simp: ring_state_ok_def)
  next
    case OpReadByte
    show ?thesis
    proof (cases "rb_contents rb")
      case (Cons b bs)
      have ne: "\<not> rb_isEmpty rb" using Cons rb_IsEmpty_contents [OF ok(1)] by simp
      have "rb_ok (rb_advance rb 1)" "rb_contents (rb_advance rb 1) = bs"
        using rb_advance_ok [OF ok(1) ne, of 1] rb_advance_contents [OF ok(1) ne, of 1]
          contents_le_size [OF ok(1)] Cons by auto
      then show ?thesis using OpReadByte rb_ReadByte_spec [OF ok(1)] ok Cons
        by (auto simp: ring_state_ok_def)
    qed (use OpReadByte rb_ReadByte_spec [OF ok(1)] ok in \<open>auto simp: ring_state_ok_def\<close>)
  next
    case (OpPeek n)
    show ?thesis
    proof (cases "n \<le> 0")
      case True
      have "rb_Peek rb n = rb_peekAll rb" using True by (simp add: rb_Peek_def rb_peekAll_def)
      then show ?thesis using OpPeek True rb_peekAll_spec [OF ok(1)] ok
        by (auto simp: ring_state_ok_def)
    next
      case False
      then show ?thesis using OpPeek rb_Peek_spec [OF ok(1), of n] ok by (auto simp: ring_state_ok_def)
    qed
  next
    case (OpDiscard n)
    then show ?thesis using rb_Discard_spec [OF ok(1), of n] ok by (auto simp: ring_state_ok_def)
  qed (use ok in \<open>auto simp: ring_state_ok_def rb_Bytes_spec ring_obs rb_IsEmpty_def\<close>)
qed

text \<open>A run of operations on a buffer, and of the specification on a byte list.\<close>

fun ring_run :: "ring_op list \<Rightarrow> bsPool \<times> ring \<Rightarrow> (ring_out list \<times> bsPool \<times> ring) option" where
  "ring_run [] s = Some ([], s)"
| "ring_run (x # xs) s =
     (case ring_exec x s of
        None \<Rightarrow> None
      | Some (out, s') \<Rightarrow> map_option (\<lambda>(outs, t). (out # outs, t)) (ring_run xs s'))"

fun queue_run :: "ring_op list \<Rightarrow> byte list \<Rightarrow> ring_out list \<times> byte list" where
  "queue_run [] q = ([], q)"
| "queue_run (x # xs) q =
     (let (out, q') = queue_exec x q; (outs, q'') = queue_run xs q' in (out # outs, q''))"

text \<open>The bytes a run may add; the runs considered add no more than \<open>rb_limit\<close> in total.\<close>

fun ring_demand :: "ring_op list \<Rightarrow> nat" where
  "ring_demand [] = 0"
| "ring_demand (OpWrite p # xs) = length p + ring_demand xs"
| "ring_demand (OpWriteByte c # xs) = Suc (ring_demand xs)"
| "ring_demand (x # xs) = ring_demand xs"

lemma queue_exec_grows: "queue_exec x q = (out, q') \<Longrightarrow> length q' \<le> length q + ring_demand [x]"
  by (cases x) (auto split: list.splits)

lemma ring_demand_Cons: "ring_demand (x # xs) = ring_demand [x] + ring_demand xs"
  by (cases x) auto

text \<open>The one call that panics: \<open>WriteByte\<close> on a full buffer of 4096 bytes or more.\<close>

definition full_for_WriteByte :: "ring \<Rightarrow> bool" where
  "full_for_WriteByte rb \<longleftrightarrow> rb_Available rb = 0 \<and> bufferGrowThreshold \<le> rb_size rb"

lemma ring_exec_total:
  assumes "ring_state_ok s" and "length (rb_contents (snd s)) + ring_demand [x] \<le> rb_limit"
  shows "(\<exists>c. x = OpWriteByte c \<and> full_for_WriteByte (snd s) \<and> ring_exec x s = None) \<or>
    (\<exists>out s'. ring_exec x s = Some (out, s') \<and> ring_state_ok s' \<and> queue_exec x (rb_contents (snd s)) = (out, rb_contents (snd s')))"
proof (cases "ring_pre x (snd s)")
  case True
  then show ?thesis using ring_exec_refines [of "fst s" "snd s" x] assms(1) by (cases s) fastforce
next
  case False
  then obtain c where c: "x = OpWriteByte c" using assms(2) by (cases x) auto
  have ok: "rb_ok (snd s)" "pool_ok (fst s)" using assms(1) by (auto simp: ring_state_ok_def)
  then have f: "full_for_WriteByte (snd s)"
    using False c rb_Available_contents [OF ok(1)] contents_le_size [OF ok(1)] by (auto simp: full_for_WriteByte_def)
  then have "rb_WriteByte (fst s) (snd s) c = None"
    using rb_WriteByte_full_panics [OF ok] by (simp add: full_for_WriteByte_def)
  then show ?thesis using c f by (cases s) simp
qed

text \<open>A run does what the specification does, up to such a call if there is one.\<close>

definition run_agrees :: "ring_op list \<Rightarrow> bsPool \<times> ring \<Rightarrow> (ring_out list \<times> bsPool \<times> ring) option \<Rightarrow> bool" where
  "run_agrees xs s r \<longleftrightarrow> (\<exists>s'. r = Some (fst (queue_run xs (rb_contents (snd s))), s') \<and> ring_state_ok s' \<and>
     snd (queue_run xs (rb_contents (snd s))) = rb_contents (snd s'))"

lemma ring_run_total:
  assumes "ring_state_ok s" and "length (rb_contents (snd s)) + ring_demand xs \<le> rb_limit"
  shows "run_agrees xs s (ring_run xs s) \<or>
    (\<exists>ys c zs outs s'. xs = ys @ OpWriteByte c # zs \<and> run_agrees ys s (ring_run ys s) \<and> ring_run ys s = Some (outs, s') \<and>
      full_for_WriteByte (snd s') \<and> ring_run xs s = None)"
  using assms
proof (induction xs arbitrary: s)
  case Nil
  then show ?case by (simp add: run_agrees_def)
next
  case (Cons x xs)
  have "length (rb_contents (snd s)) + ring_demand [x] \<le> rb_limit" using Cons.prems(2) ring_demand_Cons [of x xs] by simp
  from ring_exec_total [OF Cons.prems(1) this] show ?case
  proof (elim disjE exE conjE)
    fix c assume "x = OpWriteByte c" "full_for_WriteByte (snd s)" "ring_exec x s = None"
    then show ?thesis using Cons.prems(1) by (intro disjI2 exI [of _ "[]"]) (simp add: run_agrees_def)
  next
    fix out s1 assume x: "ring_exec x s = Some (out, s1)" "ring_state_ok s1"
      "queue_exec x (rb_contents (snd s)) = (out, rb_contents (snd s1))"
    have "length (rb_contents (snd s1)) + ring_demand xs \<le> rb_limit"
      using queue_exec_grows [OF x(3)] Cons.prems(2) ring_demand_Cons [of x xs] by simp
    note IH = Cons.IH [OF x(2) this]
    have step: "run_agrees (x # ys) s (ring_run (x # ys) s)" if "run_agrees ys s1 (ring_run ys s1)" for ys
      using that x by (auto simp: run_agrees_def Let_def split_def)
    from IH show ?thesis
    proof (elim disjE exE conjE)
      assume "run_agrees xs s1 (ring_run xs s1)"
      then show ?thesis using step by blast
    next
      fix ys c zs outs s' assume r: "xs = ys @ OpWriteByte c # zs" "run_agrees ys s1 (ring_run ys s1)"
        "ring_run ys s1 = Some (outs, s')" "full_for_WriteByte (snd s')" "ring_run xs s1 = None"
      then show ?thesis using x(1) step [OF r(2)]
        by (intro disjI2 exI [of _ "x # ys"] exI [of _ c] exI [of _ zs] exI [of _ "out # outs"] exI [of _ s']) simp
    qed
  qed
qed

section \<open>The contracts, on the ring buffer with its pool\<close>

definition ring_wr :: "bsPool \<times> ring \<Rightarrow> byte list \<Rightarrow> (int \<times> goerror option \<times> bsPool \<times> ring) option" where
  "ring_wr s p = rb_Write (fst s) (snd s) p"

definition ring_rd ::
  "bsPool \<times> ring \<Rightarrow> byte list \<Rightarrow> (int \<times> goerror option \<times> byte list \<times> bsPool \<times> ring) option" where
  "ring_rd s p = map_option (\<lambda>(n, e, p, rb). (n, e, p, fst s, rb)) (rb_Read (snd s) p)"

definition ring_q :: "bsPool \<times> ring \<Rightarrow> byte list" where
  "ring_q s = rb_contents (snd s)"

interpretation ringq: byte_fifo ring_wr ring_rd ring_q ring_state_ok rb_limit
proof unfold_locales
  fix s :: "bsPool \<times> ring" and p :: "byte list"
  assume ok: "ring_state_ok s"
  then show "length (ring_q s) + length p \<le> rb_limit \<Longrightarrow> \<exists>s'. ring_wr s p = Some (int (length p), None, s') \<and>
      ring_state_ok s' \<and> ring_q s' = ring_q s @ p"
    using rb_Write_spec [of "snd s" "fst s" p] by (auto simp: ring_wr_def ring_q_def ring_state_ok_def)
  show "\<exists>e s'. ring_rd s p = Some (int (min (length p) (length (ring_q s))), e,
      take (length p) (ring_q s) @ drop (length (ring_q s)) p, s') \<and>
      ring_state_ok s' \<and> ring_q s' = drop (length p) (ring_q s)"
    using rb_Read_spec [of "snd s" p] ok by (auto simp: ring_rd_def ring_q_def ring_state_ok_def)
qed

section \<open>Properties\<close>

text \<open>
  C10: the ring buffer implements a byte queue. Started from \<open>New(size)\<close>, every sequence of
  \<open>Write\<close>, \<open>WriteByte\<close>, \<open>Read\<close>, \<open>ReadByte\<close>, \<open>Peek\<close>, \<open>Discard\<close>, \<open>Bytes\<close>, \<open>Buffered\<close>,
  \<open>IsEmpty\<close> and \<open>Reset\<close> that writes no more than \<open>rb_limit\<close> bytes returns (no index is out of
  range, no loop hangs) and reports exactly what a byte list would: across growth and
  wrap-around, with the short counts and the empty-buffer errors. The only exception is a
  sequence that comes, after calls that agree with the byte list, to a \<open>WriteByte\<close> on a full
  buffer of at least 4096 bytes: there it panics.
\<close>

theorem ring_implements_queue:
  assumes "rb_New sz = Some rb" and "sz \<le> 2 ^ 60" and "pool_ok pool" and "ring_demand xs \<le> rb_limit"
  shows "(\<exists>pool' rb'. ring_run xs (pool, rb) = Some (fst (queue_run xs []), pool', rb') \<and> rb_ok rb' \<and>
      rb_Bytes rb' = Some (snd (queue_run xs []))) \<or>
    (\<exists>ys c zs pool' rb'. xs = ys @ OpWriteByte c # zs \<and>
      ring_run ys (pool, rb) = Some (fst (queue_run ys []), pool', rb') \<and> rb_Bytes rb' = Some (snd (queue_run ys [])) \<and>
      rb_Available rb' = 0 \<and> 4096 \<le> rb_size rb' \<and> ring_run xs (pool, rb) = None)"
proof -
  have new: "rb_ok rb" "rb_contents rb = []" using rb_New_ok [OF assms(2)] assms(1) by auto
  have agree: "\<exists>pool' rb'. s' = (pool', rb') \<and> outs = fst (queue_run ys []) \<and> rb_ok rb' \<and> rb_Bytes rb' = Some (snd (queue_run ys []))"
    if "run_agrees ys (pool, rb) (Some (outs, s'))" for ys outs s'
    using that new(2) by (cases s') (auto simp: run_agrees_def ring_state_ok_def rb_Bytes_spec)
  have "run_agrees xs (pool, rb) (ring_run xs (pool, rb)) \<or>
    (\<exists>ys c zs outs s'. xs = ys @ OpWriteByte c # zs \<and> run_agrees ys (pool, rb) (ring_run ys (pool, rb)) \<and>
      ring_run ys (pool, rb) = Some (outs, s') \<and> full_for_WriteByte (snd s') \<and> ring_run xs (pool, rb) = None)"
    using ring_run_total [of "(pool, rb)" xs] new assms(3,4) by (simp add: ring_state_ok_def)
  then show ?thesis
  proof (elim disjE exE conjE)
    assume a: "run_agrees xs (pool, rb) (ring_run xs (pool, rb))"
    then obtain outs s' where "ring_run xs (pool, rb) = Some (outs, s')" by (auto simp: run_agrees_def)
    then show ?thesis using a agree by metis
  next
    fix ys c zs outs s' assume r: "xs = ys @ OpWriteByte c # zs" "run_agrees ys (pool, rb) (ring_run ys (pool, rb))"
      "ring_run ys (pool, rb) = Some (outs, s')" "full_for_WriteByte (snd s')" "ring_run xs (pool, rb) = None"
    then obtain pool' rb' where "s' = (pool', rb')" "outs = fst (queue_run ys [])" "rb_Bytes rb' = Some (snd (queue_run ys []))"
      using agree by metis
    then show ?thesis using r
      by (intro disjI2 exI [of _ ys] exI [of _ c] exI [of _ zs] exI [of _ pool'] exI [of _ rb'])
        (simp add: full_for_WriteByte_def bufferGrowThreshold_def)
  qed
qed

theorem ring_implements_queue_witness:
  "\<exists>pool' rb'. ring_run [OpWrite [1, 2, 3], OpRead [0, 0], OpWrite [4, 5, 6], OpPeek 2] (empty_bsPool,
      \<lparr>rb_bs = [[], []], rb_buf = \<lparr>sdata = [0, 0, 0, 0], sspare = []\<rparr>, rb_size = 4, rb_r = 0, rb_w = 0,
       rb_isEmpty = True\<rparr>) =
    Some (fst (queue_run [OpWrite [1, 2, 3], OpRead [0, 0], OpWrite [4, 5, 6], OpPeek 2] []), pool', rb') \<and>
    rb_ok rb' \<and> rb_Bytes rb' = Some (snd (queue_run [OpWrite [1, 2, 3], OpRead [0, 0], OpWrite [4, 5, 6], OpPeek 2] []))"
proof -
  let ?xs = "[OpWrite [1, 2, 3], OpRead [0, 0], OpWrite [4, 5, 6], OpPeek 2]"
  have "rb_New 4 = Some \<lparr>rb_bs = [[], []], rb_buf = \<lparr>sdata = [0, 0, 0, 0], sspare = []\<rparr>, rb_size = 4,
      rb_r = 0, rb_w = 0, rb_isEmpty = True\<rparr>"
    by code_simp
  moreover have "OpWriteByte c \<notin> set ?xs" for c by simp
  then have "?xs \<noteq> ys @ OpWriteByte c # zs" for ys c zs by (metis in_set_conv_decomp)
  ultimately show ?thesis
    using ring_implements_queue [of 4 _ empty_bsPool ?xs] by (auto simp: rb_limit_def simp del: queue_run.simps ring_run.simps)
qed

text \<open>
  First in, first out. Whatever is written and read through a ring buffer in any valid
  state, the bytes pending before and the bytes written are the bytes read and the bytes still
  pending, in order.
\<close>

theorem ring_first_in_first_out:
  assumes "rb_ok rb" and "pool_ok pool" and "length (rb_contents rb) + length (fifo_input xs) \<le> rb_limit"
  shows "\<exists>out pool' rb'. fifo_run ring_wr ring_rd (pool, rb) xs = Some (out, pool', rb') \<and>
    rb_contents rb @ fifo_input xs = out @ rb_contents rb'"
  using ringq.fifo_run_order [of "(pool, rb)" xs] assms
  by (auto simp: ring_state_ok_def ring_q_def)

theorem ring_first_in_first_out_witness:
  "\<exists>out pool' rb'. fifo_run ring_wr ring_rd (empty_bsPool,
      \<lparr>rb_bs = [[], []], rb_buf = \<lparr>sdata = [3, 9, 1, 2], sspare = []\<rparr>, rb_size = 4, rb_r = 2, rb_w = 1,
       rb_isEmpty = False\<rparr>) [Wr [4, 5], Rd 2, Wr [6]] = Some (out, pool', rb') \<and>
    rb_contents \<lparr>rb_bs = [[], []], rb_buf = \<lparr>sdata = [3, 9, 1, 2], sspare = []\<rparr>, rb_size = 4, rb_r = 2,
       rb_w = 1, rb_isEmpty = False\<rparr> @ fifo_input [Wr [4, 5], Rd 2, Wr [6]] = out @ rb_contents rb'"
  by (rule ring_first_in_first_out) (simp_all add: rb_ok_def slen_def rb_contents_def rb_limit_def)

text \<open>
  \<open>Write\<close> takes every byte, at the end, keeps the invariant, and changes the capacity
  only when the bytes do not fit into the free space.
\<close>

theorem rb_Write_appends:
  assumes "rb_ok rb" and "pool_ok pool" and "length (rb_contents rb) + length p \<le> rb_limit"
  shows "\<exists>pool' rb'. rb_Write pool rb p = Some (int (length p), None, pool', rb') \<and> rb_ok rb' \<and>
    rb_contents rb' = rb_contents rb @ p \<and>
    (rb_Cap rb' = rb_Cap rb \<or> int (length p) > rb_Available rb)"
  using rb_Write_spec [OF assms] by (fastforce simp: rb_Cap_def)

theorem rb_Write_appends_witness:
  "let rb = \<lparr>rb_bs = [[], []], rb_buf = \<lparr>sdata = [3, 9, 1, 2], sspare = []\<rparr>, rb_size = 4, rb_r = 2,
       rb_w = 1, rb_isEmpty = False\<rparr> in
   \<exists>pool' rb'. rb_Write empty_bsPool rb [4, 5] = Some (int (length [4::byte, 5]), None, pool', rb') \<and>
     rb_ok rb' \<and> rb_contents rb' = rb_contents rb @ [4, 5] \<and>
     (rb_Cap rb' = rb_Cap rb \<or> int (length [4::byte, 5]) > rb_Available rb)"
  unfolding Let_def
  by (rule rb_Write_appends) (simp_all add: rb_ok_def slen_def rb_contents_def rb_limit_def)

text \<open>
  The zero-copy read. \<open>Peek(n)\<close> followed by \<open>Discard(n)\<close> hands out the bytes that
  \<open>Read\<close> into a slice of length \<open>n\<close> would copy, reports the same count, and leaves the
  same bytes unread; the two views are one after the other, the first not empty unless both are.
\<close>

theorem rb_Peek_Discard_is_Read:
  assumes "rb_ok rb" and "0 < n" and "n \<le> int (length (rb_contents rb))"
  shows "\<exists>h t rb1 rb2. rb_Peek rb n = Some (h, t) \<and> rb_Discard rb n = Some (n, None, rb1) \<and>
    rb_Read rb (replicate (nat n) 0) = Some (n, None, h @ t, rb2) \<and>
    h \<noteq> [] \<and> rb_ok rb1 \<and> rb_Bytes rb1 = rb_Bytes rb2"
proof -
  have ne: "rb_contents rb \<noteq> []" "replicate (nat n) (0::byte) \<noteq> []" using assms(2,3) by auto
  obtain h t where "rb_Peek rb n = Some (h, t)" "h @ t = take (nat n) (rb_contents rb)" "h = [] \<longrightarrow> t = []"
    using rb_Peek_spec [OF assms(1,2)] by blast
  moreover obtain rb1 where "rb_Discard rb n = Some (n, None, rb1)" "rb_ok rb1"
      "rb_contents rb1 = drop (nat n) (rb_contents rb)"
    using rb_Discard_spec [OF assms(1), of n] assms(2,3) by auto
  moreover obtain rb2 where "rb_Read rb (replicate (nat n) 0) =
      Some (n, None, take (nat n) (rb_contents rb), rb2)" "rb_ok rb2"
      "rb_contents rb2 = drop (nat n) (rb_contents rb)"
    using rb_Read_spec [OF assms(1), of "replicate (nat n) 0"] assms(2,3) ne
    by (auto simp: min_def le_nat_iff nat_le_iff)
  ultimately show ?thesis using ne assms(2) by (auto simp: rb_Bytes_spec)
qed

theorem rb_Peek_Discard_is_Read_witness:
  "let rb = \<lparr>rb_bs = [[], []], rb_buf = \<lparr>sdata = [3, 9, 1, 2], sspare = []\<rparr>, rb_size = 4, rb_r = 2,
       rb_w = 1, rb_isEmpty = False\<rparr> in
   \<exists>h t rb1 rb2. rb_Peek rb 3 = Some (h, t) \<and> rb_Discard rb 3 = Some (3, None, rb1) \<and>
     rb_Read rb (replicate (nat 3) 0) = Some (3, None, h @ t, rb2) \<and>
     h \<noteq> [] \<and> rb_ok rb1 \<and> rb_Bytes rb1 = rb_Bytes rb2"
  unfolding Let_def
  by (rule rb_Peek_Discard_is_Read) (simp_all add: rb_ok_def slen_def rb_contents_def)

text \<open>
  The counters. In every valid state the used and the free bytes add up to the capacity,
  \<open>Buffered\<close> counts the unread bytes, \<open>IsEmpty\<close> and \<open>IsFull\<close> are the two extremes (a
  buffer of capacity 0 is empty and not full), and \<open>Len\<close> is \<open>Cap\<close>.
\<close>

theorem rb_counters:
  assumes "rb_ok rb"
  shows "rb_Buffered rb + rb_Available rb = rb_Cap rb \<and> rb_Bytes rb = Some (rb_contents rb) \<and>
    rb_Buffered rb = int (length (rb_contents rb)) \<and>
    rb_IsEmpty rb = (rb_Buffered rb = 0) \<and> rb_IsFull rb = (rb_Available rb = 0 \<and> rb_Cap rb \<noteq> 0) \<and>
    rb_Len rb = rb_Cap rb"
  using rb_Buffered_contents [OF assms] rb_Available_contents [OF assms] rb_IsEmpty_contents [OF assms]
    rb_Bytes_spec [OF assms] assms
  by (auto simp: rb_Cap_def rb_IsEmpty_def rb_IsFull_def rb_Len_def rb_ok_def rb_Available_def
      split: if_splits)

theorem rb_counters_witness:
  "let rb = \<lparr>rb_bs = [[], []], rb_buf = \<lparr>sdata = [3, 9, 1, 2], sspare = []\<rparr>, rb_size = 4, rb_r = 2,
       rb_w = 1, rb_isEmpty = False\<rparr> in
   rb_Buffered rb + rb_Available rb = rb_Cap rb \<and> rb_Bytes rb = Some (rb_contents rb) \<and>
   rb_Buffered rb = int (length (rb_contents rb)) \<and>
   rb_IsEmpty rb = (rb_Buffered rb = 0) \<and> rb_IsFull rb = (rb_Available rb = 0 \<and> rb_Cap rb \<noteq> 0) \<and>
   rb_Len rb = rb_Cap rb"
  unfolding Let_def by (rule rb_counters) (simp add: rb_ok_def slen_def)

end
