(* ===== verification/RingPool.thy ===== *)
theory RingPool
  imports RingContract "HOL-Library.Multiset"
begin

text \<open>
  \<open>pkg/pool/ringbuffer/ringbuffer.go\<close>: the pool of ring buffers, which counts the sizes it
  gets back and from time to time calibrates the size of new buffers and the largest size worth
  keeping. The model is sequential: the atomic operations are plain ones and the
  compare-and-swap guard of \<open>calibrate\<close> is kept. \<open>sort.Sort\<close> leaves the order of equal
  elements open; the model sorts stably. The percentile is computed on integers, which agrees
  with the 64-bit floating point product below \<open>2 ^ 48\<close> calls.
\<close>

section \<open>Definitions\<close>

record rbPool =
  rp_calls :: "nat list"
  rp_calibrating :: nat
  rp_defaultSize :: nat
  rp_maxSize :: nat
  rp_pool :: "ring list"

definition minBitSize :: nat where
  "minBitSize = 6"

definition rp_steps :: nat where
  "rp_steps = 20"

definition rp_minSize :: nat where
  "rp_minSize = 2 ^ minBitSize"

definition calibrateCallsThreshold :: nat where
  "calibrateCallsThreshold = 42000"

definition empty_rbPool :: rbPool where
  "empty_rbPool = \<lparr>rp_calls = replicate rp_steps 0, rp_calibrating = 0, rp_defaultSize = 0, rp_maxSize = 0,
     rp_pool = []\<rparr>"

record callSize =
  cs_calls :: nat
  cs_size :: nat

text \<open>\<open>n >>= minBitSize\<close> is the arithmetic shift of a signed integer.\<close>

definition rp_index :: "int \<Rightarrow> nat" where
  "rp_index n =
     (let n = drop_bit minBitSize (n - 1);
          idx = (if n > 0 then bits_Len (nat n) else 0)
      in if idx \<ge> rp_steps then rp_steps - 1 else idx)"

definition rp_Get :: "rbPool \<Rightarrow> (ring \<times> rbPool) option" where
  "rp_Get p =
     (case rp_pool p of
        b # bs \<Rightarrow> Some (b, p\<lparr>rp_pool := bs\<rparr>)
      | [] \<Rightarrow> map_option (\<lambda>b. (b, p)) (rb_New (int (rp_defaultSize p))))"

text \<open>\<open>Less\<close> puts the more frequent sizes first.\<close>

definition callSizes_sort :: "callSize list \<Rightarrow> callSize list" where
  "callSizes_sort a = sort_key (\<lambda>c. - int (cs_calls c)) a"

text \<open>The loop that widens \<open>maxSize\<close> until the percentile is covered.\<close>

fun calib_max :: "callSize list \<Rightarrow> nat \<Rightarrow> nat \<Rightarrow> nat \<Rightarrow> nat" where
  "calib_max [] callsSum maxSum maxSize = maxSize"
| "calib_max (c # cs) callsSum maxSum maxSize =
     (if callsSum > maxSum then maxSize
      else calib_max cs (callsSum + cs_calls c) maxSum (if cs_size c > maxSize then cs_size c else maxSize))"

definition rp_calibrate :: "rbPool \<Rightarrow> rbPool" where
  "rp_calibrate p =
     (if rp_calibrating p \<noteq> 0 then p
      else
        let p = p\<lparr>rp_calibrating := 1\<rparr>;
            a = map (\<lambda>i. \<lparr>cs_calls = rp_calls p ! i, cs_size = rp_minSize * 2 ^ i\<rparr>) [0..<rp_steps];
            callsSum = sum_list (map cs_calls a);
            p = p\<lparr>rp_calls := replicate rp_steps 0\<rparr>;
            a = callSizes_sort a;
            defaultSize = cs_size (hd a);
            maxSum = callsSum * 95 div 100;
            maxSize = calib_max a 0 maxSum defaultSize
        in p\<lparr>rp_defaultSize := defaultSize, rp_maxSize := maxSize, rp_calibrating := 0\<rparr>)"

definition rp_Put :: "rbPool \<Rightarrow> ring \<Rightarrow> rbPool" where
  "rp_Put p b =
     (let idx = rp_index (rb_Len b);
          p = p\<lparr>rp_calls := (rp_calls p)[idx := rp_calls p ! idx + 1]\<rparr>;
          p = (if rp_calls p ! idx > calibrateCallsThreshold then rp_calibrate p else p);
          maxSize = int (rp_maxSize p)
      in if maxSize = 0 \<or> rb_Cap b \<le> maxSize then p\<lparr>rp_pool := rb_Reset b # rp_pool p\<rparr> else p)"

section \<open>Calibration\<close>

definition calib_input :: "nat list \<Rightarrow> callSize list" where
  "calib_input cs = map (\<lambda>i. \<lparr>cs_calls = cs ! i, cs_size = rp_minSize * 2 ^ i\<rparr>) [0..<rp_steps]"

lemma calib_max_ge: "m \<le> calib_max cs s mx m"
proof (induction cs s mx m rule: calib_max.induct)
  case (2 c cs callsSum maxSum maxSize)
  then show ?case by (cases "callsSum > maxSum") (auto split: if_splits intro: order_trans less_imp_le)
qed simp

lemma calib_max_le: "m \<le> k \<Longrightarrow> (\<And>c. c \<in> set cs \<Longrightarrow> cs_size c \<le> k) \<Longrightarrow> calib_max cs s mx m \<le> k"
  by (induction cs s mx m rule: calib_max.induct) auto

text \<open>What is accounted for when the loop stops: either more than the percentile, or everything.\<close>

definition fitting :: "nat \<Rightarrow> callSize list \<Rightarrow> nat" where
  "fitting k cs = sum_list (map cs_calls (filter (\<lambda>c. cs_size c \<le> k) cs))"

lemma calib_max_covers:
  "mx < s + fitting (calib_max cs s mx m) cs \<or>
   s + fitting (calib_max cs s mx m) cs = s + sum_list (map cs_calls cs)"
proof (induction cs s mx m rule: calib_max.induct)
  case (2 c cs callsSum maxSum maxSize)
  show ?case
  proof (cases "callsSum > maxSum")
    case False
    let ?m = "if cs_size c > maxSize then cs_size c else maxSize"
    have "cs_size c \<le> calib_max cs (callsSum + cs_calls c) maxSum ?m"
      using calib_max_ge [of ?m cs "callsSum + cs_calls c" maxSum] by (auto split: if_splits)
    with 2 False show ?thesis by (auto simp: fitting_def split: if_splits)
  qed simp
qed (simp add: fitting_def)

lemma sum_list_perm: "mset xs = mset ys \<Longrightarrow> sum_list (map f xs) = sum_list (map f (ys :: 'a list)) "
  for f :: "'a \<Rightarrow> nat"
  by (metis mset_map sum_mset_sum_list)

lemma callSizes_sort_perm: "mset (callSizes_sort a) = mset a"
  by (simp add: callSizes_sort_def)

lemma fitting_sort: "fitting k (callSizes_sort a) = fitting k a"
  unfolding fitting_def
  by (intro sum_list_perm) (simp add: callSizes_sort_perm mset_filter)

lemma length_calib_input [simp]: "length (calib_input cs) = rp_steps"
  by (simp add: calib_input_def)

lemma calib_input_ne: "calib_input cs \<noteq> []"
  by (metis length_calib_input list.size(3) rp_steps_def zero_neq_numeral)

lemma calib_hd:
  assumes "a \<noteq> []"
  shows "hd (callSizes_sort a) \<in> set a" and "c \<in> set a \<Longrightarrow> cs_calls c \<le> cs_calls (hd (callSizes_sort a))"
proof -
  have s: "set (callSizes_sort a) = set a" by (simp add: callSizes_sort_def)
  obtain x xs where x: "callSizes_sort a = x # xs"
    using assms callSizes_sort_perm [of a] by (cases "callSizes_sort a") auto
  then show "hd (callSizes_sort a) \<in> set a" using s by auto
  assume "c \<in> set a"
  then have "c = x \<or> c \<in> set xs" using s x by auto
  moreover have "sorted (map (\<lambda>c. - int (cs_calls c)) (callSizes_sort a))"
    by (simp add: callSizes_sort_def)
  ultimately show "cs_calls c \<le> cs_calls (hd (callSizes_sort a))" using x by auto
qed

lemma rp_calibrate_fields:
  assumes "rp_calibrating p = 0"
  shows "rp_defaultSize (rp_calibrate p) = cs_size (hd (callSizes_sort (calib_input (rp_calls p))))"
    and "rp_maxSize (rp_calibrate p) = calib_max (callSizes_sort (calib_input (rp_calls p))) 0
      (sum_list (map cs_calls (calib_input (rp_calls p))) * 95 div 100)
      (rp_defaultSize (rp_calibrate p))"
    and "rp_calls (rp_calibrate p) = replicate rp_steps 0" and "rp_pool (rp_calibrate p) = rp_pool p"
    and "rp_calibrating (rp_calibrate p) = 0"
  using assms by (simp_all add: rp_calibrate_def Let_def calib_input_def)

text \<open>
  Calibration. The new default size is a size no other was returned more often than; the
  sizes that will be kept include it, and the buffers returned since the last calibration whose
  size will be kept are at least 95 percent of all.
\<close>

theorem rp_calibrate_covers:
  assumes "rp_calibrating p = 0"
  shows "(\<exists>i < rp_steps. rp_defaultSize (rp_calibrate p) = rp_minSize * 2 ^ i \<and>
      (\<forall>j < rp_steps. rp_calls p ! j \<le> rp_calls p ! i)) \<and>
    rp_defaultSize (rp_calibrate p) \<le> rp_maxSize (rp_calibrate p) \<and>
    95 * (\<Sum>i<rp_steps. rp_calls p ! i) \<le>
      100 * (\<Sum>i | i < rp_steps \<and> rp_minSize * 2 ^ i \<le> rp_maxSize (rp_calibrate p). rp_calls p ! i)"
proof -
  define a where "a = calib_input (rp_calls p)"
  define tot where "tot = sum_list (map cs_calls a)"
  note f = rp_calibrate_fields [OF assms, folded a_def, folded tot_def]
  have ne: "a \<noteq> []" using calib_input_ne by (simp add: a_def)
  have mem: "c \<in> set a \<longleftrightarrow> (\<exists>i < rp_steps. c = \<lparr>cs_calls = rp_calls p ! i, cs_size = rp_minSize * 2 ^ i\<rparr>)" for c
    by (auto simp: a_def calib_input_def)
  obtain i where i: "i < rp_steps" "hd (callSizes_sort a) = \<lparr>cs_calls = rp_calls p ! i, cs_size = rp_minSize * 2 ^ i\<rparr>"
    using calib_hd(1) [OF ne] mem by blast
  have most: "rp_calls p ! j \<le> rp_calls p ! i" if "j < rp_steps" for j
  proof -
    have "\<lparr>cs_calls = rp_calls p ! j, cs_size = rp_minSize * 2 ^ j\<rparr> \<in> set a" using that mem by blast
    from calib_hd(2) [OF ne this] show ?thesis using i(2) by simp
  qed
  define k where "k = rp_maxSize (rp_calibrate p)"
  have "tot * 95 div 100 < fitting k a \<or> fitting k a = tot"
    using calib_max_covers [of "tot * 95 div 100" 0 "callSizes_sort a" "rp_defaultSize (rp_calibrate p)"]
      sum_list_perm [OF callSizes_sort_perm, of cs_calls a]
    unfolding k_def f(2) by (simp add: fitting_sort tot_def)
  then have cover: "95 * tot \<le> 100 * fitting k a" by auto
  have t: "tot = (\<Sum>i<rp_steps. rp_calls p ! i)"
    by (simp add: tot_def a_def calib_input_def comp_def interv_sum_list_conv_sum_set_nat lessThan_atLeast0)
  have "fitting k a = sum_list (map ((!) (rp_calls p)) (filter (\<lambda>i. rp_minSize * 2 ^ i \<le> k) [0..<rp_steps]))"
    by (simp add: fitting_def a_def calib_input_def filter_map comp_def)
  also have "\<dots> = (\<Sum>i | i < rp_steps \<and> rp_minSize * 2 ^ i \<le> k. rp_calls p ! i)"
    by (subst sum_list_distinct_conv_sum_set) (auto intro: arg_cong2 [where f = sum])
  finally show ?thesis
    using i most cover t f(1) calib_max_ge [of "rp_defaultSize (rp_calibrate p)"]
    unfolding k_def f(2) by (auto simp: k_def [symmetric])
qed

theorem rp_calibrate_covers_witness:
  "let p = empty_rbPool\<lparr>rp_calls := (replicate rp_steps 0)[4 := 30000, 9 := 12001]\<rparr> in
   (\<exists>i < rp_steps. rp_defaultSize (rp_calibrate p) = rp_minSize * 2 ^ i \<and>
      (\<forall>j < rp_steps. rp_calls p ! j \<le> rp_calls p ! i)) \<and>
    rp_defaultSize (rp_calibrate p) \<le> rp_maxSize (rp_calibrate p) \<and>
    95 * (\<Sum>i<rp_steps. rp_calls p ! i) \<le>
      100 * (\<Sum>i | i < rp_steps \<and> rp_minSize * 2 ^ i \<le> rp_maxSize (rp_calibrate p). rp_calls p ! i)"
  unfolding Let_def by (rule rp_calibrate_covers) (simp add: empty_rbPool_def)

section \<open>Invariant\<close>

definition rp_ok :: "rbPool \<Rightarrow> bool" where
  "rp_ok p \<longleftrightarrow> length (rp_calls p) = rp_steps \<and> rp_defaultSize p \<le> 2 ^ 25 \<and>
     (\<forall>b \<in> set (rp_pool p). rb_ok b \<and> rb_contents b = [])"

lemma rp_ok_empty [simp]: "rp_ok empty_rbPool"
  by (simp add: rp_ok_def empty_rbPool_def)

lemma rp_index_less: "rp_index n < rp_steps"
  by (simp add: rp_index_def Let_def rp_steps_def)

lemma rp_calibrate_ok:
  assumes "rp_ok p"
  shows "rp_ok (rp_calibrate p)"
proof (cases "rp_calibrating p = 0")
  case True
  from calib_hd(1) [OF calib_input_ne, of "rp_calls p"] obtain i where i: "i < 20"
      "rp_defaultSize (rp_calibrate p) = 2 ^ 6 * 2 ^ i"
    unfolding rp_calibrate_fields(1) [OF True]
    by (auto simp: calib_input_def rp_steps_def rp_minSize_def minBitSize_def)
  have "(2::nat) ^ i \<le> 2 ^ 19" using i(1) by (intro power_increasing) auto
  then have "rp_defaultSize (rp_calibrate p) \<le> 2 ^ 25" unfolding i(2) by simp
  then show ?thesis using assms rp_calibrate_fields [OF True] by (simp add: rp_ok_def)
qed (use assms in \<open>simp add: rp_calibrate_def\<close>)

lemma rp_Put_ok:
  assumes "rp_ok p" and "rb_ok b"
  shows "rp_ok (rp_Put p b)"
proof -
  define p1 where "p1 = p\<lparr>rp_calls := (rp_calls p)[rp_index (rb_Len b) := rp_calls p ! rp_index (rb_Len b) + 1]\<rparr>"
  define p2 where "p2 = (if rp_calls p1 ! rp_index (rb_Len b) > calibrateCallsThreshold then rp_calibrate p1 else p1)"
  have "rp_ok p1" using assms(1) by (simp add: p1_def rp_ok_def)
  then have "rp_ok p2" using rp_calibrate_ok by (simp add: p2_def)
  then have "rp_ok (p2\<lparr>rp_pool := rb_Reset b # rp_pool p2\<rparr>)" using assms(2) by (simp add: rp_ok_def)
  moreover have "rp_Put p b = (if int (rp_maxSize p2) = 0 \<or> rb_Cap b \<le> int (rp_maxSize p2)
      then p2\<lparr>rp_pool := rb_Reset b # rp_pool p2\<rparr> else p2)"
    unfolding rp_Put_def Let_def p2_def p1_def by simp
  ultimately show ?thesis using \<open>rp_ok p2\<close> by simp
qed

lemma rp_Get_spec:
  assumes "rp_ok p"
  shows "\<exists>b p'. rp_Get p = Some (b, p') \<and> rb_ok b \<and> rb_contents b = [] \<and> rp_ok p'"
proof (cases "rp_pool p")
  case Nil
  have "int (rp_defaultSize p) \<le> 2 ^ 60" using assms by (auto simp: rp_ok_def)
  from rb_New_ok [OF this] Nil show ?thesis using assms by (auto simp: rp_Get_def)
qed (use assms in \<open>auto simp: rp_Get_def rp_ok_def\<close>)

text \<open>
  Every state the pool can reach: \<open>Get\<close>, \<open>Put\<close> of any valid buffer, and the collector.
\<close>

inductive rp_reach :: "rbPool \<Rightarrow> bool" where
  init: "rp_reach empty_rbPool"
| get: "rp_reach p \<Longrightarrow> rp_Get p = Some (b, p') \<Longrightarrow> rp_reach p'"
| put: "rp_reach p \<Longrightarrow> rb_ok b \<Longrightarrow> rp_reach (rp_Put p b)"
| collect: "rp_reach p \<Longrightarrow> set bs \<subseteq> set (rp_pool p) \<Longrightarrow> rp_reach (p\<lparr>rp_pool := bs\<rparr>)"

lemma rp_reach_ok: "rp_reach p \<Longrightarrow> rp_ok p"
proof (induction rule: rp_reach.induct)
  case (get p b p')
  then show ?case using rp_Get_spec [of p] by auto
next
  case (collect p bs)
  then show ?case by (auto simp: rp_ok_def)
qed (auto intro: rp_Put_ok)

text \<open>
  C34: \<open>Get\<close> never fails and never hands out a used buffer: in every state the pool can reach,
  whatever was put back and however the sizes were calibrated, it returns a valid, empty ring
  buffer.
\<close>

theorem rp_Get_fresh_in_every_run:
  assumes "rp_reach p"
  shows "\<exists>b p'. rp_Get p = Some (b, p') \<and> rb_ok b \<and> rb_IsEmpty b \<and> rb_Buffered b = 0 \<and> rp_reach p'"
proof -
  obtain b p' where b: "rp_Get p = Some (b, p')" "rb_ok b" "rb_contents b = []"
    using rp_Get_spec [OF rp_reach_ok [OF assms]] by blast
  then show ?thesis
    using rp_reach.get [OF assms b(1)] rb_IsEmpty_contents [OF b(2)] rb_Buffered_contents [OF b(2)]
    by (simp add: rb_IsEmpty_def)
qed

theorem rp_Get_fresh_in_every_run_witness:
  "\<exists>b p'. rp_Get (rp_Put empty_rbPool \<lparr>rb_bs = [[], []], rb_buf = \<lparr>sdata = [1, 2], sspare = []\<rparr>, rb_size = 2,
      rb_r = 0, rb_w = 1, rb_isEmpty = False\<rparr>) = Some (b, p') \<and>
    rb_ok b \<and> rb_IsEmpty b \<and> rb_Buffered b = 0 \<and> rp_reach p'"
  by (rule rp_Get_fresh_in_every_run, rule rp_reach.put [OF rp_reach.init]) (simp add: rb_ok_def slen_def)

end
