(* ===== verification/ScriptIO.thy ===== *)
theory ScriptIO
  imports Prelude
begin

text \<open>
  The other side of an \<open>io.Reader\<close>, an \<open>io.Writer\<close> and a socket. The program only calls
  them; its definitions take them as functions. The theorems quantify over scripts: a script
  lists what the peer does on its successive calls, so that a statement for every script is a
  statement for every peer that keeps the documented contract of the interface (counts within
  the length of the slice, arbitrary chunking, an error at any point).
\<close>

type_synonym 's reader = "'s \<Rightarrow> byte list \<Rightarrow> (int \<times> goerror option \<times> byte list \<times> 's) option"
type_synonym 's writer = "'s \<Rightarrow> byte list \<Rightarrow> (int \<times> goerror option \<times> 's) option"

section \<open>Readers\<close>

text \<open>
  An entry is what the reader has to offer next, with the error that comes along with its last
  byte. A slice shorter than the entry takes a part of it. Past the script there is only EOF.
\<close>

type_synonym rscript = "(byte list \<times> goerror option) list"

fun script_read :: "rscript reader" where
  "script_read [] p = Some (0, Some EOF, p, [])"
| "script_read ((d, e) # xs) p =
     (if length d \<le> length p then Some (int (length d), e, d @ drop (length d) p, xs)
      else Some (int (length p), None, take (length p) d, (drop (length p) d, e) # xs))"

text \<open>Everything a reader delivers up to its first error, and that error.\<close>

fun script_data :: "rscript \<Rightarrow> byte list" where
  "script_data [] = []"
| "script_data ((d, e) # xs) = d @ (if e = None then script_data xs else [])"

fun script_err :: "rscript \<Rightarrow> goerror" where
  "script_err [] = EOF"
| "script_err ((d, e) # xs) = (case e of None \<Rightarrow> script_err xs | Some e \<Rightarrow> e)"

text \<open>\<open>ReadFrom\<close> reports EOF as no error.\<close>

definition eof_is_nil :: "goerror \<Rightarrow> goerror option" where
  "eof_is_nil e = (if e = EOF then None else Some e)"

text \<open>A reader that reports an error only in a call of its own, without data.\<close>

definition script_clean :: "rscript \<Rightarrow> bool" where
  "script_clean s \<longleftrightarrow> (\<forall>(d, e) \<in> set s. e \<noteq> None \<longrightarrow> d = [])"

text \<open>The number of calls left, as a measure: every call with room uses up a byte or an entry.\<close>

fun script_size :: "rscript \<Rightarrow> nat" where
  "script_size [] = 0"
| "script_size ((d, e) # xs) = Suc (length d + script_size xs)"

lemma script_read_spec:
  "\<exists>d e s'. script_read s p = Some (int (length d), e, d @ drop (length d) p, s') \<and> length d \<le> length p \<and>
    (case e of None \<Rightarrow> script_data s = d @ script_data s' \<and> script_err s' = script_err s
     | Some x \<Rightarrow> script_data s = d \<and> script_err s = x) \<and>
    (e = None \<and> p \<noteq> [] \<longrightarrow> script_size s' < script_size s) \<and> (e = None \<longrightarrow> script_size s' \<le> script_size s)"
proof (cases s)
  case (Cons x xs)
  obtain d e where x: "x = (d, e)" by (cases x)
  show ?thesis
  proof (cases "length d \<le> length p")
    case True
    then show ?thesis using Cons x by (intro exI [of _ d]) (cases e; auto)
  next
    case False
    have "d = take (length p) d @ drop (length p) d" by simp
    then show ?thesis using Cons x False
      by (intro exI [of _ "take (length p) d"]) (cases p; cases e; auto simp: min_absorb2 less_imp_le)
  qed
qed auto


lemma script_read_clean:
  "script_clean s \<Longrightarrow> script_read s p = Some (m, e, p', s') \<Longrightarrow> script_clean s' \<and> (e \<noteq> None \<longrightarrow> m = 0)"
  by (induction s p rule: script_read.induct) (fastforce simp: script_clean_def split: if_splits)+

section \<open>Writers\<close>

text \<open>
  An entry is how many bytes the writer is willing to take and the error it reports then; the
  state collects the bytes taken. Past the script the writer takes everything.
\<close>

type_synonym wscript = "(nat \<times> goerror option) list \<times> byte list"

fun script_write :: "wscript writer" where
  "script_write ([], out) p = Some (int (length p), None, [], out @ p)"
| "script_write ((k, e) # xs, out) p = Some (int (min k (length p)), e, xs, out @ take k p)"

lemma script_write_spec:
  "\<exists>m e s'. script_write s p = Some (int m, e, s') \<and> m \<le> length p \<and> snd s' = snd s @ take m p"
proof (cases s)
  case (Pair xs out)
  show ?thesis
  proof (cases xs)
    case (Cons x ys)
    then show ?thesis using Pair by (cases x) (auto simp: min_def)
  qed (use Pair in auto)
qed

section \<open>Sockets\<close>

text \<open>
  A receiving socket: what successive system calls find, a non-empty chunk of data or an
  error, then end of file. \<open>unix.Read\<close> reports an error with the count \<open>-1\<close>;
  \<open>unix.Readv\<close> fills the slices in order.
\<close>

type_synonym sock = "(byte list + goerror) list"

fun sock_read :: "sock reader" where
  "sock_read [] p = Some (0, None, p, [])"
| "sock_read (Inr e # xs) p = Some (-1, Some e, p, xs)"
| "sock_read (Inl d # xs) p =
     (if length d \<le> length p then Some (int (length d), None, d @ drop (length d) p, xs)
      else Some (int (length p), None, take (length p) d, Inl (drop (length p) d) # xs))"

text \<open>Cutting a byte string into pieces of the lengths of the given slices.\<close>

fun cut_like :: "byte list list \<Rightarrow> byte list \<Rightarrow> byte list list" where
  "cut_like [] d = []"
| "cut_like (v # vs) d = take (length v) d # cut_like vs (drop (length v) d)"

definition sock_readv ::
  "sock \<Rightarrow> byte list list \<Rightarrow> (int \<times> goerror option \<times> byte list list \<times> sock) option" where
  "sock_readv s iov =
     map_option (\<lambda>(n, e, p, s'). (n, e, cut_like iov p, s')) (sock_read s (concat iov))"

text \<open>What one system call with room for \<open>k\<close> bytes gets from the socket.\<close>

fun sock_gets :: "sock \<Rightarrow> nat \<Rightarrow> byte list" where
  "sock_gets (Inl d # xs) k = take k d"
| "sock_gets _ k = []"

fun sock_err :: "sock \<Rightarrow> goerror option" where
  "sock_err (Inr e # xs) = Some e"
| "sock_err _ = None"

lemma sock_read_spec:
  "\<exists>s'. sock_read s p =
    Some (if sock_err s = None then int (length (sock_gets s (length p))) else -1, sock_err s,
      sock_gets s (length p) @ drop (length (sock_gets s (length p))) p, s')"
  by (induction s p rule: sock_read.induct) (auto simp: min_absorb2)

lemma length_sock_gets: "length (sock_gets s k) \<le> k"
  by (induction s k rule: sock_gets.induct) auto

end
