(* ===== verification/RingIO.thy ===== *)
theory RingIO
  imports RingContract ScriptIO
begin

text \<open>
  The ring buffer's methods that talk to a reader, a writer or a socket: \<open>ReadFrom\<close>,
  \<open>WriteTo\<close>, \<open>CopyFromSocket\<close>, and \<open>Rewind\<close> of \<open>ring_buffer_unix.go\<close>.
\<close>

section \<open>Definitions\<close>

text \<open>\<open>r.Read(b[lo:hi])\<close>: the reader fills a stretch of the buffer in place.\<close>

definition read_into :: "'s reader \<Rightarrow> slice \<Rightarrow> int \<Rightarrow> int \<Rightarrow> 's \<Rightarrow> (int \<times> goerror option \<times> slice \<times> 's) option" where
  "read_into rd b lo hi s =
     do {
       v \<leftarrow> sview b lo hi;
       (m, e, p, s) \<leftarrow> rd s v;
       b \<leftarrow> scopy_at b lo p;
       Some (m, e, b, s)
     }"

text \<open>One round of the loop of \<open>ReadFrom\<close>: it returns (\<open>Inl\<close>) or goes round (\<open>Inr\<close>).\<close>

definition rb_ReadFrom_body ::
  "'s reader \<Rightarrow> bsPool \<Rightarrow> ring \<Rightarrow> 's \<Rightarrow> int \<Rightarrow>
   ((int \<times> goerror option \<times> bsPool \<times> ring \<times> 's) + (bsPool \<times> ring \<times> 's \<times> int)) option" where
  "rb_ReadFrom_body rd pool rb s n =
     do {
       (pool, rb) \<leftarrow> (if rb_Available rb < MinRead then rb_grow pool rb (rb_Buffered rb + MinRead)
                      else Some (pool, rb));
       if rb_w rb \<ge> rb_r rb then do {
         (m, err, b, s) \<leftarrow> read_into rd (rb_buf rb) (rb_w rb) (slen (rb_buf rb)) s;
         if m < 0 then None
         else do {
           w' \<leftarrow> go_mod (rb_w rb + m) (rb_size rb);
           let rb = rb\<lparr>rb_buf := b, rb_isEmpty := False, rb_w := w'\<rparr>;
           let n = n + m;
           if err = Some EOF then Some (Inl (n, None, pool, rb, s))
           else if err \<noteq> None then Some (Inl (n, err, pool, rb, s))
           else do {
             (m, err, b, s) \<leftarrow> read_into rd (rb_buf rb) 0 (rb_r rb) s;
             if m < 0 then None
             else do {
               w' \<leftarrow> go_mod (rb_w rb + m) (rb_size rb);
               let rb = rb\<lparr>rb_buf := b, rb_w := w'\<rparr>;
               let n = n + m;
               if err = Some EOF then Some (Inl (n, None, pool, rb, s))
               else if err \<noteq> None then Some (Inl (n, err, pool, rb, s))
               else Some (Inr (pool, rb, s, n))
             }
           }
         }
       }
       else do {
         (m, err, b, s) \<leftarrow> read_into rd (rb_buf rb) (rb_w rb) (rb_r rb) s;
         if m < 0 then None
         else do {
           w' \<leftarrow> go_mod (rb_w rb + m) (rb_size rb);
           let rb = rb\<lparr>rb_buf := b, rb_isEmpty := False, rb_w := w'\<rparr>;
           let n = n + m;
           if err = Some EOF then Some (Inl (n, None, pool, rb, s))
           else if err \<noteq> None then Some (Inl (n, err, pool, rb, s))
           else Some (Inr (pool, rb, s, n))
         }
       }
     }"

partial_function (option) rb_ReadFrom_loop ::
  "'s reader \<Rightarrow> bsPool \<Rightarrow> ring \<Rightarrow> 's \<Rightarrow> int \<Rightarrow> (int \<times> goerror option \<times> bsPool \<times> ring \<times> 's) option" where
  "rb_ReadFrom_loop rd pool rb s n =
     do {
       x \<leftarrow> rb_ReadFrom_body rd pool rb s n;
       case x of
         Inl out \<Rightarrow> Some out
       | Inr y \<Rightarrow> rb_ReadFrom_loop rd (fst y) (fst (snd y)) (fst (snd (snd y))) (snd (snd (snd y)))
     }"

definition rb_ReadFrom ::
  "'s reader \<Rightarrow> bsPool \<Rightarrow> ring \<Rightarrow> 's \<Rightarrow> (int \<times> goerror option \<times> bsPool \<times> ring \<times> 's) option" where
  "rb_ReadFrom rd pool rb s = rb_ReadFrom_loop rd pool rb s 0"

text \<open>The three exits every branch of \<open>WriteTo\<close> ends with.\<close>

definition rb_WriteTo_exit ::
  "int \<Rightarrow> goerror option \<Rightarrow> ring \<Rightarrow> 's \<Rightarrow> (int \<times> goerror option \<times> ring \<times> 's) option" where
  "rb_WriteTo_exit m err rb s =
     (let rb = (if rb_r rb = rb_w rb then rb_Reset rb else rb) in
      if err \<noteq> None then Some (m, err, rb, s)
      else if \<not> rb_isEmpty rb then Some (m, Some ErrShortWrite, rb, s)
      else Some (m, None, rb, s))"

definition rb_WriteTo :: "'s writer \<Rightarrow> ring \<Rightarrow> 's \<Rightarrow> (int \<times> goerror option \<times> ring \<times> 's) option" where
  "rb_WriteTo wt rb s =
     (if rb_isEmpty rb then Some (0, Some ErrIsEmpty, rb, s)
      else if rb_w rb > rb_r rb then
        (let n = rb_w rb - rb_r rb in
         do {
           v \<leftarrow> sview (rb_buf rb) (rb_r rb) (rb_r rb + n);
           (m, err, s) \<leftarrow> wt s v;
           if m > n then None
           else rb_WriteTo_exit m err (rb\<lparr>rb_r := rb_r rb + m\<rparr>) s
         })
      else
        (let n = rb_size rb - rb_r rb + rb_w rb in
         if rb_r rb + n \<le> rb_size rb then
           do {
             v \<leftarrow> sview (rb_buf rb) (rb_r rb) (rb_r rb + n);
             (m, err, s) \<leftarrow> wt s v;
             if m > n then None
             else do {
               r' \<leftarrow> go_mod (rb_r rb + m) (rb_size rb);
               rb_WriteTo_exit m err (rb\<lparr>rb_r := r'\<rparr>) s
             }
           }
         else
           (let c1 = rb_size rb - rb_r rb in
            do {
              v \<leftarrow> sview_from (rb_buf rb) (rb_r rb);
              (m, err, s) \<leftarrow> wt s v;
              if m > c1 then None
              else do {
                r' \<leftarrow> go_mod (rb_r rb + m) (rb_size rb);
                let rb = rb\<lparr>rb_r := r'\<rparr>;
                if err \<noteq> None then Some (m, err, rb, s)
                else if m < c1 then Some (m, Some ErrShortWrite, rb, s)
                else do {
                  let cum = m;
                  let c2 = n - c1;
                  v \<leftarrow> sview (rb_buf rb) 0 c2;
                  (m, err, s) \<leftarrow> wt s v;
                  if m > c2 then None
                  else rb_WriteTo_exit (cum + m) err (rb\<lparr>rb_r := m\<rparr>) s
                }
              }
            })))"

text \<open>\<open>Readv\<close> of \<open>internal/io\<close>: nothing to do without slices.\<close>

definition Readv ::
  "('s \<Rightarrow> byte list list \<Rightarrow> (int \<times> goerror option \<times> byte list list \<times> 's) option) \<Rightarrow>
   's \<Rightarrow> byte list list \<Rightarrow> (int \<times> goerror option \<times> byte list list \<times> 's) option" where
  "Readv sys s iov = (if length iov = 0 then Some (0, None, iov, s) else sys s iov)"

definition rb_CopyFromSocket ::
  "'s reader \<Rightarrow> ('s \<Rightarrow> byte list list \<Rightarrow> (int \<times> goerror option \<times> byte list list \<times> 's) option) \<Rightarrow>
   bsPool \<Rightarrow> ring \<Rightarrow> 's \<Rightarrow> (int \<times> goerror option \<times> bsPool \<times> ring \<times> 's) option" where
  "rb_CopyFromSocket sysread sysreadv pool rb s =
     (if rb_r rb = rb_w rb then
        if \<not> rb_isEmpty rb then
          do {
            (pool, rb) \<leftarrow> rb_grow pool rb (rb_size rb + rb_size rb div 2);
            (n, err, b, s) \<leftarrow> read_into sysread (rb_buf rb) (rb_w rb) (slen (rb_buf rb)) s;
            let rb = rb\<lparr>rb_buf := b\<rparr>;
            w' \<leftarrow> (if n > 0 then go_mod (rb_w rb + n) (rb_size rb) else Some (rb_w rb));
            Some (n, err, pool, rb\<lparr>rb_w := w'\<rparr>, s)
          }
        else
          do {
            let rb = rb\<lparr>rb_r := 0, rb_w := 0\<rparr>;
            (n, err, b, s) \<leftarrow> read_into sysread (rb_buf rb) 0 (slen (rb_buf rb)) s;
            let rb = rb\<lparr>rb_buf := b\<rparr>;
            w' \<leftarrow> (if n > 0 then go_mod (rb_w rb + n) (rb_size rb) else Some (rb_w rb));
            Some (n, err, pool, rb\<lparr>rb_w := w', rb_isEmpty := (if n > 0 then False else rb_isEmpty rb)\<rparr>, s)
          }
      else if rb_w rb < rb_r rb then
        do {
          (n, err, b, s) \<leftarrow> read_into sysread (rb_buf rb) (rb_w rb) (rb_r rb) s;
          let rb = rb\<lparr>rb_buf := b\<rparr>;
          w' \<leftarrow> (if n > 0 then go_mod (rb_w rb + n) (rb_size rb) else Some (rb_w rb));
          Some (n, err, pool, rb\<lparr>rb_w := w'\<rparr>, s)
        }
      else
        do {
          v0 \<leftarrow> sview_from (rb_buf rb) (rb_w rb);
          v1 \<leftarrow> sview (rb_buf rb) 0 (rb_r rb);
          let rb = rb\<lparr>rb_bs := [v0, v1]\<rparr>;
          (n, err, bs, s) \<leftarrow> Readv sysreadv s (rb_bs rb);
          b \<leftarrow> scopy_at (rb_buf rb) (rb_w rb) (bs ! 0);
          b \<leftarrow> scopy_at b 0 (bs ! 1);
          let rb = rb\<lparr>rb_bs := bs, rb_buf := b\<rparr>;
          w' \<leftarrow> (if n > 0 then go_mod (rb_w rb + n) (rb_size rb) else Some (rb_w rb));
          Some (n, err, pool, rb\<lparr>rb_w := w'\<rparr>, s)
        })"

definition rb_Rewind :: "bsPool \<Rightarrow> ring \<Rightarrow> (int \<times> bsPool \<times> ring) option" where
  "rb_Rewind pool rb =
     (if rb_IsEmpty rb then Some (0, pool, rb_Reset rb)
      else if rb_w rb = 0 then
        if rb_r rb < rb_size rb - rb_r rb then
          do {
            (pool, rb) \<leftarrow> rb_grow pool rb (rb_size rb + rb_size rb - rb_r rb);
            Some (rb_size rb - rb_r rb, pool, rb)
          }
        else
          do {
            v \<leftarrow> sview_from (rb_buf rb) (rb_r rb);
            b \<leftarrow> scopy_at (rb_buf rb) 0 v;
            let n = min (slen (rb_buf rb)) (int (length v));
            Some (n, pool, rb\<lparr>rb_buf := b, rb_r := 0, rb_w := n\<rparr>)
          }
      else if rb_size rb - rb_w rb < DefaultBufferSize then
        if rb_r rb < rb_w rb - rb_r rb then
          do {
            (pool, rb) \<leftarrow> rb_grow pool rb (rb_size rb + rb_w rb - rb_r rb);
            Some (rb_w rb - rb_r rb, pool, rb)
          }
        else
          do {
            v \<leftarrow> sview (rb_buf rb) (rb_r rb) (rb_w rb);
            b \<leftarrow> scopy_at (rb_buf rb) 0 v;
            let n = min (slen (rb_buf rb)) (int (length v));
            Some (n, pool, rb\<lparr>rb_buf := b, rb_r := 0, rb_w := n\<rparr>)
          }
      else Some (0, pool, rb))"

section \<open>ReadFrom\<close>

lemma read_into_script:
  assumes "sdata b = x @ v @ y" and "lo = int (length x)" and "hi = int (length x + length v)"
  shows "\<exists>d e s'. read_into script_read b lo hi s =
      Some (int (length d), e, b\<lparr>sdata := x @ d @ drop (length d) v @ y\<rparr>, s') \<and> length d \<le> length v \<and>
    (case e of None \<Rightarrow> script_data s = d @ script_data s' \<and> script_err s' = script_err s
     | Some z \<Rightarrow> script_data s = d \<and> script_err s = z) \<and>
    (e = None \<and> v \<noteq> [] \<longrightarrow> script_size s' < script_size s) \<and> (e = None \<longrightarrow> script_size s' \<le> script_size s)"
proof -
  have v: "sview b lo hi = Some v"
    using assms by (simp add: slice_simps slen_def)
  obtain d e s' where r: "script_read s v = Some (int (length d), e, d @ drop (length d) v, s')" "length d \<le> length v"
    "case e of None \<Rightarrow> script_data s = d @ script_data s' \<and> script_err s' = script_err s
     | Some z \<Rightarrow> script_data s = d \<and> script_err s = z"
    "e = None \<and> v \<noteq> [] \<longrightarrow> script_size s' < script_size s" "e = None \<longrightarrow> script_size s' \<le> script_size s"
    using script_read_spec [of s v] by blast
  have "scopy_at b lo (d @ drop (length d) v) = Some (b\<lparr>sdata := x @ d @ drop (length d) v @ y\<rparr>)"
    using assms r(2) by (simp add: slice_simps slen_def)
  then show ?thesis using v r by (auto simp: read_into_def)
qed

text \<open>
  The round starts with at least \<open>MinRead\<close> free bytes behind the contents, if the read pointer
  is at 0 or the buffer has to grow. Then both reads of the round go to the right place.
\<close>

lemma rb_ReadFrom_room:
  assumes "rb_ok rb" and "pool_ok pool" and "rb_r rb = 0 \<or> rb_Available rb < MinRead" and "length (rb_contents rb) + 512 \<le> rb_limit"
  shows "\<exists>pool' rb' c. (if rb_Available rb < MinRead then rb_grow pool rb (rb_Buffered rb + MinRead)
      else Some (pool, rb)) = Some (pool', rb') \<and> pool_ok pool' \<and>
    straight rb' [] (rb_contents rb) c \<and> 512 \<le> length c \<and> rb_size rb' \<le> 2 ^ 61 \<and> length (rb_bs rb') = 2"
proof -
  have sz: "0 \<le> rb_size rb" "rb_size rb \<le> 2 ^ 61" "length (rb_bs rb) = 2"
    using assms(1) by (auto simp: rb_ok_def slen_def)
  show ?thesis
  proof (cases "rb_Available rb < MinRead")
    case False
    have av: "512 \<le> rb_size rb - int (length (rb_contents rb))"
      using False rb_Available_contents [OF assms(1)] by (simp add: MinRead_def)
    from assms(1) have "\<exists>c. straight rb [] (rb_contents rb) c"
    proof (cases rule: ring_cases)
      case (straight a b c)
      then show ?thesis using assms(3) False straight_contents [OF straight(1)]
        by (intro exI [of _ c]) (auto simp: straight_def)
    next
      case (wrapped a b c)
      then show ?thesis using assms(3) False av wrapped_contents [OF wrapped]
        by (auto simp: wrapped_def add_nonneg_eq_0_iff)
    qed
    then obtain c where c: "straight rb [] (rb_contents rb) c" by blast
    then have "512 \<le> length c" using av by (simp add: straight_def)
    then show ?thesis using False c sz assms(2) by auto
  next
    case True
    define cap where "cap = int (length (rb_contents rb)) + 512"
    have b: "0 < cap" "cap \<le> 2 ^ 59" using assms(4) by (auto simp: cap_def rb_limit_def)
    obtain m where m: "rb_newCap (rb_size rb) cap = Some m" "cap \<le> m" "rb_size rb \<le> m"
        "m \<le> max 8192 (max (rb_size rb) (2 * cap))"
      using rb_newCap_spec [of "rb_size rb" cap] sz b by auto
    obtain pool' rb1 c where g: "rb_grow pool rb cap = Some (pool', rb1)" "pool_ok pool'"
        "straight rb1 [] (rb_contents rb) c" "rb_size rb1 = m" "rb_bs rb1 = rb_bs rb"
      using rb_grow_spec [OF assms(1,2) m(1)] m b by auto
    have "m = int (length (rb_contents rb) + length c)" using g(3,4) by (simp add: straight_def)
    then have "512 \<le> length c" using m(2) by (simp add: cap_def)
    moreover have "rb_Buffered rb + MinRead = cap"
      by (simp add: rb_Buffered_contents [OF assms(1)] cap_def MinRead_def)
    ultimately show ?thesis using True g m(4) b sz by auto
  qed
qed

text \<open>After the first read of a round: the bytes read are behind the contents.\<close>

lemma straight_filled:
  assumes "straight rb [] b c" and "length d \<le> length c" and "b @ d \<noteq> []" and "c \<noteq> []"
  shows "\<exists>w'. go_mod (rb_w rb + int (length d)) (rb_size rb) = Some w' \<and>
    (let rb' = rb\<lparr>rb_buf := (rb_buf rb)\<lparr>sdata := b @ d @ drop (length d) c\<rparr>, rb_isEmpty := False, rb_w := w'\<rparr>
     in (if length d < length c then straight rb' [] (b @ d) (drop (length d) c)
         else wrapped rb' [] [] (b @ d)) \<and> rb_contents rb' = b @ d)"
proof (cases "length d < length c")
  case True
  have "0 < int (length b) + int (length d)" using assms(3) by (cases b; cases d) auto
  with True show ?thesis using assms(1)
    by (auto simp: straight_def slice_simps rb_contents_def Let_def)
next
  case False
  then have "length d = length c" using assms(2) by simp
  moreover have "0 < int (length b) + int (length c)" using assms(4) by (cases c) auto
  ultimately show ?thesis using assms(1,3)
    by (auto simp: straight_def wrapped_def slice_simps rb_contents_def Let_def)
qed

text \<open>One round with a script reader: it ends with the script's error, or makes progress.\<close>

definition rf_ready :: "ring \<Rightarrow> rscript \<Rightarrow> bool" where
  "rf_ready rb s \<longleftrightarrow> rb_contents rb \<noteq> [] \<or> (\<exists>x xs e ys. s = (x # xs, e) # ys)"

lemma rb_ReadFrom_body_straight:
  assumes "rb_ok rb" and "pool_ok pool" and "rb_r rb = 0 \<or> rb_Available rb < MinRead" and "rf_ready rb s"
    and "length (rb_contents rb) + 512 \<le> rb_limit"
  shows "\<exists>pool' rb' s' d. pool_ok pool' \<and> rb_ok rb' \<and> rb_r rb' = 0 \<and> rb_contents rb' = rb_contents rb @ d \<and>
    rb_contents rb' \<noteq> [] \<and>
    (rb_ReadFrom_body script_read pool rb s n =
        Some (Inl (n + int (length d), eof_is_nil (script_err s), pool', rb', s')) \<and> script_data s = d \<or>
     rb_ReadFrom_body script_read pool rb s n = Some (Inr (pool', rb', s', n + int (length d))) \<and>
       script_data s = d @ script_data s' \<and> script_err s' = script_err s \<and> script_size s' < script_size s)"
proof -
  obtain pool1 rb1 c where g: "(if rb_Available rb < MinRead then rb_grow pool rb (rb_Buffered rb + MinRead)
      else Some (pool, rb)) = Some (pool1, rb1)" "pool_ok pool1"
      "straight rb1 [] (rb_contents rb) c" "512 \<le> length c" "rb_size rb1 \<le> 2 ^ 61" "length (rb_bs rb1) = 2"
    using rb_ReadFrom_room [OF assms(1-3,5)] by blast
  let ?b = "rb_contents rb"
  have shape: "sdata (rb_buf rb1) = ?b @ c @ []" "rb_w rb1 = int (length ?b)" "rb_r rb1 = 0"
    "slen (rb_buf rb1) = int (length ?b + length c)"
    using g(3) by (auto simp: straight_def slen_def)
  have cne: "c \<noteq> []" using g(4) by auto
  obtain d e s1 where r: "read_into script_read (rb_buf rb1) (rb_w rb1) (slen (rb_buf rb1)) s =
      Some (int (length d), e, (rb_buf rb1)\<lparr>sdata := ?b @ d @ drop (length d) c\<rparr>, s1)" "length d \<le> length c"
    and e: "case e of None \<Rightarrow> script_data s = d @ script_data s1 \<and> script_err s1 = script_err s
     | Some z \<Rightarrow> script_data s = d \<and> script_err s = z" "e = None \<longrightarrow> script_size s1 < script_size s"
    using read_into_script [OF shape(1,2,4), of s] cne by auto
  have ne: "?b @ d \<noteq> []"
  proof (cases "?b = []")
    case True
    then obtain x xs z ys where s: "s = (x # xs, z) # ys" using assms(4) by (auto simp: rf_ready_def)
    have "read_into script_read (rb_buf rb1) (rb_w rb1) (slen (rb_buf rb1)) s \<noteq> Some (0, q)" for q
      using True s shape cne by (auto simp: read_into_def slice_simps bind_Some_conv split: prod.splits)
    then show ?thesis using r(1) by auto
  qed simp
  define rb2 where "rb2 w = rb1\<lparr>rb_buf := (rb_buf rb1)\<lparr>sdata := ?b @ d @ drop (length d) c\<rparr>,
      rb_isEmpty := False, rb_w := w\<rparr>" for w
  obtain w where w: "go_mod (rb_w rb1 + int (length d)) (rb_size rb1) = Some w"
    "if length d < length c then straight (rb2 w) [] (?b @ d) (drop (length d) c)
     else wrapped (rb2 w) [] [] (?b @ d)" "rb_contents (rb2 w) = ?b @ d"
    using straight_filled [OF g(3) r(2) ne cne] unfolding Let_def rb2_def [symmetric] by blast
  have ok2: "rb_ok (rb2 w)"
  proof (cases "length d < length c")
    case True
    then have "straight (rb2 w) [] (?b @ d) (drop (length d) c)" using w(2) by simp
    then show ?thesis using True g(5,6) by (intro straight_ok) (auto simp: rb2_def)
  next
    case False
    then have "wrapped (rb2 w) [] [] (?b @ d)" using w(2) by simp
    then show ?thesis using g(5,6) by (intro wrapped_ok) (auto simp: rb2_def)
  qed
  have r2: "rb_r (rb2 w) = 0" "rb_w (rb2 w) = w" "rb_size (rb2 w) = rb_size rb1" using shape by (auto simp: rb2_def)
  have wlt: "go_mod w (rb_size rb1) = Some w"
    using ok2 r2 g(4) g(3) cne by (intro go_mod_less) (auto simp: rb_ok_def straight_def)
  show ?thesis
  proof (cases e)
    case (Some z)
    then have "rb_ReadFrom_body script_read pool rb s n =
        Some (Inl (n + int (length d), eof_is_nil (script_err s), pool1, rb2 w, s1))"
      using g(1) shape r(1) w(1) e(1)
      by (simp add: rb_ReadFrom_body_def Let_def rb2_def eof_is_nil_def)
    then show ?thesis using ok2 r2 w(3) ne e(1) Some g(2) by auto
  next
    case None
    have "sdata (rb_buf (rb2 w)) = [] @ [] @ sdata (rb_buf (rb2 w))" by simp
    from read_into_script [OF this, of 0 0 s1] obtain e' s2
      where q: "read_into script_read (rb_buf (rb2 w)) 0 0 s1 = Some (0, e', rb_buf (rb2 w), s2)"
      "case e' of None \<Rightarrow> script_data s1 = [] @ script_data s2 \<and> script_err s2 = script_err s1
       | Some z \<Rightarrow> script_data s1 = [] \<and> script_err s1 = z" "e' = None \<longrightarrow> script_size s2 \<le> script_size s1"
      by (auto simp: rb2_def)
    have rb3: "rb1\<lparr>rb_buf := rb_buf (rb2 w), rb_w := w, rb_isEmpty := False\<rparr> = rb2 w" by (simp add: rb2_def)
    have bu: "rb_buf (rb2 w) = (rb_buf rb1)\<lparr>sdata := ?b @ d @ drop (length d) c\<rparr>" by (simp add: rb2_def)
    have body: "rb_ReadFrom_body script_read pool rb s n =
        (if e' = Some EOF then Some (Inl (n + int (length d), None, pool1, rb2 w, s2))
         else if e' \<noteq> None then Some (Inl (n + int (length d), e', pool1, rb2 w, s2))
         else Some (Inr (pool1, rb2 w, s2, n + int (length d))))"
      using g(1) shape r(1) w(1) None q(1) wlt
      by (simp add: rb_ReadFrom_body_def Let_def bu [symmetric]) (simp add: rb2_def)
    show ?thesis
    proof (cases e')
      case None
      then show ?thesis using body ok2 r2 w(3) ne e \<open>e = None\<close> q(2,3) g(2)
        by (intro exI [of _ pool1] exI [of _ "rb2 w"] exI [of _ s2] exI [of _ d]) auto
    next
      case (Some z)
      then show ?thesis using body ok2 r2 w(3) ne e \<open>e = None\<close> q(2) g(2)
        by (intro exI [of _ pool1] exI [of _ "rb2 w"] exI [of _ s2] exI [of _ d]) (auto simp: eof_is_nil_def)
    qed
  qed
qed

text \<open>A round on wrapped contents with room enough reads into the gap between the pointers.\<close>

lemma rb_ReadFrom_body_gap:
  assumes "rb_ok rb" and "rb_w rb < rb_r rb" and "\<not> rb_Available rb < MinRead"
  shows "\<exists>rb' s' d. rb_ok rb' \<and> rb_r rb' = rb_r rb \<and> rb_w rb' \<le> rb_r rb' \<and> rb_contents rb' = rb_contents rb @ d \<and>
    rb_contents rb' \<noteq> [] \<and>
    (rb_ReadFrom_body script_read pool rb s n =
        Some (Inl (n + int (length d), eof_is_nil (script_err s), pool, rb', s')) \<and> script_data s = d \<or>
     rb_ReadFrom_body script_read pool rb s n = Some (Inr (pool, rb', s', n + int (length d))) \<and>
       script_data s = d @ script_data s' \<and> script_err s' = script_err s \<and> script_size s' < script_size s)"
proof -
  from assms(1) obtain a b c where wr: "wrapped rb a b c"
    by (cases rule: ring_cases) (use assms(2) in \<open>auto simp: straight_def\<close>)
  have fr: "length (rb_bs rb) = 2" "rb_size rb \<le> 2 ^ 61" using assms(1) by (auto simp: rb_ok_def)
  have sh: "sdata (rb_buf rb) = a @ b @ c" "rb_w rb = int (length a)" "rb_r rb = int (length a + length b)"
    "rb_size rb = int (length a + length b + length c)" "0 < length c" "b \<noteq> []" "\<not> rb_isEmpty rb"
    using wr assms(2) by (auto simp: wrapped_def)
  obtain d e s1 where r: "read_into script_read (rb_buf rb) (rb_w rb) (rb_r rb) s =
      Some (int (length d), e, (rb_buf rb)\<lparr>sdata := a @ d @ drop (length d) b @ c\<rparr>, s1)" "length d \<le> length b"
    and e: "case e of None \<Rightarrow> script_data s = d @ script_data s1 \<and> script_err s1 = script_err s
     | Some z \<Rightarrow> script_data s = d \<and> script_err s = z" "e = None \<longrightarrow> script_size s1 < script_size s"
    using read_into_script [OF sh(1-3), of s] sh(6) by blast
  have w: "go_mod (rb_w rb + int (length d)) (rb_size rb) = Some (rb_w rb + int (length d))"
    using sh(2,4,5) r(2) by (intro go_mod_less) linarith+
  define rb' where "rb' = rb\<lparr>rb_buf := (rb_buf rb)\<lparr>sdata := a @ d @ drop (length d) b @ c\<rparr>, rb_isEmpty := False,
      rb_w := rb_w rb + int (length d)\<rparr>"
  have w': "wrapped rb' (a @ d) (drop (length d) b) c" using wr r(2) by (auto simp: wrapped_def rb'_def)
  then have ok: "rb_ok rb'" using fr by (intro wrapped_ok) (auto simp: rb'_def)
  have c: "rb_contents rb' = rb_contents rb @ d" "rb_contents rb' \<noteq> []"
    using wrapped_contents [OF w'] wrapped_contents [OF wr] sh(5) by auto
  have p: "rb_r rb' = rb_r rb" "rb_w rb' \<le> rb_r rb'" using sh(2,3) r(2) by (simp_all add: rb'_def)
  have body: "rb_ReadFrom_body script_read pool rb s n =
      (if e = Some EOF then Some (Inl (n + int (length d), None, pool, rb', s1))
       else if e \<noteq> None then Some (Inl (n + int (length d), e, pool, rb', s1))
       else Some (Inr (pool, rb', s1, n + int (length d))))"
    using assms(2,3) r(1) w by (simp add: rb_ReadFrom_body_def Let_def rb'_def)
  show ?thesis
  proof (cases e)
    case None
    then show ?thesis using body e ok c p by (intro exI [of _ rb'] exI [of _ s1] exI [of _ d]) simp
  next
    case (Some z)
    then show ?thesis using body e ok c p
      by (intro exI [of _ rb'] exI [of _ s1] exI [of _ d]) (auto simp: eof_is_nil_def)
  qed
qed

text \<open>
  Where \<open>ReadFrom\<close> puts every read behind the contents: the read pointer is at 0, the contents
  wrap around, or there is less room than \<open>MinRead\<close>, so that the buffer grows first.
\<close>

definition rf_place :: "ring \<Rightarrow> bool" where
  "rf_place rb \<longleftrightarrow> rb_r rb = 0 \<or> rb_w rb < rb_r rb \<or> rb_Available rb < MinRead"

lemma full_place: "rb_ok rb \<Longrightarrow> rb_contents rb \<noteq> [] \<Longrightarrow> rb_w rb \<le> rb_r rb \<Longrightarrow> rf_place rb"
  using rb_IsEmpty_contents [of rb] by (auto simp: rf_place_def rb_Available_def MinRead_def)

lemma rb_ReadFrom_body_spec:
  assumes "rb_ok rb" and "pool_ok pool" and "rf_place rb" and "rf_ready rb s"
    and "length (rb_contents rb) + 512 \<le> rb_limit"
  shows "\<exists>pool' rb' s' d. pool_ok pool' \<and> rb_ok rb' \<and> rf_place rb' \<and> rb_contents rb' = rb_contents rb @ d \<and>
    rb_contents rb' \<noteq> [] \<and>
    (rb_ReadFrom_body script_read pool rb s n =
        Some (Inl (n + int (length d), eof_is_nil (script_err s), pool', rb', s')) \<and> script_data s = d \<or>
     rb_ReadFrom_body script_read pool rb s n = Some (Inr (pool', rb', s', n + int (length d))) \<and>
       script_data s = d @ script_data s' \<and> script_err s' = script_err s \<and> script_size s' < script_size s)"
proof (cases "rb_r rb = 0 \<or> rb_Available rb < MinRead")
  case True
  have "rb_r rb' = 0 \<Longrightarrow> rf_place rb'" for rb' by (simp add: rf_place_def)
  then show ?thesis using rb_ReadFrom_body_straight [OF assms(1,2) True assms(4,5), of n] by blast
next
  case False
  then have "rb_w rb < rb_r rb" "\<not> rb_Available rb < MinRead" using assms(3) by (auto simp: rf_place_def)
  from rb_ReadFrom_body_gap [OF assms(1) this, of pool s n] show ?thesis
    using full_place assms(2) by blast
qed

lemma rb_ReadFrom_loop_spec:
  assumes "rb_ok rb" and "pool_ok pool" and "rf_place rb" and "rf_ready rb s"
    and "length (rb_contents rb) + length (script_data s) + 512 \<le> rb_limit"
  shows "\<exists>pool' rb' s'. rb_ReadFrom_loop script_read pool rb s n =
      Some (n + int (length (script_data s)), eof_is_nil (script_err s), pool', rb', s') \<and> pool_ok pool' \<and>
    rb_ok rb' \<and> rb_contents rb' = rb_contents rb @ script_data s"
  using assms
proof (induction "script_size s" arbitrary: pool rb s n rule: less_induct)
  case less
  obtain pool1 rb1 s1 d where b: "pool_ok pool1" "rb_ok rb1" "rf_place rb1"
    "rb_contents rb1 = rb_contents rb @ d" "rb_contents rb1 \<noteq> []"
    "rb_ReadFrom_body script_read pool rb s n =
        Some (Inl (n + int (length d), eof_is_nil (script_err s), pool1, rb1, s1)) \<and> script_data s = d \<or>
     rb_ReadFrom_body script_read pool rb s n = Some (Inr (pool1, rb1, s1, n + int (length d))) \<and>
       script_data s = d @ script_data s1 \<and> script_err s1 = script_err s \<and> script_size s1 < script_size s"
    using rb_ReadFrom_body_spec [OF less.prems(1-4), of n] less.prems(5) by auto
  from b(6) show ?case
  proof (elim disjE conjE)
    assume "rb_ReadFrom_body script_read pool rb s n =
        Some (Inl (n + int (length d), eof_is_nil (script_err s), pool1, rb1, s1))" "script_data s = d"
    then show ?case using b by (subst rb_ReadFrom_loop.simps) simp
  next
    assume i: "rb_ReadFrom_body script_read pool rb s n = Some (Inr (pool1, rb1, s1, n + int (length d)))"
      "script_data s = d @ script_data s1" "script_err s1 = script_err s" "script_size s1 < script_size s"
    have "rf_ready rb1 s1" using b(5) by (simp add: rf_ready_def)
    moreover have "length (rb_contents rb1) + length (script_data s1) + 512 \<le> rb_limit"
      using less.prems(5) b(4) i(2) by simp
    ultimately show ?case
      using less.hyps [OF i(4) b(2,1,3), of "n + int (length d)"] i b(4)
      by (subst rb_ReadFrom_loop.simps) (auto simp: algebra_simps)
  qed
qed

text \<open>
  C35: \<open>ReadFrom\<close> of a buffer whose read pointer is at 0, whose contents wrap around, or which
  has less than 512 bytes of room and so grows first. For every reader, however it chunks its
  data, the loop ends and everything the reader delivers up to its first error is appended in
  order; the count is the number of bytes and EOF is reported as no error. The reader delivers a
  byte on its first call unless the buffer already holds some. The buffers left out are those of
  \<open>rb_ReadFrom_short_read_corrupts\<close>.
\<close>

theorem rb_ReadFrom_appends:
  assumes "rb_ok rb" and "pool_ok pool" and "rb_r rb = 0 \<or> rb_w rb < rb_r rb \<or> rb_Available rb < MinRead"
    and "rb_contents rb \<noteq> [] \<or> (\<exists>x xs e ys. s = (x # xs, e) # ys)"
    and "length (rb_contents rb) + length (script_data s) + 512 \<le> rb_limit"
  shows "\<exists>pool' rb' s'. rb_ReadFrom script_read pool rb s =
      Some (int (length (script_data s)), if script_err s = EOF then None else Some (script_err s), pool', rb', s') \<and>
    rb_ok rb' \<and> rb_Bytes rb' = Some (rb_contents rb @ script_data s)"
  using rb_ReadFrom_loop_spec [of rb pool s 0] assms
  by (auto simp: rb_ReadFrom_def rf_ready_def rf_place_def eof_is_nil_def rb_Bytes_spec)

theorem rb_ReadFrom_appends_witness:
  "let rb = \<lparr>rb_bs = [[], []], rb_buf = \<lparr>sdata = [1, 2, 3, 4], sspare = []\<rparr>, rb_size = 4, rb_r = 0,
       rb_w = 2, rb_isEmpty = False\<rparr>;
       s = [([5, 6], None), ([7], None)] in
   \<exists>pool' rb' s'. rb_ReadFrom script_read empty_bsPool rb s =
      Some (int (length (script_data s)), if script_err s = EOF then None else Some (script_err s), pool', rb', s') \<and>
    rb_ok rb' \<and> rb_Bytes rb' = Some (rb_contents rb @ script_data s)"
  unfolding Let_def
  by (rule rb_ReadFrom_appends) (simp_all add: rb_ok_def slen_def rb_contents_def rb_limit_def)

lemma read_into_script_view:
  assumes "sdata b = u @ z" and "length d \<le> length u"
  shows "sview b 0 (int (length u)) = Some u"
    and "scopy_at b 0 (d @ drop (length d) u) = Some (b\<lparr>sdata := d @ drop (length d) u @ z\<rparr>)"
  using assms by (simp_all add: slice_simps slen_def blit_def)

text \<open>
  A short read is lost. On a buffer with a read pointer above 0, contents that do not wrap
  and room for another round, \<open>ReadFrom\<close> reads a second time without looking whether the first
  read filled the space behind the contents: the second goes to the front of the buffer, while
  the write pointer moves on. The bytes of the second read are counted, but the contents get
  what the buffer happened to hold behind the first ones.
\<close>

theorem rb_ReadFrom_short_read_corrupts:
  assumes "rb_ok rb" and "0 < rb_r rb" and "rb_r rb \<le> rb_w rb" and "MinRead \<le> rb_Available rb"
    and "x \<noteq> []" and "int (length y) \<le> rb_r rb" and "rb_w rb + int (length x + length y) < rb_size rb"
  shows "\<exists>rb'. rb_ReadFrom script_read pool rb [(x, None), (y, Some EOF)] =
      Some (int (length x + length y), None, pool, rb', []) \<and>
    rb_contents rb' = rb_contents rb @ x @ take (length y) (drop (nat (rb_w rb) + length x) (sdata (rb_buf rb)))"
proof -
  from assms(1) obtain a b c where st: "straight rb a b c"
  proof (cases rule: ring_cases)
    case (wrapped a b c)
    then have "rb_r rb = rb_w rb" "\<not> rb_isEmpty rb" using assms(3) by (auto simp: wrapped_def)
    then show ?thesis using assms(4) by (simp add: rb_Available_def MinRead_def)
  qed (use that in blast)
  have sh: "sdata (rb_buf rb) = (a @ b) @ c @ []" "rb_w rb = int (length (a @ b))" "rb_r rb = int (length a)"
    "rb_size rb = int (length a + length b + length c)" "slen (rb_buf rb) = int (length (a @ b) + length c)"
    using st by (auto simp: straight_def slen_def)
  have le: "length x + length y < length c" "length y \<le> length a" using assms(6,7) sh(2-4) by auto
  let ?b1 = "(rb_buf rb)\<lparr>sdata := (a @ b) @ x @ drop (length x) c\<rparr>"
  let ?b2 = "(rb_buf rb)\<lparr>sdata := y @ drop (length y) a @ b @ x @ drop (length x) c\<rparr>"
  have r1: "read_into script_read (rb_buf rb) (rb_w rb) (slen (rb_buf rb)) [(x, None), (y, Some EOF)] =
      Some (int (length x), None, ?b1, [(y, Some EOF)])"
    using sh le by (simp add: read_into_def slice_simps) (simp add: slen_def blit_def)
  have r2: "read_into script_read ?b1 0 (rb_r rb) [(y, Some EOF)] = Some (int (length y), Some EOF, ?b2, [])"
    using sh le read_into_script_view [of ?b1 a "b @ x @ drop (length x) c" y] by (simp add: read_into_def)
  have m: "go_mod (rb_w rb + int (length x)) (rb_size rb) = Some (rb_w rb + int (length x))"
    "go_mod (rb_w rb + int (length x) + int (length y)) (rb_size rb) = Some (rb_w rb + int (length x) + int (length y))"
    using sh(2) assms(7) by (auto intro!: go_mod_less)
  have dd: "drop (length x) c = take (length y) (drop (length x) c) @ drop (length x + length y) c"
    by (metis append_take_drop_id drop_drop add.commute)
  define rb' where "rb' = rb\<lparr>rb_buf := ?b2, rb_isEmpty := False, rb_w := rb_w rb + int (length x) + int (length y)\<rparr>"
  have "rb_ReadFrom_body script_read pool rb [(x, None), (y, Some EOF)] 0 =
      Some (Inl (int (length x + length y), None, pool, rb', []))"
    using assms(3,4) r1 r2 m by (simp add: rb_ReadFrom_body_def Let_def rb'_def)
  moreover have "straight rb' (y @ drop (length y) a) (b @ x @ take (length y) (drop (length x) c)) (drop (length x + length y) c)"
    using sh st le assms(5) dd by (simp add: straight_def rb'_def del: drop_drop)
  then have "rb_contents rb' = rb_contents rb @ x @ take (length y) (drop (length x) c)"
    using straight_contents [OF st] by (simp add: straight_contents)
  moreover have "drop (nat (rb_w rb) + length x) (sdata (rb_buf rb)) = drop (length x) c"
    using sh(1,2) by (simp add: nat_add_distrib)
  ultimately show ?thesis by (simp add: rb_ReadFrom_def rb_ReadFrom_loop.simps)
qed

definition ring_hole :: ring where
  "ring_hole = \<lparr>rb_bs = [[], []], rb_buf = \<lparr>sdata = replicate 1024 9, sspare = []\<rparr>, rb_size = 1024, rb_r = 4,
     rb_w = 6, rb_isEmpty = False\<rparr>"

theorem rb_ReadFrom_short_read_corrupts_witness:
  "\<exists>rb'. rb_ReadFrom script_read empty_bsPool ring_hole [([1, 2], None), ([3, 4], Some EOF)] =
      Some (4, None, empty_bsPool, rb', []) \<and> rb_contents rb' = rb_contents ring_hole @ [1, 2, 9, 9]"
  using rb_ReadFrom_short_read_corrupts [of ring_hole "[1, 2]" "[3, 4]" empty_bsPool]
  by (simp add: ring_hole_def rb_ok_def slen_def rb_Available_def MinRead_def numeral_eq_Suc)

text \<open>
  \<open>ReadFrom\<close> an exhausted reader makes bytes up. On an empty buffer with room it marks
  the buffer as non-empty before it looks at the count, so that with no byte read the equal
  pointers mean full: \<open>Buffered\<close> then reports the whole capacity of stale bytes.
\<close>

theorem rb_ReadFrom_exhausted_reader:
  assumes "rb_ok rb" and "rb_isEmpty rb" and "MinRead \<le> rb_size rb"
  shows "\<exists>rb'. rb_ReadFrom script_read pool rb [] = Some (0, None, pool, rb', []) \<and>
    rb_Buffered rb = 0 \<and> rb_Buffered rb' = rb_size rb \<and> rb_IsFull rb'"
proof -
  have r: "rb_r rb = rb_w rb" "0 \<le> rb_w rb" "rb_w rb < rb_size rb" "slen (rb_buf rb) = rb_size rb"
    using assms by (auto simp: rb_ok_def MinRead_def)
  have "read_into script_read (rb_buf rb) (rb_w rb) (rb_size rb) [] = Some (0, Some EOF, rb_buf rb, [])"
    using r by (simp add: read_into_def slice_simps) (simp add: slen_def blit_def)
  then have "rb_ReadFrom_body script_read pool rb [] 0 =
      Some (Inl (0, None, pool, rb\<lparr>rb_isEmpty := False\<rparr>, []))"
    using r assms(2,3) by (simp add: rb_ReadFrom_body_def rb_Available_def Let_def slice_simps)
  then show ?thesis using r assms(2)
    by (simp add: rb_ReadFrom_def rb_ReadFrom_loop.simps rb_Buffered_def rb_IsFull_def)
qed

theorem rb_ReadFrom_exhausted_reader_witness:
  "let rb = \<lparr>rb_bs = [[], []], rb_buf = \<lparr>sdata = replicate 512 9, sspare = []\<rparr>, rb_size = 512, rb_r = 0,
       rb_w = 0, rb_isEmpty = True\<rparr> in
   \<exists>rb'. rb_ReadFrom script_read empty_bsPool rb [] = Some (0, None, empty_bsPool, rb', []) \<and>
     rb_Buffered rb = 0 \<and> rb_Buffered rb' = rb_size rb \<and> rb_IsFull rb'"
  unfolding Let_def
  by (rule rb_ReadFrom_exhausted_reader) (simp_all add: rb_ok_def slen_def MinRead_def)

section \<open>WriteTo\<close>

lemma rb_WriteTo_exit_spec:
  assumes "rb_ok rb" and "\<not> rb_isEmpty rb" and "0 < m \<or> rb_r rb \<noteq> rb_w rb" and "0 \<le> m"
    and "m \<le> int (length (rb_contents rb))"
    and "r' = (if rb_r rb + m < rb_size rb then rb_r rb + m else rb_r rb + m - rb_size rb)"
  shows "\<exists>rb'. rb_WriteTo_exit m err (rb\<lparr>rb_r := r'\<rparr>) s =
      Some (m, if err \<noteq> None then err else if rb_contents rb' = [] then None else Some ErrShortWrite, rb', s) \<and>
    rb_ok rb' \<and> rb_contents rb' = drop (nat m) (rb_contents rb)"
proof -
  define rb' where "rb' = (if m = 0 then rb else rb_advance rb m)"
  have le: "m \<le> rb_size rb" using contents_le_size [OF assms(1)] assms(5) by linarith
  have "rb_ok rb' \<and> rb_contents rb' = drop (nat m) (rb_contents rb)"
    using rb_advance_ok [OF assms(1,2) _ le] rb_advance_contents [OF assms(1,2) _ assms(5)] assms(1,4)
    by (auto simp: rb'_def)
  moreover have "(if rb_r (rb\<lparr>rb_r := r'\<rparr>) = rb_w (rb\<lparr>rb_r := r'\<rparr>) then rb_Reset (rb\<lparr>rb_r := r'\<rparr>)
      else rb\<lparr>rb_r := r'\<rparr>) = rb'"
    using assms by (auto simp: rb'_def rb_advance_def Let_def rb_ok_def)
  ultimately show ?thesis using rb_IsEmpty_contents [of rb'] by (auto simp: rb_WriteTo_exit_def Let_def)
qed

lemma wt_cases:
  obtains m e s' where "script_write s p = Some (int m, e, s')" "m \<le> length p" "snd s' = snd s @ take m p"
  using script_write_spec by blast

text \<open>
  Two corners apart: a write of no byte on a full buffer whose pointers are at 0 is excluded
  here (the theorem after this one says what happens then).
\<close>

lemma rb_WriteTo_spec:
  assumes "rb_ok rb" and "\<not> rb_isEmpty rb" and "rb_r rb \<noteq> 0 \<or> rb_w rb \<noteq> 0"
  shows "\<exists>n e rb' s'. rb_WriteTo script_write rb s = Some (int n, e, rb', s') \<and> n \<le> length (rb_contents rb) \<and>
    snd s' = snd s @ take n (rb_contents rb) \<and> rb_ok rb' \<and> rb_contents rb' = drop n (rb_contents rb) \<and>
    (e = None \<longrightarrow> rb_contents rb' = [])"
  using assms(1)
proof (cases rule: ring_cases)
  case (straight a b c)
  have b: "rb_contents rb = b" using straight(1) by (rule straight_contents)
  have ne: "b \<noteq> []" "c \<noteq> []" using straight assms by (auto simp: straight_def rb_ok_def)
  obtain m e s' where w: "script_write s b = Some (int m, e, s')" "m \<le> length b" "snd s' = snd s @ take m b"
    by (rule wt_cases)
  have num: "0 < int (length b)" "0 < int (length c)" using ne by auto
  have "rb_r rb = int (length a)" "rb_w rb = int (length a) + int (length b)"
    "rb_size rb = int (length a) + int (length b) + int (length c)"
    using straight(1) by (auto simp: straight_def)
  then have sh: "rb_r rb < rb_w rb" "rb_w rb - rb_r rb = int (length b)" "rb_r rb + int m < rb_size rb"
    using num w(2) by linarith+
  have v: "sview (rb_buf rb) (rb_r rb) (rb_r rb + int (length b)) = Some b"
    using straight(1) by (simp add: straight_def slice_simps slen_def)
  obtain rb' where x: "rb_WriteTo_exit (int m) e (rb\<lparr>rb_r := rb_r rb + int m\<rparr>) s' =
      Some (int m, if e \<noteq> None then e else if rb_contents rb' = [] then None else Some ErrShortWrite, rb', s')"
      "rb_ok rb'" "rb_contents rb' = drop m b"
    using rb_WriteTo_exit_spec [OF assms(1,2), of "int m" _ e s'] sh w(2) b by auto
  then have "rb_WriteTo script_write rb s =
      Some (int m, if e \<noteq> None then e else if rb_contents rb' = [] then None else Some ErrShortWrite, rb', s')"
    using w(1) sh(1,2) v assms(2) w(2) by (simp add: rb_WriteTo_def Let_def del: of_nat_add)
  then show ?thesis using x w b by auto
next
  case (wrapped a b c)
  have ca: "rb_contents rb = c @ a" using wrapped by (rule wrapped_contents)
  have sh: "\<not> rb_r rb < rb_w rb" "sview_from (rb_buf rb) (rb_r rb) = Some c" "rb_size rb - rb_r rb = int (length c)"
    "rb_w rb = int (length a)" "0 < int (length c)" "0 \<le> rb_r rb" "sview (rb_buf rb) (rb_r rb) (rb_size rb) = Some c"
    "sview (rb_buf rb) 0 (int (length a)) = Some a"
    using wrapped by (auto simp: wrapped_def slice_simps slen_def nat_add_distrib)
  have adv: "go_mod (rb_r rb + int m) (rb_size rb) =
      Some (if rb_r rb + int m < rb_size rb then rb_r rb + int m else rb_r rb + int m - rb_size rb)"
    if "m \<le> length c" for m
  proof (cases "rb_r rb + int m < rb_size rb")
    case False
    have "0 < rb_size rb" "rb_size rb \<le> rb_r rb + int m" "rb_r rb + int m < 2 * rb_size rb"
      using that sh False by linarith+
    then show ?thesis using False by (simp only: go_mod_wrap if_False)
  qed (use sh(6) in \<open>simp add: slice_simps\<close>)
  obtain m e s' where w: "script_write s c = Some (int m, e, s')" "m \<le> length c" "snd s' = snd s @ take m c"
    by (rule wt_cases)
  show ?thesis
  proof (cases "a = []")
    case True
    have "rb_r rb \<noteq> rb_w rb" using True sh(4) assms(3) by auto
    then obtain rb' where x: "rb_WriteTo_exit (int m) e
        (rb\<lparr>rb_r := (if rb_r rb + int m < rb_size rb then rb_r rb + int m else rb_r rb + int m - rb_size rb)\<rparr>) s' =
        Some (int m, if e \<noteq> None then e else if rb_contents rb' = [] then None else Some ErrShortWrite, rb', s')"
        "rb_ok rb'" "rb_contents rb' = drop m c"
      using rb_WriteTo_exit_spec [OF assms(1,2), of "int m" _ e s'] w(2) ca True by auto
    have v: "sview (rb_buf rb) (rb_r rb) (rb_r rb + int (length c)) = Some c"
      using sh(3,7) by (simp add: algebra_simps)
    from x have "rb_WriteTo script_write rb s =
        Some (int m, if e \<noteq> None then e else if rb_contents rb' = [] then None else Some ErrShortWrite, rb', s')"
      using w(1,2) sh(1,3,4) v adv [OF w(2)] assms(2) True by (simp add: rb_WriteTo_def Let_def)
    then show ?thesis using x w ca True by auto
  next
    case False
    have big: "\<not> rb_r rb + (rb_size rb - rb_r rb + rb_w rb) \<le> rb_size rb" using False sh(4) by (cases a) auto
    show ?thesis
    proof (cases "e = None \<and> m = length c")
      case True
      obtain k e2 s2 where w2: "script_write s' a = Some (int k, e2, s2)" "k \<le> length a" "snd s2 = snd s' @ take k a"
        by (rule wt_cases)
      have "0 < int (m + k) \<or> rb_r rb \<noteq> rb_w rb" "0 \<le> int (m + k)"
        "int (m + k) \<le> int (length (rb_contents rb))"
        "int k = (if rb_r rb + int (m + k) < rb_size rb then rb_r rb + int (m + k)
           else rb_r rb + int (m + k) - rb_size rb)"
        using True sh(3,5) w2(2) ca by (linarith | simp)+
      from rb_WriteTo_exit_spec [OF assms(1,2) this, of e2 s2]
      obtain rb' where x: "rb_WriteTo_exit (int (m + k)) e2 (rb\<lparr>rb_r := int k\<rparr>) s2 =
          Some (int (m + k), if e2 \<noteq> None then e2 else if rb_contents rb' = [] then None else Some ErrShortWrite, rb', s2)"
          "rb_ok rb'" "rb_contents rb' = drop (m + k) (c @ a)"
        unfolding ca nat_int by blast
      have "rb_WriteTo script_write rb s = rb_WriteTo_exit (int (m + k)) e2 (rb\<lparr>rb_r := int k\<rparr>) s2"
        using w w2 sh adv [OF w(2)] big assms(2) True by (simp add: rb_WriteTo_def Let_def)
      then show ?thesis using x w w2 ca True by (intro exI [of _ "m + k"]) auto
    next
      case False
      define rb' where "rb' = rb\<lparr>rb_r := (if rb_r rb + int m < rb_size rb then rb_r rb + int m else 0)\<rparr>"
      have "rb_WriteTo script_write rb s = Some (int m, if e \<noteq> None then e else Some ErrShortWrite, rb', s')"
        using w sh adv [OF w(2)] big assms(2) False by (auto simp: rb_WriteTo_def Let_def rb'_def)
      moreover have "rb_ok rb' \<and> rb_contents rb' = drop m (c @ a)"
      proof (cases "m = length c")
        case True
        have "straight rb' [] a (b @ c)" using wrapped True \<open>a \<noteq> []\<close>
          by (auto simp: straight_def wrapped_def rb'_def)
        then show ?thesis using straight_contents [of rb' "[]" a "b @ c"] straight_ok [of rb' "[]" a "b @ c"]
            wrapped True assms(1) by (auto simp: wrapped_def rb'_def rb_ok_def)
      next
        case False
        have wr: "wrapped rb' a (b @ take m c) (drop m c)" using wrapped False w(2)
          by (auto simp: wrapped_def rb'_def)
        have "length (rb_bs rb') = 2" "rb_size rb' \<le> 2 ^ 61" using assms(1) by (auto simp: rb'_def rb_ok_def)
        then show ?thesis using wrapped_contents [OF wr] wrapped_ok [OF wr] w(2) by simp
      qed
      ultimately show ?thesis using w ca False
        by (intro exI [of _ m] exI [of _ "if e \<noteq> None then e else Some ErrShortWrite"] exI [of _ rb'] exI [of _ s'])
          (auto simp: min_def)
    qed
  qed
qed

text \<open>
  \<open>WriteTo\<close> hands the writer the unread bytes in order and removes exactly those the
  writer took, for every writer: partial writes, errors at any point, the two calls of wrapped
  contents. It reports no error only when the buffer is drained. A full buffer whose pointers
  are at 0 is left out.
\<close>

theorem rb_WriteTo_transfers:
  assumes "rb_ok rb" and "rb_contents rb \<noteq> []" and "rb_r rb \<noteq> 0 \<or> rb_w rb \<noteq> 0"
  shows "\<exists>n e rb' s'. rb_WriteTo script_write rb s = Some (int n, e, rb', s') \<and> n \<le> length (rb_contents rb) \<and>
    snd s' = snd s @ take n (rb_contents rb) \<and> rb_ok rb' \<and> rb_Bytes rb' = Some (drop n (rb_contents rb)) \<and>
    (e = None \<longrightarrow> rb_IsEmpty rb')"
proof -
  have "\<not> rb_isEmpty rb" using assms(1,2) by (simp add: rb_IsEmpty_contents)
  from rb_WriteTo_spec [OF assms(1) this assms(3)] obtain n e rb' s' where
    x: "rb_WriteTo script_write rb s = Some (int n, e, rb', s')" "n \<le> length (rb_contents rb)"
      "snd s' = snd s @ take n (rb_contents rb)" "rb_ok rb'" "rb_contents rb' = drop n (rb_contents rb)"
      "e = None \<longrightarrow> rb_contents rb' = []"
    by blast
  then have "e = None \<longrightarrow> rb_IsEmpty rb'"
    by (auto simp: rb_IsEmpty_def rb_IsEmpty_contents)
  with x show ?thesis using rb_Bytes_spec [OF x(4)] by (intro exI [of _ n] exI [of _ e]) auto
qed

theorem rb_WriteTo_transfers_witness:
  "let rb = \<lparr>rb_bs = [[], []], rb_buf = \<lparr>sdata = [3, 9, 1, 2], sspare = []\<rparr>, rb_size = 4, rb_r = 2,
       rb_w = 1, rb_isEmpty = False\<rparr>; s = ([(2, None), (0, Some EAGAIN)], []) in
   \<exists>n e rb' s'. rb_WriteTo script_write rb s = Some (int n, e, rb', s') \<and> n \<le> length (rb_contents rb) \<and>
    snd s' = snd s @ take n (rb_contents rb) \<and> rb_ok rb' \<and> rb_Bytes rb' = Some (drop n (rb_contents rb)) \<and>
    (e = None \<longrightarrow> rb_IsEmpty rb')"
  unfolding Let_def
  by (rule rb_WriteTo_transfers) (simp_all add: rb_ok_def slen_def rb_contents_def)

text \<open>
  The case left out above. When the buffer is full with both pointers at 0 and the writer
  takes nothing (a socket that would block), the unchanged read pointer equals the write
  pointer, \<open>WriteTo\<close> takes that for drained and resets the buffer: every byte is lost.
\<close>

theorem rb_WriteTo_full_loses_all:
  assumes "rb_ok rb" and "rb_IsFull rb" and "rb_r rb = 0"
  shows "\<exists>rb'. rb_WriteTo script_write rb ((0, Some e) # xs, out) = Some (0, Some e, rb', (xs, out)) \<and>
    rb_Buffered rb = rb_Cap rb \<and> 0 < rb_Cap rb \<and> rb_Buffered rb' = 0"
proof -
  have r: "rb_w rb = 0" "\<not> rb_isEmpty rb" "0 < rb_size rb" "slen (rb_buf rb) = rb_size rb"
    using assms by (auto simp: rb_ok_def rb_IsFull_def)
  then have "rb_WriteTo script_write rb ((0, Some e) # xs, out) = Some (0, Some e, rb_Reset rb, (xs, out))"
    using assms(3) by (simp add: rb_WriteTo_def Let_def slice_simps rb_WriteTo_exit_def)
  then show ?thesis using r assms(3) by (simp add: rb_Buffered_def rb_Cap_def rb_Reset_def)
qed

theorem rb_WriteTo_full_loses_all_witness:
  "let rb = \<lparr>rb_bs = [[], []], rb_buf = \<lparr>sdata = [1, 2], sspare = []\<rparr>, rb_size = 2, rb_r = 0,
       rb_w = 0, rb_isEmpty = False\<rparr> in
   \<exists>rb'. rb_WriteTo script_write rb ([(0, Some EAGAIN)], []) = Some (0, Some EAGAIN, rb', ([], [])) \<and>
    rb_Buffered rb = rb_Cap rb \<and> 0 < rb_Cap rb \<and> rb_Buffered rb' = 0"
  unfolding Let_def
  by (rule rb_WriteTo_full_loses_all) (simp_all add: rb_ok_def slen_def rb_IsFull_def)

section \<open>CopyFromSocket\<close>

lemma read_into_sock:
  assumes "sdata b = x @ v @ y" and "lo = int (length x)" and "hi = int (length x + length v)"
    and "g = sock_gets s (length v)"
  shows "\<exists>s'. read_into sock_read b lo hi s =
      Some (if sock_err s = None then int (length g) else -1, sock_err s,
        b\<lparr>sdata := x @ g @ drop (length g) v @ y\<rparr>, s')"
proof -
  have v: "sview b lo hi = Some v" using assms by (simp add: slice_simps slen_def)
  have le: "length g \<le> length v" using length_sock_gets assms(4) by auto
  obtain s' where r: "sock_read s v = Some (if sock_err s = None then int (length g) else -1, sock_err s,
      g @ drop (length g) v, s')"
    using sock_read_spec [of s v] assms(4) by blast
  have "scopy_at b lo (g @ drop (length g) v) = Some (b\<lparr>sdata := x @ g @ drop (length g) v @ y\<rparr>)"
    using assms le by (simp add: slice_simps slen_def)
  then show ?thesis using v r by (auto simp: read_into_def)
qed

lemma sock_gets_err: "sock_err s \<noteq> None \<Longrightarrow> sock_gets s k = []"
  by (cases s rule: sock_err.cases) auto

text \<open>The count tells the program what it needs: positive exactly when bytes arrived.\<close>

lemma sock_count:
  assumes "g = sock_gets s k"
  shows "(0 < (if sock_err s = None then int (length g) else -1)) = (g \<noteq> [])"
    and "g \<noteq> [] \<Longrightarrow> (if sock_err s = None then int (length g) else -1) = int (length g)"
  using assms sock_gets_err [of s k] by (cases "sock_err s"; auto)+

text \<open>Reading behind straight contents, and into the gap of wrapped contents.\<close>

definition copied :: "ring \<Rightarrow> ring \<Rightarrow> byte list \<Rightarrow> bool" where
  "copied rb rb' g \<longleftrightarrow> rb_ok rb' \<and> rb_contents rb' = rb_contents rb @ g"

lemma sock_fill_straight:
  assumes "straight rb [] b c" and "length (rb_bs rb) = 2" and "rb_size rb \<le> 2 ^ 61" and "c \<noteq> [] \<or> rb_size rb = 0"
    and "g = sock_gets s (length c)"
  shows "\<exists>w' s'. read_into sock_read (rb_buf rb) (rb_w rb) (slen (rb_buf rb)) s =
      Some (if sock_err s = None then int (length g) else -1, sock_err s,
        (rb_buf rb)\<lparr>sdata := b @ g @ drop (length g) c\<rparr>, s') \<and>
    (g \<noteq> [] \<longrightarrow> go_mod (rb_w rb + int (length g)) (rb_size rb) = Some w') \<and>
    copied rb (rb\<lparr>rb_buf := (rb_buf rb)\<lparr>sdata := b @ g @ drop (length g) c\<rparr>,
      rb_w := if g \<noteq> [] then w' else rb_w rb, rb_isEmpty := (if g \<noteq> [] then False else rb_isEmpty rb)\<rparr>) g"
proof -
  have sh: "sdata (rb_buf rb) = b @ c @ []" "rb_w rb = int (length b)" "slen (rb_buf rb) = int (length b + length c)"
    using assms(1) by (auto simp: straight_def slen_def)
  obtain s' where r: "read_into sock_read (rb_buf rb) (rb_w rb) (slen (rb_buf rb)) s =
      Some (if sock_err s = None then int (length g) else -1, sock_err s,
        (rb_buf rb)\<lparr>sdata := b @ g @ drop (length g) c\<rparr>, s')"
    using read_into_sock [OF sh assms(5)] by auto
  have b: "rb_contents rb = b" using assms(1) by (rule straight_contents)
  show ?thesis
  proof (cases "g = []")
    case True
    have "straight (rb\<lparr>rb_buf := (rb_buf rb)\<lparr>sdata := b @ c\<rparr>\<rparr>) [] b c" using assms(1) by (simp add: straight_def)
    then have "copied rb (rb\<lparr>rb_buf := (rb_buf rb)\<lparr>sdata := b @ c\<rparr>\<rparr>) []"
      using straight_ok straight_contents assms(2-4) b by (fastforce simp: copied_def)
    then show ?thesis using r True by simp
  next
    case False
    have le: "length g \<le> length c" using length_sock_gets assms(5) by auto
    then have c: "c \<noteq> []" using False by auto
    define rb' where "rb' w = rb\<lparr>rb_buf := (rb_buf rb)\<lparr>sdata := b @ g @ drop (length g) c\<rparr>,
        rb_isEmpty := False, rb_w := w\<rparr>" for w
    obtain w where w: "go_mod (rb_w rb + int (length g)) (rb_size rb) = Some w"
      "if length g < length c then straight (rb' w) [] (b @ g) (drop (length g) c)
       else wrapped (rb' w) [] [] (b @ g)" "rb_contents (rb' w) = b @ g"
      using straight_filled [OF assms(1) le _ c] False unfolding Let_def rb'_def [symmetric] by blast
    have fr: "length (rb_bs (rb' w)) = 2" "rb_size (rb' w) \<le> 2 ^ 61" using assms(2,3) by (auto simp: rb'_def)
    have "rb_ok (rb' w)"
    proof (cases "length g < length c")
      case True
      then have "straight (rb' w) [] (b @ g) (drop (length g) c)" "drop (length g) c \<noteq> []" using w(2) by auto
      then show ?thesis using straight_ok fr by blast
    next
      case False
      then have "wrapped (rb' w) [] [] (b @ g)" using w(2) by simp
      then show ?thesis using wrapped_ok fr by blast
    qed
    moreover have "rb\<lparr>rb_buf := (rb_buf rb)\<lparr>sdata := b @ g @ drop (length g) c\<rparr>, rb_w := w, rb_isEmpty := False\<rparr> = rb' w"
      by (simp add: rb'_def)
    ultimately show ?thesis using r w(1,3) b False by (auto simp: copied_def)
  qed
qed

lemma sock_fill_gap:
  assumes "wrapped rb a b c" and "length (rb_bs rb) = 2" and "rb_size rb \<le> 2 ^ 61"
    and "g = sock_gets s (length b)"
  shows "\<exists>s'. read_into sock_read (rb_buf rb) (rb_w rb) (rb_r rb) s =
      Some (if sock_err s = None then int (length g) else -1, sock_err s,
        (rb_buf rb)\<lparr>sdata := a @ g @ drop (length g) b @ c\<rparr>, s') \<and>
    go_mod (rb_w rb + int (length g)) (rb_size rb) = Some (rb_w rb + int (length g)) \<and>
    copied rb (rb\<lparr>rb_buf := (rb_buf rb)\<lparr>sdata := a @ g @ drop (length g) b @ c\<rparr>,
      rb_w := rb_w rb + int (length g)\<rparr>) g"
proof -
  have sh: "sdata (rb_buf rb) = a @ b @ c" "rb_w rb = int (length a)" "rb_r rb = int (length a + length b)"
    "rb_size rb = int (length a + length b + length c)" "0 < length c"
    using assms(1) by (auto simp: wrapped_def)
  have le: "length g \<le> length b" using length_sock_gets assms(4) by auto
  define rb' where "rb' = rb\<lparr>rb_buf := (rb_buf rb)\<lparr>sdata := a @ g @ drop (length g) b @ c\<rparr>,
      rb_w := rb_w rb + int (length g)\<rparr>"
  have "wrapped rb' (a @ g) (drop (length g) b) c" using assms(1) le by (auto simp: wrapped_def rb'_def)
  from wrapped_contents [OF this] wrapped_ok [OF this] have "copied rb rb' g"
    using assms(1-3) wrapped_contents [OF assms(1)] by (simp add: copied_def rb'_def)
  moreover have "go_mod (rb_w rb + int (length g)) (rb_size rb) = Some (rb_w rb + int (length g))"
    using sh(2,4,5) le by (intro go_mod_less) linarith+
  ultimately show ?thesis using read_into_sock [OF sh(1-3) assms(4)] by (auto simp: rb'_def)
qed

text \<open>The vectored read: behind the contents first, then before the read pointer.\<close>

lemma sock_fill_both:
  assumes st: "straight rb a b c" and "length (rb_bs rb) = 2" and "rb_size rb \<le> 2 ^ 61" and c: "c \<noteq> []"
    and b: "b \<noteq> []" and g: "g = sock_gets s (length c + length a)"
    and u: "u = take (length c) (g @ drop (length g) (c @ a))" and v: "v = drop (length c) (g @ drop (length g) (c @ a))"
  shows "\<exists>w' s'. sock_readv s [c, a] =
      Some (if sock_err s = None then int (length g) else -1, sock_err s, [u, v], s') \<and>
    scopy_at (rb_buf rb) (rb_w rb) u = Some ((rb_buf rb)\<lparr>sdata := a @ b @ u\<rparr>) \<and>
    scopy_at ((rb_buf rb)\<lparr>sdata := a @ b @ u\<rparr>) 0 v = Some ((rb_buf rb)\<lparr>sdata := v @ b @ u\<rparr>) \<and>
    (g \<noteq> [] \<longrightarrow> go_mod (rb_w rb + int (length g)) (rb_size rb) = Some w') \<and>
    copied rb (rb\<lparr>rb_bs := [u, v], rb_buf := (rb_buf rb)\<lparr>sdata := v @ b @ u\<rparr>,
      rb_w := if g \<noteq> [] then w' else rb_w rb\<rparr>) g"
proof -
  have le: "length g \<le> length c + length a" using length_sock_gets g by auto
  have len: "length u = length c" "length v = length a" using u v le by auto
  obtain s' where "sock_read s (c @ a) = Some (if sock_err s = None then int (length g) else -1, sock_err s,
      g @ drop (length g) (c @ a), s')"
    using sock_read_spec [of s "c @ a"] g by auto
  then have rv: "sock_readv s [c, a] =
      Some (if sock_err s = None then int (length g) else -1, sock_err s, [u, v], s')"
    using len u v le by (simp add: sock_readv_def)
  have sh: "sdata (rb_buf rb) = a @ b @ c" "rb_w rb = int (length a + length b)" "rb_r rb = int (length a)"
    "rb_size rb = int (length a + length b + length c)" "\<not> rb_isEmpty rb" "0 < length c" "0 < length b"
    using st b c by (auto simp: straight_def)
  have cp: "scopy_at (rb_buf rb) (rb_w rb) u = Some ((rb_buf rb)\<lparr>sdata := a @ b @ u\<rparr>)"
    "scopy_at ((rb_buf rb)\<lparr>sdata := a @ b @ u\<rparr>) 0 v = Some ((rb_buf rb)\<lparr>sdata := v @ b @ u\<rparr>)"
    using sh len blit_middle [of "c" u _ "a @ b" "[]"] blit_middle [of a v 0 "[]" "b @ u"]
    by (simp_all add: slice_simps slen_def nat_add_distrib)
  define w' where "w' = (if length g < length c then rb_w rb + int (length g) else int (length g - length c))"
  have gm: "go_mod (rb_w rb + int (length g)) (rb_size rb) = Some w'"
  proof (cases "length g < length c")
    case True
    then show ?thesis using sh(2,4) by (simp add: w'_def slice_simps)
  next
    case False
    have "0 < rb_size rb" "rb_size rb \<le> rb_w rb + int (length g)" "rb_w rb + int (length g) < 2 * rb_size rb"
      using sh(2,4,6,7) le False by linarith+
    then have "go_mod (rb_w rb + int (length g)) (rb_size rb) = Some (rb_w rb + int (length g) - rb_size rb)"
      by (rule go_mod_wrap)
    then show ?thesis using False sh(2,4) by (simp add: w'_def of_nat_diff)
  qed
  define rb' where "rb' = rb\<lparr>rb_bs := [u, v], rb_buf := (rb_buf rb)\<lparr>sdata := v @ b @ u\<rparr>, rb_w := w'\<rparr>"
  have w0: "g = [] \<Longrightarrow> w' = rb_w rb" using sh(6) by (simp add: w'_def)
  have "copied rb rb' g"
  proof (cases "length g < length c")
    case True
    have "straight rb' a (b @ g) (drop (length g) c)" "drop (length g) c \<noteq> []"
      using st True b u v by (auto simp: straight_def rb'_def w'_def)
    from straight_contents [OF this(1)] straight_ok [OF this(1)] this(2) show ?thesis
      using assms(3) straight_contents [OF st] by (simp add: copied_def rb'_def)
  next
    case False
    have "wrapped rb' (drop (length c) g) (drop (length g - length c) a) (b @ take (length c) g)"
      using st False b c u v le by (auto simp: straight_def wrapped_def rb'_def w'_def)
    from wrapped_contents [OF this] wrapped_ok [OF this] show ?thesis
      using assms(3) straight_contents [OF st] by (simp add: copied_def rb'_def)
  qed
  moreover have "rb\<lparr>rb_bs := [u, v], rb_buf := (rb_buf rb)\<lparr>sdata := v @ b @ u\<rparr>,
      rb_w := if g \<noteq> [] then w' else rb_w rb\<rparr> = rb'"
    using w0 by (auto simp: rb'_def)
  ultimately show ?thesis using rv cp gm by auto
qed

lemma rb_CopyFromSocket_spec:
  assumes "rb_ok rb" and "pool_ok pool" and "rb_size rb \<le> 2 ^ 59"
  shows "\<exists>room pool' rb' s'. rb_CopyFromSocket sock_read sock_readv pool rb s =
      Some (if sock_err s = None then int (length (sock_gets s room)) else -1, sock_err s, pool', rb', s') \<and>
    pool_ok pool' \<and> copied rb rb' (sock_gets s room) \<and> (rb_size rb \<noteq> 0 \<longrightarrow> 0 < room)"
proof -
  have fr: "length (rb_bs rb) = 2" "rb_size rb \<le> 2 ^ 61" using assms by (auto simp: rb_ok_def)
  consider (full) "rb_r rb = rb_w rb" "\<not> rb_isEmpty rb" | (empty) "rb_r rb = rb_w rb" "rb_isEmpty rb"
    | (gap) "rb_w rb < rb_r rb" | (both) "rb_r rb < rb_w rb" by linarith
  then show ?thesis
  proof cases
    case full
    have sz: "0 < rb_size rb" using assms(1) full by (auto simp: rb_ok_def slen_def)
    define cap where "cap = rb_size rb + rb_size rb div 2"
    have "0 \<le> rb_size rb div 2" "rb_size rb div 2 \<le> rb_size rb" using sz by auto
    then have cap: "0 < cap" "cap \<le> 2 * rb_size rb" using sz by (simp_all add: cap_def)
    obtain m where m: "rb_newCap (rb_size rb) cap = Some m" "cap \<le> m" "rb_size rb \<le> m"
        "m \<le> max 8192 (max (rb_size rb) (2 * cap))"
      using rb_newCap_spec [of "rb_size rb" cap] sz assms(3) cap by auto
    have gt: "rb_size rb < m"
    proof (cases "rb_size rb = 1")
      case True
      then show ?thesis using m(1)
        by (auto simp: cap_def rb_newCap_def bufferGrowThreshold_def)
    next
      case False
      then show ?thesis using sz m(2) by (auto simp: cap_def)
    qed
    obtain pool' rb1 c where g: "rb_grow pool rb cap = Some (pool', rb1)" "pool_ok pool'"
        "straight rb1 [] (rb_contents rb) c" "rb_size rb1 = m" "rb_bs rb1 = rb_bs rb"
      using rb_grow_spec [OF assms(1,2) m(1)] gt sz by auto
    have "m = int (length (rb_contents rb) + length c)" using g(3,4) by (simp add: straight_def)
    then have c: "0 < length c" using gt contents_le_size [OF assms(1)] by auto
    have c1: "rb_contents rb1 = rb_contents rb" using g(3) by (rule straight_contents)
    have ne: "rb_isEmpty rb1 = False" using g(3) full rb_IsEmpty_contents [OF assms(1)] by (simp add: straight_def)
    have "length (rb_bs rb1) = 2" "rb_size rb1 \<le> 2 ^ 61" "c \<noteq> [] \<or> rb_size rb1 = 0"
      using fr g(4,5) m(4) assms(3) c by (auto simp: cap_def)
    from sock_fill_straight [OF g(3) this refl, of s] obtain w' s' where
      r: "read_into sock_read (rb_buf rb1) (rb_w rb1) (slen (rb_buf rb1)) s =
        Some (if sock_err s = None then int (length (sock_gets s (length c))) else -1, sock_err s,
          (rb_buf rb1)\<lparr>sdata := rb_contents rb @ sock_gets s (length c) @ drop (length (sock_gets s (length c))) c\<rparr>, s')"
        "sock_gets s (length c) \<noteq> [] \<longrightarrow> go_mod (rb_w rb1 + int (length (sock_gets s (length c)))) (rb_size rb1) = Some w'"
        "copied rb1 (rb1\<lparr>rb_buf := (rb_buf rb1)\<lparr>sdata := rb_contents rb @ sock_gets s (length c) @
            drop (length (sock_gets s (length c))) c\<rparr>,
          rb_w := if sock_gets s (length c) \<noteq> [] then w' else rb_w rb1,
          rb_isEmpty := (if sock_gets s (length c) \<noteq> [] then False else rb_isEmpty rb1)\<rparr>) (sock_gets s (length c))"
      by blast
    have eq: "rb1\<lparr>rb_buf := x, rb_w := w, rb_isEmpty := (if q then False else rb_isEmpty rb1)\<rparr> =
        rb1\<lparr>rb_buf := x, rb_w := w\<rparr>" for x w q using ne by auto
    show ?thesis
      using full g(1,2) r(1,2) r(3) [unfolded eq] sock_count [of "sock_gets s (length c)" s "length c"] c c1
      by (intro exI [of _ "length c"]) (auto simp: rb_CopyFromSocket_def cap_def [symmetric] copied_def Let_def)
  next
    case empty
    define rb1 where "rb1 = rb\<lparr>rb_r := 0, rb_w := 0\<rparr>"
    let ?c = "sdata (rb_buf rb)"
    have st: "straight rb1 [] [] ?c" using assms(1) empty by (auto simp: straight_def rb1_def rb_ok_def slen_def)
    have "rb_contents rb1 = []" "rb_contents rb = []"
      using straight_contents [OF st] empty rb_IsEmpty_contents [OF assms(1)] by auto
    have "length (rb_bs rb1) = 2" "rb_size rb1 \<le> 2 ^ 61" "?c \<noteq> [] \<or> rb_size rb1 = 0"
      using assms(1) by (auto simp: rb1_def rb_ok_def slen_def)
    from sock_fill_straight [OF st this refl, of s] obtain w' s' where
      r: "read_into sock_read (rb_buf rb) 0 (slen (rb_buf rb)) s =
        Some (if sock_err s = None then int (length (sock_gets s (length ?c))) else -1, sock_err s,
          (rb_buf rb)\<lparr>sdata := sock_gets s (length ?c) @ drop (length (sock_gets s (length ?c))) ?c\<rparr>, s')"
        "sock_gets s (length ?c) \<noteq> [] \<longrightarrow> go_mod (int (length (sock_gets s (length ?c)))) (rb_size rb) = Some w'"
        "copied rb1 (rb1\<lparr>rb_buf := (rb_buf rb1)\<lparr>sdata := sock_gets s (length ?c) @
            drop (length (sock_gets s (length ?c))) ?c\<rparr>,
          rb_w := if sock_gets s (length ?c) \<noteq> [] then w' else rb_w rb1,
          rb_isEmpty := (if sock_gets s (length ?c) \<noteq> [] then False else rb_isEmpty rb1)\<rparr>) (sock_gets s (length ?c))"
      by (auto simp: rb1_def)
    have "rb_size rb \<noteq> 0 \<longrightarrow> 0 < length ?c" using assms(1) by (auto simp: rb_ok_def slen_def)
    then show ?thesis
      using empty r sock_count [of "sock_gets s (length ?c)" s "length ?c"] assms(2)
        \<open>rb_contents rb1 = []\<close> \<open>rb_contents rb = []\<close>
      by (intro exI [of _ "length ?c"]) (auto simp: rb_CopyFromSocket_def rb1_def copied_def Let_def)
  next
    case gap
    from assms(1) obtain a b c where wr: "wrapped rb a b c"
      by (cases rule: ring_cases) (use gap in \<open>auto simp: straight_def\<close>)
    from sock_fill_gap [OF wr fr refl, of s] obtain s' where
      r: "read_into sock_read (rb_buf rb) (rb_w rb) (rb_r rb) s =
        Some (if sock_err s = None then int (length (sock_gets s (length b))) else -1, sock_err s,
          (rb_buf rb)\<lparr>sdata := a @ sock_gets s (length b) @ drop (length (sock_gets s (length b))) b @ c\<rparr>, s')"
        "go_mod (rb_w rb + int (length (sock_gets s (length b)))) (rb_size rb) =
          Some (rb_w rb + int (length (sock_gets s (length b))))"
        "copied rb (rb\<lparr>rb_buf := (rb_buf rb)\<lparr>sdata := a @ sock_gets s (length b) @
            drop (length (sock_gets s (length b))) b @ c\<rparr>,
          rb_w := rb_w rb + int (length (sock_gets s (length b)))\<rparr>) (sock_gets s (length b))"
      by blast
    have "0 < length b" using gap wr by (auto simp: wrapped_def)
    then show ?thesis
      using gap r sock_count [of "sock_gets s (length b)" s "length b"] assms(2)
      by (intro exI [of _ "length b"]) (auto simp: rb_CopyFromSocket_def Let_def)
  next
    case both
    from assms(1) obtain a b c where st: "straight rb a b c" "c \<noteq> [] \<or> rb_size rb = 0"
      by (cases rule: ring_cases) (use both in \<open>auto simp: wrapped_def\<close>)
    have ne: "b \<noteq> []" "c \<noteq> []" using both st by (auto simp: straight_def)
    have v: "sview_from (rb_buf rb) (rb_w rb) = Some c" "sview (rb_buf rb) 0 (rb_r rb) = Some a"
      using st by (auto simp: straight_def slice_simps slen_def nat_add_distrib)
    define g where "g = sock_gets s (length c + length a)"
    from sock_fill_both [OF st(1) fr ne(2,1) g_def refl refl] obtain w' s' u v where
      r: "sock_readv s [c, a] = Some (if sock_err s = None then int (length g) else -1, sock_err s, [u, v], s')"
        "scopy_at (rb_buf rb) (rb_w rb) u = Some ((rb_buf rb)\<lparr>sdata := a @ b @ u\<rparr>)"
        "scopy_at ((rb_buf rb)\<lparr>sdata := a @ b @ u\<rparr>) 0 v = Some ((rb_buf rb)\<lparr>sdata := v @ b @ u\<rparr>)"
        "g \<noteq> [] \<longrightarrow> go_mod (rb_w rb + int (length g)) (rb_size rb) = Some w'"
        "copied rb (rb\<lparr>rb_bs := [u, v], rb_buf := (rb_buf rb)\<lparr>sdata := v @ b @ u\<rparr>,
          rb_w := if g \<noteq> [] then w' else rb_w rb\<rparr>) g"
      by blast
    have "0 < length c + length a" using ne by simp
    then show ?thesis
      using both v r sock_count [OF g_def] assms(2)
      by (intro exI [of _ "length c + length a"]) (auto simp: rb_CopyFromSocket_def Readv_def Let_def g_def [symmetric])
  qed
qed

text \<open>
  \<open>CopyFromSocket\<close>, for every socket and every valid state of the buffer (full, empty,
  wrapped, or with free space on both sides, where it reads into two slices at once): what the
  system call delivered is appended in order and nothing else changes; the count and the error
  are the system call's. The buffer offers room, unless its size is 0.
\<close>

theorem rb_CopyFromSocket_appends:
  assumes "rb_ok rb" and "pool_ok pool" and "rb_size rb \<le> 2 ^ 59"
  shows "\<exists>room pool' rb' s'. rb_CopyFromSocket sock_read sock_readv pool rb s =
      Some (if sock_err s = None then int (length (sock_gets s room)) else -1, sock_err s, pool', rb', s') \<and>
    rb_ok rb' \<and> rb_Bytes rb' = Some (rb_contents rb @ sock_gets s room) \<and> (rb_Cap rb \<noteq> 0 \<longrightarrow> 0 < room)"
  using rb_CopyFromSocket_spec [OF assms, of s] rb_Bytes_spec by (fastforce simp: copied_def rb_Cap_def)

theorem rb_CopyFromSocket_appends_witness:
  "let rb = \<lparr>rb_bs = [[], []], rb_buf = \<lparr>sdata = [3, 9, 1, 2], sspare = []\<rparr>, rb_size = 4, rb_r = 1,
       rb_w = 3, rb_isEmpty = False\<rparr>; s = [Inl [7, 8, 9]] in
   \<exists>room pool' rb' s'. rb_CopyFromSocket sock_read sock_readv empty_bsPool rb s =
      Some (if sock_err s = None then int (length (sock_gets s room)) else -1, sock_err s, pool', rb', s') \<and>
    rb_ok rb' \<and> rb_Bytes rb' = Some (rb_contents rb @ sock_gets s room) \<and> (rb_Cap rb \<noteq> 0 \<longrightarrow> 0 < room)"
  unfolding Let_def by (rule rb_CopyFromSocket_appends) (simp_all add: rb_ok_def slen_def)

section \<open>Rewind\<close>

lemma rb_Rewind_copy:
  assumes "length v < length d" and "v \<noteq> []"
  shows "straight (rb\<lparr>rb_buf := (rb_buf rb)\<lparr>sdata := blit d 0 v\<rparr>, rb_r := 0, rb_w := int (length v),
      rb_size := int (length d), rb_isEmpty := False\<rparr>) [] v (drop (length v) d)"
  using assms by (simp add: straight_def blit_def)

text \<open>
  \<open>Rewind\<close> of a buffer whose contents do not wrap (an empty one, one whose write pointer
  is 0 or behind its read pointer) keeps the contents and the invariant; when it moves them,
  they start at index 0 afterwards. With wrapped contents (or a full buffer) and a write
  pointer within \<open>DefaultBufferSize\<close> of the end, see the next theorem.
\<close>

theorem rb_Rewind_keeps_contents:
  assumes "rb_ok rb" and "pool_ok pool" and "rb_size rb \<le> 2 ^ 58"
    and "rb_IsEmpty rb \<or> rb_w rb = 0 \<or> rb_r rb < rb_w rb"
  shows "\<exists>n pool' rb'. rb_Rewind pool rb = Some (n, pool', rb') \<and> rb_ok rb' \<and> rb_Bytes rb' = rb_Bytes rb \<and>
    (rb_r rb' = 0 \<or> rb' = rb)"
proof -
  have B: "rb_Bytes rb = Some (rb_contents rb)" using rb_Bytes_spec [OF assms(1)] .
  have grown: "\<exists>pool' rb'. rb_grow pool rb cap = Some (pool', rb') \<and> rb_ok rb' \<and> rb_r rb' = 0 \<and>
      rb_Bytes rb' = rb_Bytes rb"
    if cap: "rb_size rb < cap" "cap \<le> 2 * rb_size rb" for cap
  proof -
    have sz: "0 \<le> rb_size rb" using assms(1) by (auto simp: rb_ok_def slen_def)
    obtain m where m: "rb_newCap (rb_size rb) cap = Some m" "cap \<le> m" "rb_size rb \<le> m"
        "m \<le> max 8192 (max (rb_size rb) (2 * cap))"
      using rb_newCap_spec [of "rb_size rb" cap] sz cap assms(3) by auto
    obtain pool' rb1 c where g: "rb_grow pool rb cap = Some (pool', rb1)"
        "straight rb1 [] (rb_contents rb) c" "rb_size rb1 = m" "rb_bs rb1 = rb_bs rb"
      using rb_grow_spec [OF assms(1,2) m(1)] m(2,3) cap sz by auto
    have "m = int (length (rb_contents rb) + length c)" using g(2,3) by (simp add: straight_def)
    then have "c \<noteq> []" using contents_le_size [OF assms(1)] m(2) cap by auto
    moreover have "m \<le> 2 ^ 61" using m(4) cap assms(3) by auto
    ultimately have "rb_ok rb1" using g assms(1) by (intro straight_ok [OF g(2)]) (auto simp: rb_ok_def)
    then show ?thesis using g rb_Bytes_spec [of rb1] straight_contents [OF g(2)] B by (auto simp: straight_def)
  qed
  have moved: "rb_ok rb' \<and> rb_Bytes rb' = rb_Bytes rb"
    if "rb' = rb\<lparr>rb_buf := (rb_buf rb)\<lparr>sdata := blit (sdata (rb_buf rb)) 0 (rb_contents rb)\<rparr>, rb_r := 0,
      rb_w := int (length (rb_contents rb))\<rparr>" "rb_contents rb \<noteq> []"
      "length (rb_contents rb) < length (sdata (rb_buf rb))" for rb'
  proof -
    have e: "rb' = rb\<lparr>rb_buf := (rb_buf rb)\<lparr>sdata := blit (sdata (rb_buf rb)) 0 (rb_contents rb)\<rparr>, rb_r := 0,
        rb_w := int (length (rb_contents rb)), rb_size := int (length (sdata (rb_buf rb))), rb_isEmpty := False\<rparr>"
      using that(1,2) assms(1) rb_IsEmpty_contents [OF assms(1)] by (auto simp: rb_ok_def slen_def)
    have st: "straight rb' [] (rb_contents rb) (drop (length (rb_contents rb)) (sdata (rb_buf rb)))"
      unfolding e by (rule rb_Rewind_copy) (use that in auto)
    have "rb_ok rb'" using that assms(1) by (intro straight_ok [OF st]) (auto simp: rb_ok_def)
    then show ?thesis using rb_Bytes_spec [of rb'] straight_contents [OF st] B by simp
  qed
  show ?thesis
  proof (cases "rb_isEmpty rb")
    case True
    then show ?thesis using assms(1) B rb_IsEmpty_contents [OF assms(1)] rb_Bytes_spec [of "rb_Reset rb"]
      by (auto simp: rb_Rewind_def rb_IsEmpty_def) (simp add: rb_Reset_def)
  next
    case False
    have sz: "0 < rb_size rb" "rb_r rb < rb_size rb" "rb_w rb < rb_size rb" "0 \<le> rb_r rb"
      "slen (rb_buf rb) = rb_size rb" using assms(1) False by (auto simp: rb_ok_def)
    have len: "length (rb_contents rb) \<noteq> 0" using False rb_IsEmpty_contents [OF assms(1)] by simp
    show ?thesis
    proof (cases "rb_w rb = 0")
      case True
      have v: "sview_from (rb_buf rb) (rb_r rb) = Some (rb_contents rb)" "int (length (rb_contents rb)) = rb_size rb - rb_r rb"
        using True False sz by (auto simp: rb_contents_def Let_def slice_simps slen_def nat_diff_distrib)
      show ?thesis
      proof (cases "rb_r rb < rb_size rb - rb_r rb")
        case g: True
        then show ?thesis using grown [of "rb_size rb + rb_size rb - rb_r rb"] True False sz
          by (auto simp: rb_Rewind_def rb_IsEmpty_def)
      next
        case g: False
        then have "0 < rb_r rb" using sz by linarith
        then have "int (length (rb_contents rb)) < slen (rb_buf rb)" using v(2) sz(5) by linarith
        then have "length (rb_contents rb) < length (sdata (rb_buf rb))"
            "min (slen (rb_buf rb)) (int (length (rb_contents rb))) = int (length (rb_contents rb))"
          by (auto simp: slen_def)
        then show ?thesis
          using moved [OF refl] g True False v(1) len
          by (simp add: rb_Rewind_def rb_IsEmpty_def slice_simps Let_def)
      qed
    next
      case w: False
      then have lt: "rb_r rb < rb_w rb" using assms(4) False by (simp add: rb_IsEmpty_def)
      have v: "sview (rb_buf rb) (rb_r rb) (rb_w rb) = Some (rb_contents rb)"
          "int (length (rb_contents rb)) = rb_w rb - rb_r rb"
        using lt False sz by (auto simp: rb_contents_def Let_def slice_simps slen_def)
      consider "rb_size rb - rb_w rb < DefaultBufferSize" "rb_r rb < rb_w rb - rb_r rb"
        | "rb_size rb - rb_w rb < DefaultBufferSize" "\<not> rb_r rb < rb_w rb - rb_r rb"
        | "\<not> rb_size rb - rb_w rb < DefaultBufferSize" by blast
      then show ?thesis
      proof cases
        case 1
        then show ?thesis using grown [of "rb_size rb + rb_w rb - rb_r rb"] w False sz lt
          by (auto simp: rb_Rewind_def rb_IsEmpty_def)
      next
        case 2
        then show ?thesis
          using moved w False sz v len lt
          by (auto simp: rb_Rewind_def rb_IsEmpty_def slice_simps Let_def min_def slen_def)
      next
        case 3
        then show ?thesis using assms(1) w False by (simp add: rb_Rewind_def rb_IsEmpty_def)
      qed
    qed
  qed
qed

theorem rb_Rewind_keeps_contents_witness:
  "let rb = \<lparr>rb_bs = [[], []], rb_buf = \<lparr>sdata = [0, 5, 6, 7, 0], sspare = []\<rparr>, rb_size = 5, rb_r = 1,
       rb_w = 4, rb_isEmpty = False\<rparr> in
   \<exists>n pool' rb'. rb_Rewind empty_bsPool rb = Some (n, pool', rb') \<and> rb_ok rb' \<and> rb_Bytes rb' = rb_Bytes rb \<and>
    (rb_r rb' = 0 \<or> rb' = rb)"
  unfolding Let_def
  by (rule rb_Rewind_keeps_contents) (simp_all add: rb_ok_def slen_def)

text \<open>
  \<open>Rewind\<close> of wrapped contents panics when the write pointer is within
  \<open>DefaultBufferSize\<close> of the end: it slices from the read pointer down to the smaller write
  pointer. Every wrapped buffer of at most 1024 bytes is such a one.
\<close>

theorem rb_Rewind_wrapped_panics:
  assumes "\<not> rb_IsEmpty rb" and "0 < rb_w rb" and "rb_w rb < rb_r rb"
    and "rb_size rb - rb_w rb < DefaultBufferSize"
  shows "rb_Rewind pool rb = None"
  using assms by (simp add: rb_Rewind_def sview_def reslice_def)

theorem rb_Rewind_wrapped_panics_witness:
  "let rb = \<lparr>rb_bs = [[], []], rb_buf = \<lparr>sdata = [3, 9, 1, 2], sspare = []\<rparr>, rb_size = 4, rb_r = 2,
       rb_w = 1, rb_isEmpty = False\<rparr> in rb_ok rb \<and> rb_Rewind empty_bsPool rb = None"
  unfolding Let_def
  using rb_Rewind_wrapped_panics [of "\<lparr>rb_bs = [[], []], rb_buf = \<lparr>sdata = [3, 9, 1, 2], sspare = []\<rparr>,
     rb_size = 4, rb_r = 2, rb_w = 1, rb_isEmpty = False\<rparr>" empty_bsPool]
  by (simp add: rb_IsEmpty_def DefaultBufferSize_def rb_ok_def slen_def)

end
