(* ===== verification/LinkedList.thy ===== *)
theory LinkedList
  imports Byteslice ByteStream ScriptIO
begin

text \<open>
  \<open>pkg/buffer/linkedlist/linked_list_buffer.go\<close>: a queue of byte slices as a singly linked
  list with head and tail pointers. The nodes live in a heap, the pointers are addresses into
  it, and every operation mutates the heap as the code does. A dereference of an address
  without a node has no result. \<open>ll_chain\<close> says which addresses make up the list; the
  lemmas about \<open>pop\<close>, \<open>pushFront\<close> and \<open>pushBack\<close> are the only ones that look at
  pointers, everything above them sees a list of slices.
\<close>

section \<open>State\<close>

record node =
  nd_buf :: slice
  nd_next :: "nat option"

record llbuf =
  ll_bs :: "byte list list"
  ll_head :: "nat option"
  ll_tail :: "nat option"
  ll_size :: int
  ll_bytes :: int
  ll_heap :: "nat \<Rightarrow> node option"
  ll_fresh :: nat

definition ll_empty :: llbuf where
  "ll_empty = \<lparr>ll_bs = [], ll_head = None, ll_tail = None, ll_size = 0, ll_bytes = 0,
     ll_heap = (\<lambda>_. None), ll_fresh = 0\<rparr>"

definition minRead :: int where
  "minRead = 512"

definition node_len :: "node \<Rightarrow> int" where
  "node_len nd = slen (nd_buf nd)"

text \<open>\<open>&node{buf: s}\<close>, and the assignment \<open>b.buf = s\<close> to the node at an address.\<close>

definition ll_new :: "llbuf \<Rightarrow> slice \<Rightarrow> nat \<times> llbuf" where
  "ll_new b s = (ll_fresh b, b\<lparr>ll_heap := (ll_heap b)(ll_fresh b \<mapsto> \<lparr>nd_buf = s, nd_next = None\<rparr>),
     ll_fresh := Suc (ll_fresh b)\<rparr>)"

definition ll_setbuf :: "llbuf \<Rightarrow> nat \<Rightarrow> slice \<Rightarrow> llbuf option" where
  "ll_setbuf b a s =
     map_option (\<lambda>nd. b\<lparr>ll_heap := (ll_heap b)(a \<mapsto> nd\<lparr>nd_buf := s\<rparr>)\<rparr>) (ll_heap b a)"

section \<open>Operations\<close>

definition ll_pop :: "llbuf \<Rightarrow> (nat option \<times> llbuf) option" where
  "ll_pop llb =
     (case ll_head llb of
        None \<Rightarrow> Some (None, llb)
      | Some a \<Rightarrow>
          do {
            nd \<leftarrow> ll_heap llb a;
            let llb = llb\<lparr>ll_head := nd_next nd\<rparr>;
            let llb = (if ll_head llb = None then llb\<lparr>ll_tail := None\<rparr> else llb);
            let llb = llb\<lparr>ll_heap := (ll_heap llb)(a \<mapsto> nd\<lparr>nd_next := None\<rparr>)\<rparr>;
            Some (Some a, llb\<lparr>ll_size := ll_size llb - 1, ll_bytes := ll_bytes llb - node_len nd\<rparr>)
          })"

definition ll_pushFront :: "llbuf \<Rightarrow> nat option \<Rightarrow> llbuf option" where
  "ll_pushFront llb b =
     (case b of
        None \<Rightarrow> Some llb
      | Some a \<Rightarrow>
          do {
            nd \<leftarrow> ll_heap llb a;
            let llb = (if ll_head llb = None
                       then llb\<lparr>ll_heap := (ll_heap llb)(a \<mapsto> nd\<lparr>nd_next := None\<rparr>), ll_tail := Some a\<rparr>
                       else llb\<lparr>ll_heap := (ll_heap llb)(a \<mapsto> nd\<lparr>nd_next := ll_head llb\<rparr>)\<rparr>);
            Some (llb\<lparr>ll_head := Some a, ll_size := ll_size llb + 1, ll_bytes := ll_bytes llb + node_len nd\<rparr>)
          })"

definition ll_pushBack :: "llbuf \<Rightarrow> nat option \<Rightarrow> llbuf option" where
  "ll_pushBack llb b =
     (case b of
        None \<Rightarrow> Some llb
      | Some a \<Rightarrow>
          do {
            llb \<leftarrow> (case ll_tail llb of
                None \<Rightarrow> Some (llb\<lparr>ll_head := Some a\<rparr>)
              | Some t \<Rightarrow> map_option (\<lambda>tn. llb\<lparr>ll_heap := (ll_heap llb)(t \<mapsto> tn\<lparr>nd_next := Some a\<rparr>)\<rparr>)
                  (ll_heap llb t));
            nd \<leftarrow> ll_heap llb a;
            let llb = llb\<lparr>ll_heap := (ll_heap llb)(a \<mapsto> nd\<lparr>nd_next := None\<rparr>), ll_tail := Some a\<rparr>;
            Some (llb\<lparr>ll_size := ll_size llb + 1, ll_bytes := ll_bytes llb + node_len nd\<rparr>)
          })"

text \<open>The loop of \<open>Read\<close>: pop, copy, give the rest of the node back or recycle it.\<close>

partial_function (option) ll_Read_loop ::
  "bsPool \<Rightarrow> llbuf \<Rightarrow> byte list \<Rightarrow> int \<Rightarrow> (int \<times> byte list \<times> bsPool \<times> llbuf) option" where
  "ll_Read_loop pool llb p n =
     do {
       (b, llb) \<leftarrow> ll_pop llb;
       case b of
         None \<Rightarrow> Some (n, p, pool, llb)
       | Some a \<Rightarrow>
           do {
             nd \<leftarrow> ll_heap llb a;
             dst \<leftarrow> lview p n (int (length p));
             p \<leftarrow> lcopy_at p n (sdata (nd_buf nd));
             let m = copy_count dst (sdata (nd_buf nd));
             (pool, llb) \<leftarrow>
               (if m < node_len nd then
                  do {
                    s \<leftarrow> reslice (nd_buf nd) m (slen (nd_buf nd));
                    llb \<leftarrow> ll_setbuf llb a s;
                    llb \<leftarrow> ll_pushFront llb (Some a);
                    Some (pool, llb)
                  }
                else Some (bs_Put pool (nd_buf nd), llb));
             if n + m = int (length p) then Some (n + m, p, pool, llb)
             else ll_Read_loop pool llb p (n + m)
           }
     }"

definition ll_Read :: "bsPool \<Rightarrow> llbuf \<Rightarrow> byte list \<Rightarrow> (int \<times> goerror option \<times> byte list \<times> bsPool \<times> llbuf) option" where
  "ll_Read pool llb p =
     (if length p = 0 then Some (0, None, p, pool, llb)
      else map_option (\<lambda>(n, p, pool, llb). (n, None, p, pool, llb)) (ll_Read_loop pool llb p 0))"

definition ll_PushFront :: "bsPool \<Rightarrow> llbuf \<Rightarrow> byte list \<Rightarrow> (bsPool \<times> llbuf) option" where
  "ll_PushFront pool llb p =
     (if length p = 0 then Some (pool, llb)
      else do {
        (b, pool) \<leftarrow> bs_Get pool (int (length p));
        b \<leftarrow> scopy_at b 0 p;
        let (a, llb) = ll_new llb b;
        llb \<leftarrow> ll_pushFront llb (Some a);
        Some (pool, llb)
      })"

definition ll_PushBack :: "bsPool \<Rightarrow> llbuf \<Rightarrow> byte list \<Rightarrow> (bsPool \<times> llbuf) option" where
  "ll_PushBack pool llb p =
     (if length p = 0 then Some (pool, llb)
      else do {
        (b, pool) \<leftarrow> bs_Get pool (int (length p));
        b \<leftarrow> scopy_at b 0 p;
        let (a, llb) = ll_new llb b;
        llb \<leftarrow> ll_pushBack llb (Some a);
        Some (pool, llb)
      })"

text \<open>The iteration of \<open>Peek\<close> over the nodes, appending their slices.\<close>

partial_function (option) ll_Peek_loop ::
  "(nat \<Rightarrow> node option) \<Rightarrow> nat option \<Rightarrow> int \<Rightarrow> int \<Rightarrow> byte list list \<Rightarrow> byte list list option" where
  "ll_Peek_loop heap iter maxBytes cum bs =
     (case iter of
        None \<Rightarrow> Some bs
      | Some a \<Rightarrow>
          do {
            nd \<leftarrow> heap a;
            if cum + node_len nd \<ge> maxBytes then Some (bs @ [sdata (nd_buf nd)])
            else ll_Peek_loop heap (nd_next nd) maxBytes (cum + node_len nd) (bs @ [sdata (nd_buf nd)])
          })"

definition ll_Peek :: "llbuf \<Rightarrow> int \<Rightarrow> (byte list list \<times> llbuf) option" where
  "ll_Peek llb maxBytes =
     (let maxBytes = (if maxBytes \<le> 0 then MaxInt32 else maxBytes) in
      do {
        bs \<leftarrow> ll_Peek_loop (ll_heap llb) (ll_head llb) maxBytes 0 [];
        Some (bs, llb\<lparr>ll_bs := bs\<rparr>)
      })"

text \<open>
  The loop of \<open>PeekWithBytes\<close> over its extra slices: \<open>Inl\<close> when they already reach the
  bound, \<open>Inr\<close> with the count otherwise.
\<close>

fun ll_Peek_given :: "byte list list \<Rightarrow> int \<Rightarrow> int \<Rightarrow> byte list list \<Rightarrow> byte list list + (int \<times> byte list list)" where
  "ll_Peek_given [] maxBytes cum acc = Inr (cum, acc)"
| "ll_Peek_given (b # bs) maxBytes cum acc =
     (if int (length b) > 0 then
        if cum + int (length b) \<ge> maxBytes then Inl (acc @ [b])
        else ll_Peek_given bs maxBytes (cum + int (length b)) (acc @ [b])
      else ll_Peek_given bs maxBytes cum acc)"

definition ll_PeekWithBytes :: "llbuf \<Rightarrow> int \<Rightarrow> byte list list \<Rightarrow> (byte list list \<times> llbuf) option" where
  "ll_PeekWithBytes llb maxBytes bs =
     (let maxBytes = (if maxBytes \<le> 0 then MaxInt32 else maxBytes) in
      case ll_Peek_given bs maxBytes 0 [] of
        Inl out \<Rightarrow> Some (out, llb\<lparr>ll_bs := out\<rparr>)
      | Inr (cum, acc) \<Rightarrow>
          do {
            out \<leftarrow> ll_Peek_loop (ll_heap llb) (ll_head llb) maxBytes cum acc;
            Some (out, llb\<lparr>ll_bs := out\<rparr>)
          })"

partial_function (option) ll_Discard_loop ::
  "bsPool \<Rightarrow> llbuf \<Rightarrow> int \<Rightarrow> int \<Rightarrow> (int \<times> bsPool \<times> llbuf) option" where
  "ll_Discard_loop pool llb n discarded =
     (if n \<noteq> 0 then
        do {
          (b, llb) \<leftarrow> ll_pop llb;
          case b of
            None \<Rightarrow> Some (discarded, pool, llb)
          | Some a \<Rightarrow>
              do {
                nd \<leftarrow> ll_heap llb a;
                if n < node_len nd then
                  do {
                    s \<leftarrow> reslice (nd_buf nd) n (slen (nd_buf nd));
                    llb \<leftarrow> ll_setbuf llb a s;
                    llb \<leftarrow> ll_pushFront llb (Some a);
                    Some (discarded + n, pool, llb)
                  }
                else ll_Discard_loop (bs_Put pool (nd_buf nd)) llb (n - node_len nd) (discarded + node_len nd)
              }
        }
      else Some (discarded, pool, llb))"

definition ll_Discard :: "bsPool \<Rightarrow> llbuf \<Rightarrow> int \<Rightarrow> (int \<times> goerror option \<times> bsPool \<times> llbuf) option" where
  "ll_Discard pool llb n =
     (if n \<le> 0 then Some (0, None, pool, llb)
      else map_option (\<lambda>(d, pool, llb). (d, None, pool, llb)) (ll_Discard_loop pool llb n 0))"

partial_function (option) ll_ReadFrom_loop ::
  "'s reader \<Rightarrow> bsPool \<Rightarrow> llbuf \<Rightarrow> 's \<Rightarrow> int \<Rightarrow> (int \<times> goerror option \<times> bsPool \<times> llbuf \<times> 's) option" where
  "ll_ReadFrom_loop rd pool llb r n =
     do {
       (b, pool) \<leftarrow> bs_Get pool minRead;
       (m, err, p, r) \<leftarrow> rd r (sdata b);
       if m < 0 then None
       else do {
         b \<leftarrow> reslice (b\<lparr>sdata := p\<rparr>) 0 m;
         if err = Some EOF then Some (n + m, None, bs_Put pool b, llb, r)
         else if err \<noteq> None then Some (n + m, err, bs_Put pool b, llb, r)
         else do {
           llb \<leftarrow> (case ll_new llb b of (a, llb) \<Rightarrow> ll_pushBack llb (Some a));
           ll_ReadFrom_loop rd pool llb r (n + m)
         }
       }
     }"

definition ll_ReadFrom ::
  "'s reader \<Rightarrow> bsPool \<Rightarrow> llbuf \<Rightarrow> 's \<Rightarrow> (int \<times> goerror option \<times> bsPool \<times> llbuf \<times> 's) option" where
  "ll_ReadFrom rd pool llb r = ll_ReadFrom_loop rd pool llb r 0"

partial_function (option) ll_WriteTo_loop ::
  "'s writer \<Rightarrow> bsPool \<Rightarrow> llbuf \<Rightarrow> 's \<Rightarrow> int \<Rightarrow> (int \<times> goerror option \<times> bsPool \<times> llbuf \<times> 's) option" where
  "ll_WriteTo_loop wt pool llb w n =
     do {
       (b, llb) \<leftarrow> ll_pop llb;
       case b of
         None \<Rightarrow> Some (n, None, pool, llb, w)
       | Some a \<Rightarrow>
           do {
             nd \<leftarrow> ll_heap llb a;
             (m, err, w) \<leftarrow> wt w (sdata (nd_buf nd));
             if m > node_len nd then None
             else if err \<noteq> None then Some (n + m, err, pool, llb, w)
             else if m < node_len nd then
               do {
                 s \<leftarrow> reslice (nd_buf nd) m (slen (nd_buf nd));
                 llb \<leftarrow> ll_setbuf llb a s;
                 llb \<leftarrow> ll_pushFront llb (Some a);
                 Some (n + m, Some ErrShortWrite, pool, llb, w)
               }
             else ll_WriteTo_loop wt (bs_Put pool (nd_buf nd)) llb w (n + m)
           }
     }"

definition ll_WriteTo ::
  "'s writer \<Rightarrow> bsPool \<Rightarrow> llbuf \<Rightarrow> 's \<Rightarrow> (int \<times> goerror option \<times> bsPool \<times> llbuf \<times> 's) option" where
  "ll_WriteTo wt pool llb w = ll_WriteTo_loop wt pool llb w 0"

definition ll_Len :: "llbuf \<Rightarrow> int" where
  "ll_Len llb = ll_size llb"

definition ll_Buffered :: "llbuf \<Rightarrow> int" where
  "ll_Buffered llb = ll_bytes llb"

definition ll_IsEmpty :: "llbuf \<Rightarrow> bool" where
  "ll_IsEmpty llb \<longleftrightarrow> ll_head llb = None"

partial_function (option) ll_Reset_loop :: "bsPool \<Rightarrow> llbuf \<Rightarrow> (bsPool \<times> llbuf) option" where
  "ll_Reset_loop pool llb =
     do {
       (b, llb) \<leftarrow> ll_pop llb;
       case b of
         None \<Rightarrow> Some (pool, llb)
       | Some a \<Rightarrow> do { nd \<leftarrow> ll_heap llb a; ll_Reset_loop (bs_Put pool (nd_buf nd)) llb }
     }"

definition ll_Reset :: "bsPool \<Rightarrow> llbuf \<Rightarrow> (bsPool \<times> llbuf) option" where
  "ll_Reset pool llb =
     map_option (\<lambda>(pool, llb). (pool, llb\<lparr>ll_head := None, ll_tail := None, ll_size := 0, ll_bytes := 0, ll_bs := []\<rparr>))
       (ll_Reset_loop pool llb)"

end
