(* ===== verification/LinkedListCorrect.thy ===== *)
theory LinkedListCorrect
  imports LinkedList
begin

text \<open>
  The linked-list buffer refines a list of slices, and through it a byte queue. \<open>ll_rep\<close>
  relates the heap to the list; the pointer operations are proved to keep it, then every loop
  by induction on the list. The contracts of \<open>ByteStream\<close> are interpreted at the end.
\<close>

section \<open>Abstraction\<close>

fun chain :: "(nat \<Rightarrow> node option) \<Rightarrow> nat option \<Rightarrow> nat list \<Rightarrow> slice list \<Rightarrow> bool" where
  "chain h p [] [] \<longleftrightarrow> p = None"
| "chain h p (a # as) (s # ss) \<longleftrightarrow>
     p = Some a \<and> (\<exists>nx. h a = Some \<lparr>nd_buf = s, nd_next = nx\<rparr> \<and> chain h nx as ss)"
| "chain h p _ _ \<longleftrightarrow> False"

definition bytes_of :: "slice list \<Rightarrow> byte list" where
  "bytes_of ss = concat (map sdata ss)"

definition ll_rep :: "llbuf \<Rightarrow> nat list \<Rightarrow> slice list \<Rightarrow> bool" where
  "ll_rep b as ss \<longleftrightarrow>
     chain (ll_heap b) (ll_head b) as ss \<and> distinct as \<and>
     ll_tail b = (if as = [] then None else Some (last as)) \<and>
     ll_size b = int (length ss) \<and> ll_bytes b = int (length (bytes_of ss)) \<and>
     (\<forall>a. ll_heap b a \<noteq> None \<longrightarrow> a < ll_fresh b)"

definition ll_ok :: "llbuf \<Rightarrow> bool" where
  "ll_ok b \<longleftrightarrow> (\<exists>as ss. ll_rep b as ss)"

primrec ll_walk :: "nat \<Rightarrow> (nat \<Rightarrow> node option) \<Rightarrow> nat option \<Rightarrow> slice list" where
  "ll_walk 0 h p = []"
| "ll_walk (Suc n) h p =
     (case p of None \<Rightarrow> [] | Some a \<Rightarrow>
       (case h a of None \<Rightarrow> [] | Some nd \<Rightarrow> nd_buf nd # ll_walk n h (nd_next nd)))"

definition ll_slices :: "llbuf \<Rightarrow> slice list" where
  "ll_slices b = ll_walk (nat (ll_size b)) (ll_heap b) (ll_head b)"

definition ll_contents :: "llbuf \<Rightarrow> byte list" where
  "ll_contents b = bytes_of (ll_slices b)"

lemma bytes_of_simps [simp]:
  "bytes_of [] = []" "bytes_of (s # ss) = sdata s @ bytes_of ss" "bytes_of (xs @ ys) = bytes_of xs @ bytes_of ys"
  by (simp_all add: bytes_of_def)

lemma chain_length: "chain h p as ss \<Longrightarrow> length as = length ss"
  by (induction h p as ss rule: chain.induct) auto

lemma chain_walk: "chain h p as ss \<Longrightarrow> ll_walk (length ss) h p = ss"
  by (induction h p as ss rule: chain.induct) auto

lemma chain_upd [simp]: "a \<notin> set as \<Longrightarrow> chain (h(a := x)) p as ss = chain h p as ss"
  by (induction h p as ss rule: chain.induct) auto

lemma chain_dom: "chain h p as ss \<Longrightarrow> a \<in> set as \<Longrightarrow> \<exists>nd. h a = Some nd"
  by (induction h p as ss rule: chain.induct) auto

lemma ll_rep_slices: "ll_rep b as ss \<Longrightarrow> ll_slices b = ss"
  using chain_walk [of "ll_heap b" "ll_head b" as ss] by (simp add: ll_rep_def ll_slices_def)

lemma ll_rep_contents: "ll_rep b as ss \<Longrightarrow> ll_contents b = bytes_of ss"
  by (simp add: ll_contents_def ll_rep_slices)

lemma ll_rep_ok: "ll_rep b as ss \<Longrightarrow> ll_ok b"
  by (auto simp: ll_ok_def)

lemma ll_ok_rep:
  assumes "ll_ok b"
  obtains as where "ll_rep b as (ll_slices b)" and "ll_contents b = bytes_of (ll_slices b)"
proof -
  obtain as ss where "ll_rep b as ss" using assms by (auto simp: ll_ok_def)
  with ll_rep_slices [OF this] that show ?thesis by (simp add: ll_contents_def)
qed

lemma ll_rep_empty [simp]: "ll_rep ll_empty [] []"
  by (simp add: ll_rep_def ll_empty_def)

lemma ll_slices_empty [simp]: "ll_slices ll_empty = []"
  by (simp add: ll_slices_def ll_empty_def)

lemma ll_rep_no_nodes: "ll_rep b [] ss \<Longrightarrow> ss = []"
  by (cases ss) (simp_all add: ll_rep_def)

lemma ll_rep_no_slices: "ll_rep b as [] \<Longrightarrow> as = []"
  by (cases as) (simp_all add: ll_rep_def)

section \<open>The pointer operations\<close>

lemma ll_pop_empty: "ll_rep b as [] \<Longrightarrow> ll_pop b = Some (None, b)"
  by (cases as) (simp_all add: ll_rep_def ll_pop_def)

lemma ll_pop_cons:
  assumes "ll_rep b as (s # ss)"
  shows "\<exists>a as' b'. as = a # as' \<and> ll_pop b = Some (Some a, b') \<and> ll_rep b' as' ss \<and> a \<notin> set as' \<and>
    ll_heap b' a = Some \<lparr>nd_buf = s, nd_next = None\<rparr>"
proof -
  obtain a as' where as: "as = a # as'" using assms by (cases as) (auto simp: ll_rep_def)
  with assms obtain nx where h: "ll_head b = Some a" "ll_heap b a = Some \<lparr>nd_buf = s, nd_next = nx\<rparr>"
    "chain (ll_heap b) nx as' ss" "distinct (a # as')"
    by (auto simp: ll_rep_def)
  have "nx = None \<longleftrightarrow> as' = []" using h(3) by (cases as'; cases ss) auto
  then show ?thesis using assms as h
    by (auto simp: ll_rep_def ll_pop_def node_len_def slen_def Let_def)
qed

lemma ll_setbuf_rep:
  assumes "ll_rep b as ss" and "a \<notin> set as" and "ll_heap b a = Some nd"
  shows "\<exists>b'. ll_setbuf b a s = Some b' \<and> ll_rep b' as ss \<and> ll_heap b' a = Some (nd\<lparr>nd_buf := s\<rparr>)"
  using assms by (auto simp: ll_setbuf_def ll_rep_def)

lemma ll_pushFront_rep:
  assumes "ll_rep b as ss" and "a \<notin> set as" and "ll_heap b a = Some nd"
  shows "\<exists>b'. ll_pushFront b (Some a) = Some b' \<and> ll_rep b' (a # as) (nd_buf nd # ss)"
proof -
  have "ll_head b = None \<longleftrightarrow> as = []" using assms(1) by (cases as; cases ss) (auto simp: ll_rep_def)
  then show ?thesis using assms
    by (cases nd) (auto simp: ll_pushFront_def ll_rep_def node_len_def slen_def Let_def)
qed

text \<open>The rest of a popped node goes back to the front.\<close>

lemma ll_give_back:
  assumes "ll_rep b as ss" and "a \<notin> set as" and "ll_heap b a = Some nd"
  shows "\<exists>b1 b2. ll_setbuf b a s = Some b1 \<and> ll_pushFront b1 (Some a) = Some b2 \<and> ll_rep b2 (a # as) (s # ss)"
proof -
  obtain b1 where b1: "ll_setbuf b a s = Some b1" "ll_rep b1 as ss" "ll_heap b1 a = Some (nd\<lparr>nd_buf := s\<rparr>)"
    using ll_setbuf_rep [OF assms] by blast
  then show ?thesis using ll_pushFront_rep [OF b1(2) assms(2) b1(3)] by auto
qed

lemma chain_snoc:
  assumes "chain h p (as @ [t]) ss" and "distinct (as @ [t])" and "a \<notin> set (as @ [t])" and "h t = Some tn"
  shows "chain (h(t \<mapsto> tn\<lparr>nd_next := Some a\<rparr>, a \<mapsto> \<lparr>nd_buf = s, nd_next = None\<rparr>)) p (as @ [t, a]) (ss @ [s])"
  using assms
proof (induction as arbitrary: p ss)
  case Nil
  then show ?case by (cases ss; cases "tl ss") auto
next
  case (Cons x as)
  then show ?case by (cases ss) (auto split: if_splits)
qed

lemma ll_pushBack_rep:
  assumes "ll_rep b as ss"
  shows "\<exists>b'. ll_pushBack (snd (ll_new b s)) (Some (fst (ll_new b s))) = Some b' \<and>
    ll_rep b' (as @ [ll_fresh b]) (ss @ [s])"
proof -
  have fresh: "ll_heap b (ll_fresh b) = None" using assms by (auto simp: ll_rep_def)
  then have notin: "ll_fresh b \<notin> set as" using assms chain_dom [of "ll_heap b" "ll_head b" as ss]
    by (fastforce simp: ll_rep_def)
  show ?thesis
  proof (cases as rule: rev_cases)
    case Nil
    then have "ss = []" using assms ll_rep_no_nodes by blast
    then show ?thesis using assms Nil
      by (auto simp: ll_pushBack_def ll_new_def ll_rep_def node_len_def slen_def Let_def less_Suc_eq)
  next
    case (snoc xs t)
    obtain tn where tn: "ll_heap b t = Some tn" using assms snoc chain_dom by (fastforce simp: ll_rep_def)
    have "t \<noteq> ll_fresh b" using notin snoc by auto
    moreover have "chain ((ll_heap b)(t \<mapsto> tn\<lparr>nd_next := Some (ll_fresh b)\<rparr>, ll_fresh b \<mapsto> \<lparr>nd_buf = s, nd_next = None\<rparr>))
        (ll_head b) (xs @ [t, ll_fresh b]) (ss @ [s])"
      using assms snoc notin tn by (intro chain_snoc) (auto simp: ll_rep_def)
    moreover have "t < ll_fresh b" using assms tn by (auto simp: ll_rep_def)
    ultimately show ?thesis using assms snoc tn notin
      by (auto simp: ll_pushBack_def ll_new_def ll_rep_def node_len_def slen_def Let_def less_Suc_eq
          fun_upd_twist)
  qed
qed

lemma ll_new_front_rep:
  assumes "ll_rep b as ss"
  shows "\<exists>b'. ll_pushFront (snd (ll_new b s)) (Some (fst (ll_new b s))) = Some b' \<and>
    ll_rep b' (ll_fresh b # as) (s # ss)"
proof -
  have fresh: "ll_heap b (ll_fresh b) = None" using assms by (auto simp: ll_rep_def)
  then have notin: "ll_fresh b \<notin> set as" using assms chain_dom [of "ll_heap b" "ll_head b" as ss]
    by (fastforce simp: ll_rep_def)
  have "ll_rep (snd (ll_new b s)) as ss" using assms notin
    by (auto simp: ll_rep_def ll_new_def less_Suc_eq)
  from ll_pushFront_rep [OF this, of "ll_fresh b" "\<lparr>nd_buf = s, nd_next = None\<rparr>"] notin
  show ?thesis by (simp add: ll_new_def)
qed

section \<open>Read\<close>

lemma ll_obs:
  assumes "ll_rep b as ss"
  shows "ll_Buffered b = int (length (bytes_of ss))" and "ll_Len b = int (length ss)" and "ll_IsEmpty b \<longleftrightarrow> ss = []"
  using assms by (cases as; cases ss; auto simp: ll_rep_def ll_Buffered_def ll_Len_def ll_IsEmpty_def)+

text \<open>The byte queue behind a buffer.\<close>

definition ll_has :: "llbuf \<Rightarrow> byte list \<Rightarrow> bool" where
  "ll_has b q \<longleftrightarrow> (\<exists>as ss. ll_rep b as ss \<and> bytes_of ss = q)"

text \<open>No node is empty: what \<open>PushBack\<close> and \<open>PushFront\<close> make, and the other operations keep.\<close>

definition solid :: "slice list \<Rightarrow> bool" where
  "solid ss \<longleftrightarrow> (\<forall>s \<in> set ss. sdata s \<noteq> [])"

lemma solid_simps [simp]:
  "solid []" "solid (s # ss) \<longleftrightarrow> sdata s \<noteq> [] \<and> solid ss" "solid (ss @ ss') \<longleftrightarrow> solid ss \<and> solid ss'"
  by (auto simp: solid_def)

lemma ll_rep_has: "ll_rep b as ss \<Longrightarrow> bytes_of ss = q \<Longrightarrow> ll_has b q"
  by (auto simp: ll_has_def)

lemma ll_has_iff: "ll_has b q \<longleftrightarrow> ll_ok b \<and> ll_contents b = q"
  by (metis ll_has_def ll_ok_def ll_rep_contents)

lemma blit_blit:
  assumes "n + length u \<le> length p"
  shows "blit (blit p n u) (n + length u) t = blit p n (u @ t)"
proof -
  have "take (length p - n) (u @ t) = u @ take (length p - (n + length u)) t" "take (length p - n) u = u"
    "length p - (length u + n) = length p - (n + length u)"
    using assms by (simp_all add: add.commute)
  then show ?thesis using assms by (simp add: blit_def ac_simps)
qed

lemma ll_rest:
  "m \<le> length (sdata s) \<Longrightarrow> \<exists>s'. reslice s (int m) (slen s) = Some s' \<and> sdata s' = drop m (sdata s)"
  by (auto simp: reslice_def slen_def scap_def Let_def nat_diff_distrib)

lemma ll_Read_loop_spec:
  assumes "ll_rep b as ss" and "n < length p" and "pool_ok pool"
  defines "k \<equiv> min (length p - n) (length (bytes_of ss))"
  shows "\<exists>pool' b'. ll_Read_loop pool b p (int n) =
      Some (int (n + k), blit p n (take k (bytes_of ss)), pool', b') \<and>
    ll_has b' (drop k (bytes_of ss)) \<and> pool_ok pool' \<and> (solid ss \<longrightarrow> solid (ll_slices b'))"
  using assms(1-3) unfolding k_def
proof (induction ss arbitrary: b as n p pool)
  case Nil
  then show ?case using ll_pop_empty [OF Nil.prems(1)] ll_rep_has [OF Nil.prems(1)] ll_rep_slices [OF Nil.prems(1)]
    by (subst ll_Read_loop.simps) (auto simp: blit_def)
next
  case (Cons s ss)
  obtain a as' b1 where b1: "ll_pop b = Some (Some a, b1)" "ll_rep b1 as' ss" "a \<notin> set as'"
      "ll_heap b1 a = Some \<lparr>nd_buf = s, nd_next = None\<rparr>"
    using ll_pop_cons [OF Cons.prems(1)] by blast
  define m where "m = min (length p - n) (length (sdata s))"
  have cp: "lview p (int n) (int (length p)) = Some (drop n p)" "copy_count (drop n p) (sdata s) = int m"
    "lcopy_at p (int n) (sdata s) = Some (blit p n (sdata s))"
    using Cons.prems(2) by (simp_all add: slice_simps copy_count_def m_def nat_diff_distrib)
  show ?case
  proof (cases "m < length (sdata s)")
    case True
    then have m: "m = length p - n" by (simp add: m_def)
    obtain s' where s': "reslice s (int m) (slen s) = Some s'" "sdata s' = drop m (sdata s)"
      using ll_rest [of m s] True by auto
    obtain b2 b3 where b3: "ll_setbuf b1 a s' = Some b2" "ll_pushFront b2 (Some a) = Some b3"
        "ll_rep b3 (a # as') (s' # ss)"
      using ll_give_back [OF b1(2-4)] by blast
    have "ll_Read_loop pool b p (int n) = Some (int (n + m), blit p n (sdata s), pool, b3)"
      using b1 b3 cp s'(1) True m Cons.prems(2)
      by (subst ll_Read_loop.simps) (simp add: node_len_def slen_def Let_def)
    moreover have "blit p n (sdata s) = blit p n (take m (sdata s))"
      using True m Cons.prems(2) by (simp add: blit_def)
    ultimately show ?thesis using ll_rep_has [OF b3(3)] ll_rep_slices [OF b3(3)] s'(2) True m Cons.prems(3) by auto
  next
    case False
    then have m: "m = length (sdata s)" "n + m \<le> length p" using Cons.prems(2) by (auto simp: m_def)
    show ?thesis
    proof (cases "n + m = length p")
      case True
      then have "ll_Read_loop pool b p (int n) = Some (int (n + m), blit p n (sdata s), bs_Put pool s, b1)"
        using b1 cp m Cons.prems(2)
        by (subst ll_Read_loop.simps) (simp add: node_len_def slen_def Let_def)
      moreover have "length p - n = m" using True by simp
      ultimately show ?thesis using ll_rep_has [OF b1(2)] ll_rep_slices [OF b1(2)] m Cons.prems(3) by (auto simp: bs_Put_ok)
    next
      case neq: False
      define p1 where "p1 = blit p n (sdata s)"
      have p1: "length p1 = length p" using Cons.prems(2) by (simp add: p1_def)
      have lt: "n + m < length p1" using neq m p1 by simp
      obtain pool' b' where ih: "ll_Read_loop (bs_Put pool s) b1 p1 (int (n + m)) =
          Some (int (n + m + min (length p1 - (n + m)) (length (bytes_of ss))),
            blit p1 (n + m) (take (min (length p1 - (n + m)) (length (bytes_of ss))) (bytes_of ss)), pool', b')"
          "ll_has b' (drop (min (length p1 - (n + m)) (length (bytes_of ss))) (bytes_of ss))"
          "pool_ok pool'" "solid ss \<longrightarrow> solid (ll_slices b')"
        using Cons.IH [OF b1(2) lt bs_Put_ok [OF Cons.prems(3)]] by blast
      have "ll_Read_loop pool b p (int n) = ll_Read_loop (bs_Put pool s) b1 p1 (int (n + m))"
        using b1 cp m neq Cons.prems(2)
        by (subst ll_Read_loop.simps) (simp add: node_len_def slen_def Let_def p1_def)
      moreover define k where "k = min (length p1 - (n + m)) (length (bytes_of ss))"
      moreover have "min (length p - n) (length (bytes_of (s # ss))) = m + k" using m p1 by (simp add: k_def)
      moreover have "blit p1 (n + m) (take k (bytes_of ss)) = blit p n (sdata s @ take k (bytes_of ss))"
        using m by (simp add: p1_def blit_blit)
      ultimately show ?thesis using ih m by auto
    qed
  qed
qed

lemma ll_Read_spec:
  assumes "ll_rep b as ss" and "pool_ok pool"
  shows "\<exists>pool' b'. ll_Read pool b p = Some (int (min (length p) (length (bytes_of ss))), None,
      take (length p) (bytes_of ss) @ drop (length (bytes_of ss)) p, pool', b') \<and>
    ll_has b' (drop (length p) (bytes_of ss)) \<and> pool_ok pool' \<and> (solid ss \<longrightarrow> solid (ll_slices b'))"
proof (cases "p = []")
  case False
  have "blit p 0 (take (min (length p) (length (bytes_of ss))) (bytes_of ss)) =
      take (length p) (bytes_of ss) @ drop (length (bytes_of ss)) p"
    by (cases "length p \<le> length (bytes_of ss)") (simp_all add: blit_def min_def)
  moreover have "drop (min (length p) (length (bytes_of ss))) (bytes_of ss) = drop (length p) (bytes_of ss)"
    by (simp add: min_def)
  ultimately show ?thesis using ll_Read_loop_spec [OF assms(1) _ assms(2), of 0 p] False
    by (auto simp: ll_Read_def)
qed (use assms ll_rep_has ll_rep_slices in \<open>auto simp: ll_Read_def\<close>)

section \<open>Discard, Reset, PushBack, PushFront\<close>

lemma ll_Discard_loop_spec:
  assumes "ll_rep b as ss" and "pool_ok pool"
  shows "\<exists>pool' b'. ll_Discard_loop pool b (int n) d =
      Some (d + int (min n (length (bytes_of ss))), pool', b') \<and>
    ll_has b' (drop n (bytes_of ss)) \<and> pool_ok pool' \<and> (solid ss \<longrightarrow> solid (ll_slices b'))"
  using assms
proof (induction ss arbitrary: b as n d pool)
  case Nil
  then show ?case using ll_pop_empty [OF Nil.prems(1)] ll_rep_has [OF Nil.prems(1)] ll_rep_slices [OF Nil.prems(1)]
    by (subst ll_Discard_loop.simps) auto
next
  case (Cons s ss)
  show ?case
  proof (cases "n = 0")
    case True
    then show ?thesis using Cons.prems ll_rep_has [OF Cons.prems(1)] ll_rep_slices [OF Cons.prems(1)]
      by (subst ll_Discard_loop.simps) auto
  next
    case False
    obtain a as' b1 where b1: "ll_pop b = Some (Some a, b1)" "ll_rep b1 as' ss" "a \<notin> set as'"
        "ll_heap b1 a = Some \<lparr>nd_buf = s, nd_next = None\<rparr>"
      using ll_pop_cons [OF Cons.prems(1)] by blast
    show ?thesis
    proof (cases "n < length (sdata s)")
      case True
      obtain s' where s': "reslice s (int n) (slen s) = Some s'" "sdata s' = drop n (sdata s)"
        using ll_rest [of n s] True by auto
      obtain b2 b3 where b3: "ll_setbuf b1 a s' = Some b2" "ll_pushFront b2 (Some a) = Some b3"
          "ll_rep b3 (a # as') (s' # ss)"
        using ll_give_back [OF b1(2-4)] by blast
      then have "ll_Discard_loop pool b (int n) d = Some (d + int n, pool, b3)"
        using b1 s' True False by (subst ll_Discard_loop.simps) (simp add: node_len_def slen_def)
      then show ?thesis using ll_rep_has [OF b3(3)] ll_rep_slices [OF b3(3)] s'(2) True Cons.prems(2) by auto
    next
      case ge: False
      then have "ll_Discard_loop pool b (int n) d =
          ll_Discard_loop (bs_Put pool s) b1 (int (n - length (sdata s))) (d + int (length (sdata s)))"
        using b1 False by (subst ll_Discard_loop.simps) (simp add: node_len_def slen_def of_nat_diff)
      moreover have "min n (length (bytes_of (s # ss))) =
          length (sdata s) + min (n - length (sdata s)) (length (bytes_of ss))" using ge by simp
      ultimately show ?thesis
        using Cons.IH [OF b1(2) bs_Put_ok [OF Cons.prems(2), of s], where n = "n - length (sdata s)" and
            d = "d + int (length (sdata s))"] ge
        by (auto simp: algebra_simps)
    qed
  qed
qed

lemma ll_Discard_spec:
  assumes "ll_rep b as ss" and "pool_ok pool"
  shows "\<exists>pool' b'. ll_Discard pool b n =
      Some (min (max 0 n) (int (length (bytes_of ss))), None, pool', b') \<and>
    ll_has b' (drop (nat n) (bytes_of ss)) \<and> pool_ok pool' \<and> (solid ss \<longrightarrow> solid (ll_slices b'))"
proof (cases "n \<le> 0")
  case False
  then show ?thesis using ll_Discard_loop_spec [OF assms, of "nat n" 0] by (auto simp: ll_Discard_def min_def nat_le_iff)
qed (use assms ll_rep_has ll_rep_slices in \<open>auto simp: ll_Discard_def\<close>)

lemma ll_Reset_loop_spec:
  assumes "ll_rep b as ss" and "pool_ok pool"
  shows "\<exists>pool' b'. ll_Reset_loop pool b = Some (pool', b') \<and> ll_rep b' [] [] \<and> pool_ok pool'"
  using assms
proof (induction ss arbitrary: b as pool)
  case Nil
  then have "as = []" using ll_rep_no_slices by blast
  then show ?case using ll_pop_empty [OF Nil.prems(1)] Nil by (subst ll_Reset_loop.simps) auto
next
  case (Cons s ss)
  obtain a as' b1 where b1: "ll_pop b = Some (Some a, b1)" "ll_rep b1 as' ss"
      "ll_heap b1 a = Some \<lparr>nd_buf = s, nd_next = None\<rparr>"
    using ll_pop_cons [OF Cons.prems(1)] by blast
  then show ?case using Cons.IH [OF b1(2) bs_Put_ok [OF Cons.prems(2)]] by (subst ll_Reset_loop.simps) auto
qed

lemma ll_Reset_spec:
  assumes "ll_rep b as ss" and "pool_ok pool"
  shows "\<exists>pool' b'. ll_Reset pool b = Some (pool', b') \<and> ll_rep b' [] [] \<and> pool_ok pool'"
  using ll_Reset_loop_spec [OF assms] by (auto simp: ll_Reset_def ll_rep_def)

lemma pooled_copy:
  assumes "pool_ok pool" and "p \<noteq> []"
  shows "\<exists>b pool' b'. bs_Get pool (int (length p)) = Some (b, pool') \<and> scopy_at b 0 p = Some b' \<and> sdata b' = p \<and>
    pool_ok pool'"
proof -
  obtain b pool' where b: "bs_Get pool (int (length p)) = Some (b, pool')" "length (sdata b) = length p" "pool_ok pool'"
    using bs_Get_spec [OF assms(1), of "int (length p)"] assms(2) by auto
  then show ?thesis by (simp add: slice_simps)
qed

lemma ll_PushBack_spec:
  assumes "ll_rep b as ss" and "pool_ok pool"
  shows "\<exists>pool' b'. ll_PushBack pool b p = Some (pool', b') \<and> ll_has b' (bytes_of ss @ p) \<and> pool_ok pool' \<and> (ll_IsEmpty b' \<longleftrightarrow> ss = [] \<and> p = []) \<and>
    (solid ss \<longrightarrow> solid (ll_slices b'))"
proof (cases "p = []")
  case False
  obtain s pool' s' where s: "bs_Get pool (int (length p)) = Some (s, pool')" "scopy_at s 0 p = Some s'"
      "sdata s' = p" "pool_ok pool'"
    using pooled_copy [OF assms(2) False] by blast
  obtain b' where b': "ll_pushBack (snd (ll_new b s')) (Some (fst (ll_new b s'))) = Some b'"
      "ll_rep b' (as @ [ll_fresh b]) (ss @ [s'])"
    using ll_pushBack_rep [OF assms(1), of s'] by blast
  then show ?thesis using s False ll_obs(3) [OF b'(2)] ll_rep_slices [OF b'(2)] ll_rep_has [OF b'(2)]
    by (simp add: ll_PushBack_def case_prod_unfold)
qed (use assms ll_rep_has ll_rep_slices ll_obs(3) [OF assms(1)] in \<open>fastforce simp: ll_PushBack_def\<close>)

lemma ll_PushFront_spec:
  assumes "ll_rep b as ss" and "pool_ok pool"
  shows "\<exists>pool' b'. ll_PushFront pool b p = Some (pool', b') \<and> ll_has b' (p @ bytes_of ss) \<and> pool_ok pool'"
proof (cases "p = []")
  case False
  obtain s pool' s' where s: "bs_Get pool (int (length p)) = Some (s, pool')" "scopy_at s 0 p = Some s'"
      "sdata s' = p" "pool_ok pool'"
    using pooled_copy [OF assms(2) False] by blast
  then show ?thesis using ll_new_front_rep [OF assms(1), of s'] False
    by (fastforce simp: ll_PushFront_def case_prod_unfold ll_has_def)
qed (use assms ll_rep_has in \<open>fastforce simp: ll_PushFront_def\<close>)

section \<open>Peek\<close>

text \<open>The slices of a list up to the one that reaches the bound.\<close>

fun peek_views :: "int \<Rightarrow> byte list list \<Rightarrow> byte list list" where
  "peek_views m [] = []"
| "peek_views m (v # vs) = v # (if int (length v) \<ge> m then [] else peek_views (m - int (length v)) vs)"

lemma peek_views_prefix: "\<exists>k. peek_views m vs = take k vs"
proof (induction m vs rule: peek_views.induct)
  case (2 m v vs)
  show ?case
  proof (cases "int (length v) \<ge> m")
    case True
    then show ?thesis by (intro exI [of _ 1]) simp
  next
    case False
    then obtain k where "peek_views (m - int (length v)) vs = take k vs" using 2 by auto
    then show ?thesis using False by (intro exI [of _ "Suc k"]) simp
  qed
qed simp

lemma peek_views_reaches:
  "min m (int (length (concat vs))) \<le> int (length (concat (peek_views m vs)))"
  by (induction m vs rule: peek_views.induct) (auto simp: min_def)

lemma peek_views_minimal:
  "0 < m \<Longrightarrow> int (length (concat (butlast (peek_views m vs)))) < m"
  by (induction m vs rule: peek_views.induct) auto

lemma ll_Peek_loop_spec:
  "chain h p as ss \<Longrightarrow> ll_Peek_loop h p m cum acc = Some (acc @ peek_views (m - cum) (map sdata ss))"
proof (induction ss arbitrary: p as cum acc)
  case Nil
  then show ?case by (cases as) (auto simp: ll_Peek_loop.simps)
next
  case (Cons s ss)
  then obtain a as' nx where c: "as = a # as'" "p = Some a" "h a = Some \<lparr>nd_buf = s, nd_next = nx\<rparr>" "chain h nx as' ss"
    by (cases as) auto
  then show ?case using Cons.IH [OF c(4)]
    by (subst ll_Peek_loop.simps) (auto simp: node_len_def slen_def algebra_simps)
qed

lemma ll_Peek_given_spec:
  "case ll_Peek_given bs m cum acc of
     Inl out \<Rightarrow> out = acc @ peek_views (m - cum) (filter (\<lambda>v. v \<noteq> []) bs @ ys)
   | Inr (c, a) \<Rightarrow> a @ peek_views (m - c) ys = acc @ peek_views (m - cum) (filter (\<lambda>v. v \<noteq> []) bs @ ys)"
  by (induction bs m cum acc rule: ll_Peek_given.induct) (auto split: sum.splits prod.splits simp: algebra_simps)

definition peek_bound :: "int \<Rightarrow> int" where
  "peek_bound n = (if n \<le> 0 then MaxInt32 else n)"

lemma peek_bound_pos: "0 < peek_bound n"
  by (simp add: peek_bound_def MaxInt32_def)

lemma ll_PeekWithBytes_spec:
  assumes "ll_rep b as ss"
  shows "ll_PeekWithBytes b n bs =
    (let out = peek_views (peek_bound n) (filter (\<lambda>v. v \<noteq> []) bs @ map sdata ss) in Some (out, b\<lparr>ll_bs := out\<rparr>))"
proof -
  have c: "chain (ll_heap b) (ll_head b) as ss" using assms by (simp add: ll_rep_def)
  show ?thesis
  proof (cases "ll_Peek_given bs (peek_bound n) 0 []")
    case (Inl out)
    have "out = peek_views (peek_bound n) (filter (\<lambda>v. v \<noteq> []) bs @ map sdata ss)"
      using ll_Peek_given_spec [where bs = bs and m = "peek_bound n" and cum = 0 and acc = "[]" and ys = "map sdata ss"] unfolding Inl by simp
    with Inl show ?thesis
      by (simp add: ll_PeekWithBytes_def peek_bound_def [symmetric] Let_def)
  next
    case (Inr x)
    then show ?thesis using ll_Peek_given_spec [where bs = bs and m = "peek_bound n" and cum = 0 and acc = "[]" and ys = "map sdata ss"]
      by (cases x) (simp add: ll_PeekWithBytes_def ll_Peek_loop_spec [OF c] peek_bound_def [symmetric] Let_def)
  qed
qed

lemma ll_Peek_spec:
  assumes "ll_rep b as ss"
  shows "ll_Peek b n =
    (let out = peek_views (peek_bound n) (map sdata ss) in Some (out, b\<lparr>ll_bs := out\<rparr>))"
  using ll_Peek_loop_spec [of "ll_heap b" "ll_head b" as ss] assms
  by (simp add: ll_Peek_def ll_rep_def peek_bound_def [symmetric] Let_def)

lemma ll_bs_slices [simp]: "ll_slices (b\<lparr>ll_bs := x\<rparr>) = ll_slices b"
  by (simp add: ll_slices_def)

lemma ll_bs_has [simp]: "ll_has (b\<lparr>ll_bs := x\<rparr>) q = ll_has b q"
  by (simp add: ll_has_def ll_rep_def)

section \<open>ReadFrom and WriteTo\<close>

lemma ll_ReadFrom_loop_spec:
  assumes "ll_has b q" and "pool_ok pool" and "script_clean s"
  shows "\<exists>pool' b' s'. ll_ReadFrom_loop script_read pool b s n =
      Some (n + int (length (script_data s)), eof_is_nil (script_err s), pool', b', s') \<and>
    ll_has b' (q @ script_data s) \<and> pool_ok pool'"
  using assms
proof (induction "script_size s" arbitrary: b q pool s n rule: less_induct)
  case less
  obtain as ss where rep: "ll_rep b as ss" "bytes_of ss = q" using less.prems(1) by (auto simp: ll_has_def)
  obtain v pool1 where v: "bs_Get pool minRead = Some (v, pool1)" "length (sdata v) = 512" "pool_ok pool1"
    using bs_Get_spec [OF less.prems(2), of minRead] by (auto simp: minRead_def)
  obtain d e s1 where r: "script_read s (sdata v) = Some (int (length d), e, d @ drop (length d) (sdata v), s1)"
    "length d \<le> 512" "case e of None \<Rightarrow> script_data s = d @ script_data s1 \<and> script_err s1 = script_err s
     | Some x \<Rightarrow> script_data s = d \<and> script_err s = x" "e = None \<longrightarrow> script_size s1 < script_size s"
    using script_read_spec [of s "sdata v"] v(2) by auto
  have cl: "script_clean s1" "e \<noteq> None \<longrightarrow> d = []"
    using script_read_clean [OF less.prems(3) r(1)] by auto
  obtain v1 where v1: "reslice (v\<lparr>sdata := d @ drop (length d) (sdata v)\<rparr>) 0 (int (length d)) = Some v1" "sdata v1 = d"
    by (auto simp: reslice_def scap_def Let_def)
  show ?case
  proof (cases e)
    case None
    obtain b1 where b1: "ll_pushBack (snd (ll_new b v1)) (Some (fst (ll_new b v1))) = Some b1"
      "ll_rep b1 (as @ [ll_fresh b]) (ss @ [v1])"
      using ll_pushBack_rep [OF rep(1)] by blast
    have "ll_has b1 (q @ d)" using ll_rep_has [OF b1(2)] rep(2) v1(2) by simp
    from less.hyps [OF _ this v(3) cl(1), of "n + int (length d)"] r(3,4) None
    obtain pool' b' s' where "ll_ReadFrom_loop script_read pool1 b1 s1 (n + int (length d)) =
        Some (n + int (length d) + int (length (script_data s1)), eof_is_nil (script_err s1), pool', b', s')"
      "ll_has b' (q @ d @ script_data s1)" "pool_ok pool'"
      by auto
    then show ?thesis using v r b1(1) v1(1) None
      by (subst ll_ReadFrom_loop.simps) (simp add: case_prod_unfold)
  next
    case (Some x)
    then show ?thesis using v r v1(1) cl(2) less.prems(1) bs_Put_ok [OF v(3)]
      by (subst ll_ReadFrom_loop.simps) (auto simp: eof_is_nil_def)
  qed
qed

text \<open>A writer that never reports an error, though it may take fewer bytes than offered.\<close>

definition wscript_clean :: "wscript \<Rightarrow> bool" where
  "wscript_clean w \<longleftrightarrow> (\<forall>(k, e) \<in> set (fst w). e = None)"

lemma script_write_clean:
  assumes "wscript_clean w"
  obtains m w' where "script_write w p = Some (int m, None, w')" "m \<le> length p" "snd w' = snd w @ take m p"
    "wscript_clean w'"
proof (cases w)
  case (Pair xs out)
  show ?thesis
  proof (cases xs)
    case Nil
    then show ?thesis using that [of "length p" "([], out @ p)"] Pair by (simp add: wscript_clean_def)
  next
    case (Cons x ys)
    then show ?thesis using that [of "min (fst x) (length p)" "(ys, out @ take (fst x) p)"] Pair assms
      by (cases x) (auto simp: wscript_clean_def min_def)
  qed
qed

lemma ll_WriteTo_loop_spec:
  assumes "ll_rep b as ss" and "pool_ok pool" and "wscript_clean w"
  shows "\<exists>k pool' b' w'. ll_WriteTo_loop script_write pool b w n =
      Some (n + int k, if k = length (bytes_of ss) then None else Some ErrShortWrite, pool', b', w') \<and>
    k \<le> length (bytes_of ss) \<and> snd w' = snd w @ take k (bytes_of ss) \<and> ll_has b' (drop k (bytes_of ss)) \<and>
    pool_ok pool'"
  using assms
proof (induction ss arbitrary: b as pool w n)
  case Nil
  then show ?case using ll_pop_empty [OF Nil.prems(1)] ll_rep_has [OF Nil.prems(1)]
    by (subst ll_WriteTo_loop.simps) (auto intro!: exI [of _ w])
next
  case (Cons s ss)
  obtain a as' b1 where b1: "ll_pop b = Some (Some a, b1)" "ll_rep b1 as' ss" "a \<notin> set as'"
      "ll_heap b1 a = Some \<lparr>nd_buf = s, nd_next = None\<rparr>"
    using ll_pop_cons [OF Cons.prems(1)] by blast
  obtain m w1 where w1: "script_write w (sdata s) = Some (int m, None, w1)" "m \<le> length (sdata s)"
      "snd w1 = snd w @ take m (sdata s)" "wscript_clean w1"
    using script_write_clean [OF Cons.prems(3)] by blast
  show ?case
  proof (cases "m < length (sdata s)")
    case True
    obtain s' where s': "reslice s (int m) (slen s) = Some s'" "sdata s' = drop m (sdata s)"
      using ll_rest [of m s] True by auto
    obtain b2 b3 where b3: "ll_setbuf b1 a s' = Some b2" "ll_pushFront b2 (Some a) = Some b3"
        "ll_rep b3 (a # as') (s' # ss)"
      using ll_give_back [OF b1(2-4)] by blast
    have "ll_WriteTo_loop script_write pool b w n = Some (n + int m, Some ErrShortWrite, pool, b3, w1)"
      using b1 b3 w1 s' True by (subst ll_WriteTo_loop.simps) (simp add: node_len_def slen_def)
    then show ?thesis using w1 True s'(2) ll_rep_has [OF b3(3)] Cons.prems(2)
      by (intro exI [of _ m] exI [of _ pool] exI [of _ b3] exI [of _ w1]) auto
  next
    case False
    then have m: "m = length (sdata s)" using w1(2) by simp
    obtain k pool' b' w' where ih: "ll_WriteTo_loop script_write (bs_Put pool s) b1 w1 (n + int m) =
        Some (n + int m + int k, if k = length (bytes_of ss) then None else Some ErrShortWrite, pool', b', w')"
      "k \<le> length (bytes_of ss)" "snd w' = snd w1 @ take k (bytes_of ss)" "ll_has b' (drop k (bytes_of ss))"
      "pool_ok pool'"
      using Cons.IH [OF b1(2) bs_Put_ok [OF Cons.prems(2)] w1(4)] by blast
    have "ll_WriteTo_loop script_write pool b w n = ll_WriteTo_loop script_write (bs_Put pool s) b1 w1 (n + int m)"
      using b1 w1 m by (subst ll_WriteTo_loop.simps) (simp add: node_len_def slen_def)
    then show ?thesis using ih w1(3) m by (intro exI [of _ "m + k"]) auto
  qed
qed

end
