(* ===== verification/LinkedListContract.thy ===== *)
theory LinkedListContract
  imports LinkedListCorrect
begin

text \<open>
  What a client of the linked-list buffer may rely on: the whole interface refines a byte
  queue, the contracts of \<open>ByteStream\<close> hold of it, \<open>Peek\<close> hands out whole nodes up to the
  bound, and what \<open>ReadFrom\<close> and \<open>WriteTo\<close> do with the errors of the other side.
\<close>

section \<open>The interface as a state machine\<close>

datatype ll_op =
    LPushBack "byte list" | LPushFront "byte list" | LRead "byte list" | LDiscard int | LReset
  | LPeek int | LBuffered | LReadFrom rscript

datatype ll_out = LUnit | LCount int "goerror option" | LData int "goerror option" "byte list" | LBytes "byte list" | LInt int

text \<open>
  A peek hands out whole nodes; what it reports here is the bytes asked for of them. A bound of
  at most 0 asks for \<open>MaxInt32\<close> bytes.
\<close>

fun ll_exec :: "ll_op \<Rightarrow> bsPool \<times> llbuf \<Rightarrow> (ll_out \<times> bsPool \<times> llbuf) option" where
  "ll_exec (LPushBack p) (pool, b) = map_option (\<lambda>s. (LUnit, s)) (ll_PushBack pool b p)"
| "ll_exec (LPushFront p) (pool, b) = map_option (\<lambda>s. (LUnit, s)) (ll_PushFront pool b p)"
| "ll_exec (LRead p) (pool, b) = map_option (\<lambda>(n, e, p, s). (LData n e p, s)) (ll_Read pool b p)"
| "ll_exec (LDiscard n) (pool, b) = map_option (\<lambda>(d, e, s). (LCount d e, s)) (ll_Discard pool b n)"
| "ll_exec LReset (pool, b) = map_option (\<lambda>s. (LUnit, s)) (ll_Reset pool b)"
| "ll_exec (LPeek n) (pool, b) = map_option (\<lambda>(views, b). (LBytes (take (nat (peek_bound n)) (concat views)), pool, b)) (ll_Peek b n)"
| "ll_exec LBuffered (pool, b) = Some (LInt (ll_Buffered b), pool, b)"
| "ll_exec (LReadFrom r) (pool, b) =
     map_option (\<lambda>(n, e, pool, b, r). (LCount n e, pool, b)) (ll_ReadFrom script_read pool b r)"

fun lq_exec :: "ll_op \<Rightarrow> byte list \<Rightarrow> ll_out \<times> byte list" where
  "lq_exec (LPushBack p) q = (LUnit, q @ p)"
| "lq_exec (LPushFront p) q = (LUnit, p @ q)"
| "lq_exec (LRead p) q =
     (LData (int (min (length p) (length q))) None (take (length p) q @ drop (length q) p), drop (length p) q)"
| "lq_exec (LDiscard n) q = (LCount (min (max 0 n) (int (length q))) None, drop (nat n) q)"
| "lq_exec LReset q = (LUnit, [])"
| "lq_exec (LPeek n) q = (LBytes (take (nat (peek_bound n)) q), q)"
| "lq_exec LBuffered q = (LInt (int (length q)), q)"
| "lq_exec (LReadFrom r) q = (LCount (int (length (script_data r))) (eof_is_nil (script_err r)), q @ script_data r)"

text \<open>A reader that reports its end or an error in a call of its own, without data.\<close>

fun ll_op_ok :: "ll_op \<Rightarrow> bool" where
  "ll_op_ok (LReadFrom r) \<longleftrightarrow> script_clean r"
| "ll_op_ok _ \<longleftrightarrow> True"

fun ll_run :: "ll_op list \<Rightarrow> bsPool \<times> llbuf \<Rightarrow> (ll_out list \<times> bsPool \<times> llbuf) option" where
  "ll_run [] s = Some ([], s)"
| "ll_run (x # xs) s =
     (case ll_exec x s of
        None \<Rightarrow> None
      | Some (out, s') \<Rightarrow> map_option (\<lambda>(outs, t). (out # outs, t)) (ll_run xs s'))"

fun lq_run :: "ll_op list \<Rightarrow> byte list \<Rightarrow> ll_out list \<times> byte list" where
  "lq_run [] q = ([], q)"
| "lq_run (x # xs) q = (let (out, q') = lq_exec x q; (outs, q'') = lq_run xs q' in (out # outs, q''))"

lemma ll_Peek_has:
  assumes "ll_has b q"
  shows "\<exists>views b'. ll_Peek b n = Some (views, b') \<and> ll_has b' q \<and> concat views = take (length (concat views)) q \<and>
    min (peek_bound n) (int (length q)) \<le> int (length (concat views)) \<and> int (length (concat (butlast views))) < peek_bound n"
proof -
  obtain as ss where rep: "ll_rep b as ss" "bytes_of ss = q" using assms by (auto simp: ll_has_def)
  define views where "views = peek_views (peek_bound n) (map sdata ss)"
  have p: "ll_Peek b n = Some (views, b\<lparr>ll_bs := views\<rparr>)"
    by (simp add: ll_Peek_spec [OF rep(1)] views_def Let_def)
  obtain k where "views = take k (map sdata ss)" using peek_views_prefix unfolding views_def by blast
  then have "q = concat views @ concat (drop k (map sdata ss))"
    using rep(2) by (simp add: bytes_of_def flip: concat_append)
  then have "concat views = take (length (concat views)) q" by simp
  moreover have "min (peek_bound n) (int (length q)) \<le> int (length (concat views))"
    using peek_views_reaches rep(2) unfolding views_def bytes_of_def by metis
  moreover have "int (length (concat (butlast views))) < peek_bound n"
    using peek_views_minimal [OF peek_bound_pos] unfolding views_def by blast
  moreover have "ll_has (b\<lparr>ll_bs := views\<rparr>) q" using assms by (simp only: ll_bs_has)
  ultimately show ?thesis using p by blast
qed

lemma ll_Peek_asked:
  assumes "ll_has b q"
  shows "\<exists>views b'. ll_Peek b n = Some (views, b') \<and> ll_has b' q \<and>
    take (nat (peek_bound n)) (concat views) = take (nat (peek_bound n)) q"
proof -
  obtain views b' where v: "ll_Peek b n = Some (views, b')" "ll_has b' q" "concat views = take (length (concat views)) q"
      "min (peek_bound n) (int (length q)) \<le> int (length (concat views))"
    using ll_Peek_has [OF assms] by blast
  have "take (nat (peek_bound n)) (take (length (concat views)) q) = take (nat (peek_bound n)) q"
    using v(4) by (cases "length q \<le> length (concat views)") (simp_all add: min_def nat_le_iff split: if_splits)
  then show ?thesis using v(1-3) by metis
qed

lemma ll_exec_refines:
  assumes "ll_has b q" and "pool_ok pool" and "ll_op_ok x"
  shows "\<exists>out pool' b'. ll_exec x (pool, b) = Some (out, pool', b') \<and> pool_ok pool' \<and>
    ll_has b' (snd (lq_exec x q)) \<and> out = fst (lq_exec x q)"
proof -
  obtain as ss where rep: "ll_rep b as ss" "bytes_of ss = q" using assms(1) by (auto simp: ll_has_def)
  show ?thesis
  proof (cases x)
    case (LPushBack p)
    then show ?thesis using ll_PushBack_spec [OF rep(1) assms(2), of p] rep(2) by auto
  next
    case (LPushFront p)
    then show ?thesis using ll_PushFront_spec [OF rep(1) assms(2), of p] rep(2) by auto
  next
    case (LRead p)
    then show ?thesis using ll_Read_spec [OF rep(1) assms(2), of p] rep(2) by auto
  next
    case (LDiscard n)
    then show ?thesis using ll_Discard_spec [OF rep(1) assms(2), of n] rep(2) by auto
  next
    case LReset
    then show ?thesis using ll_Reset_spec [OF rep(1) assms(2)] ll_rep_has [where q = "[]"] by fastforce
  next
    case (LPeek n)
    then show ?thesis using ll_Peek_asked [OF assms(1), of n] assms(2) by auto
  next
    case LBuffered
    then show ?thesis using ll_obs(1) [OF rep(1)] rep(2) assms(1,2) by simp
  next
    case (LReadFrom r)
    then show ?thesis using ll_ReadFrom_loop_spec [OF assms(1,2), of r 0] assms(3) by (auto simp: ll_ReadFrom_def)
  qed
qed

lemma ll_run_refines:
  assumes "ll_has b q" and "pool_ok pool" and "list_all ll_op_ok xs"
  shows "\<exists>pool' b'. ll_run xs (pool, b) = Some (fst (lq_run xs q), pool', b') \<and> pool_ok pool' \<and>
    ll_has b' (snd (lq_run xs q))"
  using assms
proof (induction xs arbitrary: b q pool)
  case (Cons x xs)
  obtain pool1 b1 where x: "ll_exec x (pool, b) = Some (fst (lq_exec x q), pool1, b1)" "pool_ok pool1"
      "ll_has b1 (snd (lq_exec x q))"
    using ll_exec_refines [OF Cons.prems(1,2), of x] Cons.prems(3) by auto
  then show ?case using Cons.IH [OF x(3,2)] Cons.prems(3) by (auto simp: Let_def case_prod_unfold)
qed simp

section \<open>The contracts\<close>

definition ll_wr :: "bsPool \<times> llbuf \<Rightarrow> byte list \<Rightarrow> (int \<times> goerror option \<times> bsPool \<times> llbuf) option" where
  "ll_wr s p = map_option (\<lambda>s'. (int (length p), None, s')) (ll_PushBack (fst s) (snd s) p)"

definition ll_rd ::
  "bsPool \<times> llbuf \<Rightarrow> byte list \<Rightarrow> (int \<times> goerror option \<times> byte list \<times> bsPool \<times> llbuf) option" where
  "ll_rd s p = ll_Read (fst s) (snd s) p"

definition ll_q :: "bsPool \<times> llbuf \<Rightarrow> byte list" where
  "ll_q s = ll_contents (snd s)"

definition ll_state_ok :: "bsPool \<times> llbuf \<Rightarrow> bool" where
  "ll_state_ok s \<longleftrightarrow> pool_ok (fst s) \<and> ll_ok (snd s)"

interpretation llq: byte_fifo ll_wr ll_rd ll_q ll_state_ok "2 ^ 59"
proof unfold_locales
  fix s :: "bsPool \<times> llbuf" and p :: "byte list"
  assume "ll_state_ok s"
  then obtain as where r: "pool_ok (fst s)" "ll_rep (snd s) as (ll_slices (snd s))"
      "ll_contents (snd s) = bytes_of (ll_slices (snd s))"
    by (auto simp: ll_state_ok_def elim: ll_ok_rep)
  show "\<exists>s'. ll_wr s p = Some (int (length p), None, s') \<and> ll_state_ok s' \<and> ll_q s' = ll_q s @ p"
    using ll_PushBack_spec [OF r(2,1), of p] r(3)
    by (auto simp: ll_wr_def ll_q_def ll_state_ok_def ll_has_iff)
  show "\<exists>e s'. ll_rd s p = Some (int (min (length p) (length (ll_q s))), e,
      take (length p) (ll_q s) @ drop (length (ll_q s)) p, s') \<and>
      ll_state_ok s' \<and> ll_q s' = drop (length p) (ll_q s)"
    using ll_Read_spec [OF r(2,1), of p] r(3)
    by (auto simp: ll_rd_def ll_q_def ll_state_ok_def ll_has_iff)
qed

section \<open>Properties\<close>

text \<open>
  C11: the linked-list buffer implements a byte queue with two ends. Every sequence of
  \<open>PushBack\<close>, \<open>PushFront\<close>, \<open>Read\<close>, \<open>Peek\<close>, \<open>Discard\<close>, \<open>Buffered\<close>, \<open>Reset\<close>, and \<open>ReadFrom\<close> of
  readers that report their end without data, on an empty buffer, returns (no nil or dangling
  pointer is followed, no loop runs on a cycle), reports what the byte queue reports, and leaves
  a well-formed list whose counter \<open>Buffered\<close> is the number of the bytes.
\<close>

theorem ll_implements_queue:
  assumes "pool_ok pool" and "list_all ll_op_ok xs"
  shows "\<exists>pool' b'. ll_run xs (pool, ll_empty) = Some (fst (lq_run xs []), pool', b') \<and> ll_ok b' \<and>
    ll_contents b' = snd (lq_run xs []) \<and> ll_Buffered b' = int (length (snd (lq_run xs [])))"
proof -
  have "ll_has ll_empty []" by (rule ll_rep_has [OF ll_rep_empty]) simp
  from ll_run_refines [OF this assms] obtain pool' b' where
    x: "ll_run xs (pool, ll_empty) = Some (fst (lq_run xs []), pool', b')" "ll_has b' (snd (lq_run xs []))"
    by blast
  then obtain as ss where "ll_rep b' as ss" "bytes_of ss = snd (lq_run xs [])" by (auto simp: ll_has_def)
  then show ?thesis using x ll_obs(1) by (auto simp: ll_has_iff)
qed

definition ll_demo :: "ll_op list" where
  "ll_demo = [LPushBack [1, 2], LPushFront [9], LPeek 2, LReadFrom [([5], None)], LRead [0, 0], LDiscard 5]"

theorem ll_implements_queue_witness:
  "\<exists>pool' b'. ll_run ll_demo (empty_bsPool, ll_empty) = Some (fst (lq_run ll_demo []), pool', b') \<and> ll_ok b' \<and>
    ll_contents b' = snd (lq_run ll_demo []) \<and> ll_Buffered b' = int (length (snd (lq_run ll_demo [])))"
  by (rule ll_implements_queue) (simp_all add: ll_demo_def script_clean_def)

text \<open>
  First in, first out, for any writes and reads on any well-formed list.
\<close>

theorem ll_first_in_first_out:
  assumes "ll_ok b" and "pool_ok pool" and "length (ll_contents b) + length (fifo_input xs) \<le> 2 ^ 59"
  shows "\<exists>out pool' b'. fifo_run ll_wr ll_rd (pool, b) xs = Some (out, pool', b') \<and> ll_ok b' \<and>
    ll_contents b @ fifo_input xs = out @ ll_contents b'"
  using llq.fifo_run_order [of "(pool, b)" xs] assms
  by (auto simp: ll_state_ok_def ll_q_def)

theorem ll_first_in_first_out_witness:
  "\<exists>out pool' b'. fifo_run ll_wr ll_rd (empty_bsPool, ll_empty) [Wr [1, 2], Wr [3], Rd 2] = Some (out, pool', b') \<and>
    ll_ok b' \<and> ll_contents ll_empty @ fifo_input [Wr [1, 2], Wr [3], Rd 2] = out @ ll_contents b'"
  by (rule ll_first_in_first_out)
    (auto simp: ll_rep_ok [OF ll_rep_empty] ll_rep_contents [OF ll_rep_empty])

text \<open>
  \<open>Peek(n)\<close> hands out whole nodes from the front without changing the buffer: as many
  bytes as asked for if they are there, and no node more than needed. A bound of at most 0
  asks for \<open>MaxInt32\<close> bytes, so what lies behind the first 2 GiB is not shown.
\<close>

theorem ll_Peek_whole_nodes:
  assumes "ll_ok b"
  shows "\<exists>views b'. ll_Peek b n = Some (views, b') \<and> ll_ok b' \<and> ll_contents b' = ll_contents b \<and>
    concat views = take (length (concat views)) (ll_contents b) \<and>
    min (if n \<le> 0 then MaxInt32 else n) (int (length (ll_contents b))) \<le> int (length (concat views)) \<and>
    int (length (concat (butlast views))) < (if n \<le> 0 then MaxInt32 else n)"
proof -
  have "ll_has b (ll_contents b)" using assms by (simp add: ll_has_iff)
  from ll_Peek_has [OF this, of n] show ?thesis by (auto simp: ll_has_iff peek_bound_def)
qed

theorem ll_Peek_whole_nodes_witness:
  "\<exists>views b'. ll_Peek ll_empty 3 = Some (views, b') \<and> ll_ok b' \<and> ll_contents b' = ll_contents ll_empty \<and>
    concat views = take (length (concat views)) (ll_contents ll_empty) \<and>
    min (if 3 \<le> (0::int) then MaxInt32 else 3) (int (length (ll_contents ll_empty))) \<le> int (length (concat views)) \<and>
    int (length (concat (butlast views))) < (if 3 \<le> (0::int) then MaxInt32 else 3)"
  by (rule ll_Peek_whole_nodes) (rule ll_rep_ok [OF ll_rep_empty])

text \<open>
  \<open>ReadFrom\<close> appends everything the reader delivers, in order and counted, and ends, for
  every reader that reports EOF or an error in a call of its own; EOF counts as success.
\<close>

theorem ll_ReadFrom_appends:
  assumes "ll_ok b" and "pool_ok pool" and "script_clean s"
  shows "\<exists>pool' b' s'. ll_ReadFrom script_read pool b s =
      Some (int (length (script_data s)), eof_is_nil (script_err s), pool', b', s') \<and>
    ll_ok b' \<and> ll_contents b' = ll_contents b @ script_data s"
proof -
  have "ll_has b (ll_contents b)" using assms(1) by (simp add: ll_has_iff)
  from ll_ReadFrom_loop_spec [OF this assms(2,3), of 0] show ?thesis
    by (auto simp: ll_ReadFrom_def ll_has_iff)
qed

theorem ll_ReadFrom_appends_witness:
  "\<exists>pool' b' s'. ll_ReadFrom script_read empty_bsPool ll_empty [([1, 2], None), ([3], None)] =
      Some (int (length (script_data [([1, 2], None), ([3], None)])),
        eof_is_nil (script_err [([1, 2], None), ([3], None)]), pool', b', s') \<and>
    ll_ok b' \<and> ll_contents b' = ll_contents ll_empty @ script_data [([1, 2], None), ([3], None)]"
  by (rule ll_ReadFrom_appends) (simp_all add: ll_rep_ok [OF ll_rep_empty] script_clean_def)

text \<open>
  Bytes that come together with EOF are lost. An \<open>io.Reader\<close> may return its last bytes
  and EOF in one call; \<open>ReadFrom\<close> then counts them, reports success, and puts the slice that
  holds them back into the pool instead of the list.
\<close>

theorem ll_ReadFrom_drops_last_bytes:
  assumes "ll_ok b" and "pool_ok pool" and "length d \<le> 512"
  shows "\<exists>pool' b'. ll_ReadFrom script_read pool b [(d, Some EOF)] = Some (int (length d), None, pool', b', []) \<and>
    ll_contents b' = ll_contents b"
proof -
  obtain v pool1 where v: "bs_Get pool minRead = Some (v, pool1)" "length (sdata v) = 512"
    using bs_Get_spec [OF assms(2), of minRead] by (auto simp: minRead_def)
  then show ?thesis using assms(3)
    by (auto simp: ll_ReadFrom_def ll_ReadFrom_loop.simps [of _ _ _ "[(d, Some EOF)]"] reslice_def scap_def Let_def)
qed

theorem ll_ReadFrom_drops_last_bytes_witness:
  "\<exists>pool' b'. ll_ReadFrom script_read empty_bsPool ll_empty [([1, 2, 3], Some EOF)] =
      Some (int (length [1::byte, 2, 3]), None, pool', b', []) \<and> ll_contents b' = ll_contents ll_empty"
  by (rule ll_ReadFrom_drops_last_bytes) (simp_all add: ll_rep_ok [OF ll_rep_empty])

text \<open>
  \<open>WriteTo\<close> a writer that reports no errors: the bytes the writer took are exactly those
  removed, in order, and no error means that the list is drained; otherwise it is a short write.
\<close>

theorem ll_WriteTo_transfers:
  assumes "ll_ok b" and "pool_ok pool" and "wscript_clean w"
  shows "\<exists>k pool' b' w'. ll_WriteTo script_write pool b w =
      Some (int k, if k = length (ll_contents b) then None else Some ErrShortWrite, pool', b', w') \<and>
    k \<le> length (ll_contents b) \<and> snd w' = snd w @ take k (ll_contents b) \<and> ll_ok b' \<and>
    ll_contents b' = drop k (ll_contents b)"
proof -
  obtain as where rep: "ll_rep b as (ll_slices b)" "ll_contents b = bytes_of (ll_slices b)"
    using assms(1) by (rule ll_ok_rep)
  show ?thesis using ll_WriteTo_loop_spec [OF rep(1) assms(2,3), of 0] rep(2)
    by (auto simp: ll_WriteTo_def ll_has_iff)
qed

theorem ll_WriteTo_transfers_witness:
  "\<exists>k pool' b' w'. ll_WriteTo script_write empty_bsPool ll_empty ([(1, None)], [] :: byte list) =
      Some (int k, if k = length (ll_contents ll_empty) then None else Some ErrShortWrite, pool', b', w') \<and>
    k \<le> length (ll_contents ll_empty) \<and> snd w' = snd ([(1::nat, None::goerror option)], [] :: byte list) @ take k (ll_contents ll_empty) \<and> ll_ok b' \<and>
    ll_contents b' = drop k (ll_contents ll_empty)"
  by (rule ll_WriteTo_transfers) (simp_all add: ll_rep_ok [OF ll_rep_empty] wscript_clean_def)

text \<open>
  A write error loses a node. When the writer reports an error (a socket that would
  block), \<open>WriteTo\<close> returns without putting the popped node back: the bytes of it that were
  not written are gone, and its slice is not recycled either.
\<close>

theorem ll_WriteTo_error_loses_node:
  assumes "ll_rep b as (s # ss)"
  shows "\<exists>b'. ll_WriteTo script_write pool b ((k, Some e) # xs, out) =
      Some (int (min k (length (sdata s))), Some e, pool, b', (xs, out @ take k (sdata s))) \<and>
    ll_contents b = sdata s @ ll_contents b' \<and> ll_ok b'"
proof -
  obtain a as' b1 where b1: "ll_pop b = Some (Some a, b1)" "ll_rep b1 as' ss"
      "ll_heap b1 a = Some \<lparr>nd_buf = s, nd_next = None\<rparr>"
    using ll_pop_cons [OF assms] by blast
  then have "ll_WriteTo script_write pool b ((k, Some e) # xs, out) =
      Some (int (min k (length (sdata s))), Some e, pool, b1, (xs, out @ take k (sdata s)))"
    by (simp add: ll_WriteTo_def ll_WriteTo_loop.simps [of _ _ b] node_len_def slen_def)
  then show ?thesis using ll_rep_contents [OF assms] ll_rep_contents [OF b1(2)] ll_rep_ok [OF b1(2)] by auto
qed

theorem ll_WriteTo_error_loses_node_witness:
  "let s = \<lparr>sdata = [1, 2, 3], sspare = []\<rparr>;
       b = \<lparr>ll_bs = [], ll_head = Some 0, ll_tail = Some 0, ll_size = 1, ll_bytes = 3,
         ll_heap = [0 \<mapsto> \<lparr>nd_buf = s, nd_next = None\<rparr>], ll_fresh = 1\<rparr> in
   \<exists>b'. ll_WriteTo script_write empty_bsPool b ([(0, Some EAGAIN)], []) =
      Some (int (min 0 (length (sdata s))), Some EAGAIN, empty_bsPool, b', ([], [] @ take 0 (sdata s))) \<and>
    ll_contents b = sdata s @ ll_contents b' \<and> ll_ok b'"
  unfolding Let_def
  by (rule ll_WriteTo_error_loses_node [where as = "[0]" and ss = "[]"]) (simp add: ll_rep_def bytes_of_def)

end
