(* ===== verification/Elastic.thy ===== *)
theory Elastic
  imports RingPool RingIO LinkedListContract
begin

text \<open>
  \<open>pkg/buffer/elastic\<close>: the ring buffer that is taken from the pool on the first write and
  given back when it is drained (\<open>RingBuffer\<close>), and the buffer that puts it in front of a
  linked list (\<open>Buffer\<close>), in that order. The two pools the operations allocate from are the
  record \<open>world\<close>.
\<close>

section \<open>The elastic ring buffer\<close>

record world =
  w_bs :: bsPool
  w_rb :: rbPool

text \<open>The pointer of \<open>elastic.RingBuffer\<close>: \<open>None\<close> is nil.\<close>

record ering =
  er_rb :: "ring option"

definition er_instance :: "world \<Rightarrow> ering \<Rightarrow> (ring \<times> world \<times> ering) option" where
  "er_instance w b =
     (case er_rb b of
        None \<Rightarrow> do { (rb, p) \<leftarrow> rp_Get (w_rb w); Some (rb, w\<lparr>w_rb := p\<rparr>, b\<lparr>er_rb := Some rb\<rparr>) }
      | Some rb \<Rightarrow> Some (rb, w, b))"

definition er_Done :: "world \<Rightarrow> ering \<Rightarrow> world \<times> ering" where
  "er_Done w b =
     (case er_rb b of
        None \<Rightarrow> (w, b)
      | Some rb \<Rightarrow> (w\<lparr>w_rb := rp_Put (w_rb w) rb\<rparr>, b\<lparr>er_rb := None\<rparr>))"

definition er_done :: "world \<Rightarrow> ering \<Rightarrow> world \<times> ering" where
  "er_done w b =
     (case er_rb b of
        None \<Rightarrow> (w, b)
      | Some rb \<Rightarrow> if rb_IsEmpty rb then (w\<lparr>w_rb := rp_Put (w_rb w) rb\<rparr>, b\<lparr>er_rb := None\<rparr>) else (w, b))"

definition er_Peek :: "ering \<Rightarrow> int \<Rightarrow> (byte list \<times> byte list) option" where
  "er_Peek b n = (case er_rb b of None \<Rightarrow> Some ([], []) | Some rb \<Rightarrow> rb_Peek rb n)"

definition er_Discard :: "world \<Rightarrow> ering \<Rightarrow> int \<Rightarrow> (int \<times> goerror option \<times> world \<times> ering) option" where
  "er_Discard w b n =
     (case er_rb b of
        None \<Rightarrow> Some (0, Some ErrIsEmpty, w, b)
      | Some rb \<Rightarrow>
          do {
            (k, e, rb) \<leftarrow> rb_Discard rb n;
            Some (k, e, er_done w (b\<lparr>er_rb := Some rb\<rparr>))
          })"

definition er_Read :: "world \<Rightarrow> ering \<Rightarrow> byte list \<Rightarrow> (int \<times> goerror option \<times> byte list \<times> world \<times> ering) option" where
  "er_Read w b p =
     (case er_rb b of
        None \<Rightarrow> Some (0, Some ErrIsEmpty, p, w, b)
      | Some rb \<Rightarrow>
          do {
            (k, e, p, rb) \<leftarrow> rb_Read rb p;
            Some (k, e, p, er_done w (b\<lparr>er_rb := Some rb\<rparr>))
          })"

definition er_ReadByte :: "world \<Rightarrow> ering \<Rightarrow> (byte \<times> goerror option \<times> world \<times> ering) option" where
  "er_ReadByte w b =
     (case er_rb b of
        None \<Rightarrow> Some (0, Some ErrIsEmpty, w, b)
      | Some rb \<Rightarrow>
          do {
            (c, e, rb) \<leftarrow> rb_ReadByte rb;
            Some (c, e, er_done w (b\<lparr>er_rb := Some rb\<rparr>))
          })"

definition er_Write :: "world \<Rightarrow> ering \<Rightarrow> byte list \<Rightarrow> (int \<times> goerror option \<times> world \<times> ering) option" where
  "er_Write w b p =
     (if length p = 0 then Some (0, None, w, b)
      else do {
        (rb, w, b) \<leftarrow> er_instance w b;
        (n, e, pool, rb) \<leftarrow> rb_Write (w_bs w) rb p;
        Some (n, e, w\<lparr>w_bs := pool\<rparr>, b\<lparr>er_rb := Some rb\<rparr>)
      })"

definition er_WriteByte :: "world \<Rightarrow> ering \<Rightarrow> byte \<Rightarrow> (goerror option \<times> world \<times> ering) option" where
  "er_WriteByte w b c =
     do {
       (rb, w, b) \<leftarrow> er_instance w b;
       (e, pool, rb) \<leftarrow> rb_WriteByte (w_bs w) rb c;
       Some (e, w\<lparr>w_bs := pool\<rparr>, b\<lparr>er_rb := Some rb\<rparr>)
     }"

definition er_WriteString :: "world \<Rightarrow> ering \<Rightarrow> byte list \<Rightarrow> (int \<times> goerror option \<times> world \<times> ering) option" where
  "er_WriteString w b s =
     (if length s = 0 then Some (0, None, w, b)
      else do {
        (rb, w, b) \<leftarrow> er_instance w b;
        (n, e, pool, rb) \<leftarrow> rb_WriteString (w_bs w) rb s;
        Some (n, e, w\<lparr>w_bs := pool\<rparr>, b\<lparr>er_rb := Some rb\<rparr>)
      })"

definition er_Buffered :: "ering \<Rightarrow> int" where
  "er_Buffered b = (case er_rb b of None \<Rightarrow> 0 | Some rb \<Rightarrow> rb_Buffered rb)"

definition er_Len :: "ering \<Rightarrow> int" where
  "er_Len b = (case er_rb b of None \<Rightarrow> 0 | Some rb \<Rightarrow> rb_Len rb)"

definition er_Cap :: "ering \<Rightarrow> int" where
  "er_Cap b = (case er_rb b of None \<Rightarrow> 0 | Some rb \<Rightarrow> rb_Cap rb)"

definition er_Available :: "ering \<Rightarrow> int" where
  "er_Available b = (case er_rb b of None \<Rightarrow> 0 | Some rb \<Rightarrow> rb_Available rb)"

definition er_Bytes :: "ering \<Rightarrow> byte list option" where
  "er_Bytes b = (case er_rb b of None \<Rightarrow> Some [] | Some rb \<Rightarrow> rb_Bytes rb)"

definition er_ReadFrom :: "'s reader \<Rightarrow> world \<Rightarrow> ering \<Rightarrow> 's \<Rightarrow> (int \<times> goerror option \<times> world \<times> ering \<times> 's) option" where
  "er_ReadFrom rd w b s =
     do {
       (rb, w, b) \<leftarrow> er_instance w b;
       (n, e, pool, rb, s) \<leftarrow> rb_ReadFrom rd (w_bs w) rb s;
       Some (n, e, w\<lparr>w_bs := pool\<rparr>, b\<lparr>er_rb := Some rb\<rparr>, s)
     }"

definition er_WriteTo :: "'s writer \<Rightarrow> world \<Rightarrow> ering \<Rightarrow> 's \<Rightarrow> (int \<times> goerror option \<times> world \<times> ering \<times> 's) option" where
  "er_WriteTo wt w b s =
     (case er_rb b of
        None \<Rightarrow> Some (0, Some ErrIsEmpty, w, b, s)
      | Some _ \<Rightarrow>
          do {
            (rb, w, b) \<leftarrow> er_instance w b;
            (n, e, rb, s) \<leftarrow> rb_WriteTo wt rb s;
            let (w, b) = er_done w (b\<lparr>er_rb := Some rb\<rparr>);
            Some (n, e, w, b, s)
          })"

definition er_IsFull :: "ering \<Rightarrow> bool" where
  "er_IsFull b = (case er_rb b of None \<Rightarrow> False | Some rb \<Rightarrow> rb_IsFull rb)"

definition er_IsEmpty :: "ering \<Rightarrow> bool" where
  "er_IsEmpty b = (case er_rb b of None \<Rightarrow> True | Some rb \<Rightarrow> rb_IsEmpty rb)"

definition er_Reset :: "ering \<Rightarrow> ering" where
  "er_Reset b = (case er_rb b of None \<Rightarrow> b | Some rb \<Rightarrow> b\<lparr>er_rb := Some (rb_Reset rb)\<rparr>)"

section \<open>The mixed buffer\<close>

record ebuf =
  eb_max :: int
  eb_ring :: ering
  eb_list :: llbuf

definition eb_New :: "int \<Rightarrow> goerror + ebuf" where
  "eb_New maxStaticBytes =
     (if maxStaticBytes \<le> 0 then Inl ErrNegativeSize
      else Inr \<lparr>eb_max = maxStaticBytes, eb_ring = \<lparr>er_rb = None\<rparr>, eb_list = ll_empty\<rparr>)"

definition eb_Read :: "world \<Rightarrow> ebuf \<Rightarrow> byte list \<Rightarrow> (int \<times> goerror option \<times> byte list \<times> world \<times> ebuf) option" where
  "eb_Read w mb p =
     do {
       (n, err, p, w, r) \<leftarrow> er_Read w (eb_ring mb) p;
       let mb = mb\<lparr>eb_ring := r\<rparr>;
       if n = int (length p) then Some (n, err, p, w, mb)
       else do {
         rest \<leftarrow> lview p n (int (length p));
         (m, err, rest, pool, l) \<leftarrow> ll_Read (w_bs w) (eb_list mb) rest;
         Some (n + m, err, take (nat n) p @ rest, w\<lparr>w_bs := pool\<rparr>, mb\<lparr>eb_list := l\<rparr>)
       }
     }"

definition eb_Peek :: "ebuf \<Rightarrow> int \<Rightarrow> (byte list list \<times> ebuf) option" where
  "eb_Peek mb n =
     (let n = (if n \<le> 0 then MaxInt32 else n) in
      do {
        (head, tail) \<leftarrow> er_Peek (eb_ring mb) n;
        if er_Buffered (eb_ring mb) \<ge> n then Some ([head, tail], mb)
        else do {
          (bs, l) \<leftarrow> ll_PeekWithBytes (eb_list mb) n [head, tail];
          Some (bs, mb\<lparr>eb_list := l\<rparr>)
        }
      })"

definition eb_Discard :: "world \<Rightarrow> ebuf \<Rightarrow> int \<Rightarrow> (int \<times> goerror option \<times> world \<times> ebuf) option" where
  "eb_Discard w mb n =
     do {
       (discarded, err, w, r) \<leftarrow> er_Discard w (eb_ring mb) n;
       let mb = mb\<lparr>eb_ring := r\<rparr>;
       if n \<le> discarded then Some (discarded, err, w, mb)
       else do {
         (m, err, pool, l) \<leftarrow> ll_Discard (w_bs w) (eb_list mb) (n - discarded);
         Some (discarded + m, err, w\<lparr>w_bs := pool\<rparr>, mb\<lparr>eb_list := l\<rparr>)
       }
     }"

text \<open>\<open>mb.listBuffer.PushBack(p)\<close>.\<close>

definition eb_push :: "world \<Rightarrow> ebuf \<Rightarrow> byte list \<Rightarrow> (world \<times> ebuf) option" where
  "eb_push w mb p =
     do { (pool, l) \<leftarrow> ll_PushBack (w_bs w) (eb_list mb) p; Some (w\<lparr>w_bs := pool\<rparr>, mb\<lparr>eb_list := l\<rparr>) }"

definition eb_Write :: "world \<Rightarrow> ebuf \<Rightarrow> byte list \<Rightarrow> (int \<times> goerror option \<times> world \<times> ebuf) option" where
  "eb_Write w mb p =
     (if \<not> ll_IsEmpty (eb_list mb) \<or> er_Buffered (eb_ring mb) \<ge> eb_max mb then
        do { s \<leftarrow> eb_push w mb p; Some (int (length p), None, s) }
      else
        let writable = er_Available (eb_ring mb) in
        if er_Len (eb_ring mb) \<ge> eb_max mb \<and> int (length p) > writable then
          do {
            v \<leftarrow> lview p 0 writable;
            (_, _, w, r) \<leftarrow> er_Write w (eb_ring mb) v;
            v \<leftarrow> lview p writable (int (length p));
            s \<leftarrow> eb_push w (mb\<lparr>eb_ring := r\<rparr>) v;
            Some (int (length p), None, s)
          }
        else
          do {
            (n, e, w, r) \<leftarrow> er_Write w (eb_ring mb) p;
            Some (n, e, w, mb\<lparr>eb_ring := r\<rparr>)
          })"

fun eb_push_all :: "world \<Rightarrow> ebuf \<Rightarrow> byte list list \<Rightarrow> int \<Rightarrow> (int \<times> world \<times> ebuf) option" where
  "eb_push_all w mb [] n = Some (n, w, mb)"
| "eb_push_all w mb (b # bs) n =
     do { (w, mb) \<leftarrow> eb_push w mb b; eb_push_all w mb bs (n + int (length b)) }"

text \<open>The first loop of \<open>Writev\<close>; it ends with the slices left for the second one.\<close>

fun eb_Writev_loop :: "world \<Rightarrow> ebuf \<Rightarrow> byte list list \<Rightarrow> int \<Rightarrow> int \<Rightarrow> (int \<times> byte list list \<times> world \<times> ebuf) option" where
  "eb_Writev_loop w mb [] writable cum = Some (cum, [], w, mb)"
| "eb_Writev_loop w mb (b # bs) writable cum =
     (let cum = cum + int (length b) in
      if int (length b) > writable then
        do {
          v \<leftarrow> lview b 0 writable;
          (_, _, w, r) \<leftarrow> er_Write w (eb_ring mb) v;
          v \<leftarrow> lview b writable (int (length b));
          (w, mb) \<leftarrow> eb_push w (mb\<lparr>eb_ring := r\<rparr>) v;
          Some (cum, bs, w, mb)
        }
      else
        do {
          (n, _, w, r) \<leftarrow> er_Write w (eb_ring mb) b;
          eb_Writev_loop w (mb\<lparr>eb_ring := r\<rparr>) bs (writable - n) cum
        })"

definition eb_Writev :: "world \<Rightarrow> ebuf \<Rightarrow> byte list list \<Rightarrow> (int \<times> goerror option \<times> world \<times> ebuf) option" where
  "eb_Writev w mb bs =
     (if \<not> ll_IsEmpty (eb_list mb) \<or> er_Buffered (eb_ring mb) \<ge> eb_max mb then
        do { (n, w, mb) \<leftarrow> eb_push_all w mb bs 0; Some (n, None, w, mb) }
      else
        let writable = (if er_Len (eb_ring mb) < eb_max mb then eb_max mb - er_Buffered (eb_ring mb)
                        else er_Available (eb_ring mb)) in
        do {
          (cum, rest, w, mb) \<leftarrow> eb_Writev_loop w mb bs writable 0;
          (cum, w, mb) \<leftarrow> eb_push_all w mb rest cum;
          Some (cum, None, w, mb)
        })"

definition eb_ReadFrom :: "'s reader \<Rightarrow> world \<Rightarrow> ebuf \<Rightarrow> 's \<Rightarrow> (int \<times> goerror option \<times> world \<times> ebuf \<times> 's) option" where
  "eb_ReadFrom rd w mb s =
     (if \<not> ll_IsEmpty (eb_list mb) \<or> er_Buffered (eb_ring mb) \<ge> eb_max mb then
        do {
          (n, e, pool, l, s) \<leftarrow> ll_ReadFrom rd (w_bs w) (eb_list mb) s;
          Some (n, e, w\<lparr>w_bs := pool\<rparr>, mb\<lparr>eb_list := l\<rparr>, s)
        }
      else
        do {
          (n, e, w, r, s) \<leftarrow> er_ReadFrom rd w (eb_ring mb) s;
          Some (n, e, w, mb\<lparr>eb_ring := r\<rparr>, s)
        })"

definition eb_WriteTo :: "'s writer \<Rightarrow> world \<Rightarrow> ebuf \<Rightarrow> 's \<Rightarrow> (int \<times> goerror option \<times> world \<times> ebuf \<times> 's) option" where
  "eb_WriteTo wt w mb s =
     do {
       (n, err, w, r, s) \<leftarrow> er_WriteTo wt w (eb_ring mb) s;
       let mb = mb\<lparr>eb_ring := r\<rparr>;
       if err \<noteq> None then Some (n, err, w, mb, s)
       else do {
         (m, err, pool, l, s) \<leftarrow> ll_WriteTo wt (w_bs w) (eb_list mb) s;
         Some (n + m, err, w\<lparr>w_bs := pool\<rparr>, mb\<lparr>eb_list := l\<rparr>, s)
       }
     }"

definition eb_Buffered :: "ebuf \<Rightarrow> int" where
  "eb_Buffered mb = er_Buffered (eb_ring mb) + ll_Buffered (eb_list mb)"

definition eb_IsEmpty :: "ebuf \<Rightarrow> bool" where
  "eb_IsEmpty mb \<longleftrightarrow> er_IsEmpty (eb_ring mb) \<and> ll_IsEmpty (eb_list mb)"

definition eb_Reset :: "world \<Rightarrow> ebuf \<Rightarrow> int \<Rightarrow> (world \<times> ebuf) option" where
  "eb_Reset w mb maxStaticBytes =
     do {
       let mb = mb\<lparr>eb_ring := er_Reset (eb_ring mb)\<rparr>;
       (pool, l) \<leftarrow> ll_Reset (w_bs w) (eb_list mb);
       let mb = mb\<lparr>eb_list := l\<rparr>;
       Some (w\<lparr>w_bs := pool\<rparr>, if maxStaticBytes > 0 then mb\<lparr>eb_max := maxStaticBytes\<rparr> else mb)
     }"

definition eb_Release :: "world \<Rightarrow> ebuf \<Rightarrow> (world \<times> ebuf) option" where
  "eb_Release w mb =
     do {
       let (w, r) = er_Done w (eb_ring mb);
       (pool, l) \<leftarrow> ll_Reset (w_bs w) (eb_list mb);
       Some (w\<lparr>w_bs := pool\<rparr>, mb\<lparr>eb_ring := r, eb_list := l\<rparr>)
     }"

end
