(* ===== verification/ElasticCorrect.thy ===== *)
theory ElasticCorrect
  imports Elastic
begin

text \<open>
  The elastic buffers implement the byte queue contracts: the pooled ring alone, and the ring
  followed by the linked list, where the order of the two parts is the point. The connection
  relies on the second for its outbound data.
\<close>

section \<open>The elastic ring buffer\<close>

definition w_ok :: "world \<Rightarrow> bool" where
  "w_ok w \<longleftrightarrow> pool_ok (w_bs w) \<and> rp_ok (w_rb w)"

definition er_ok :: "ering \<Rightarrow> bool" where
  "er_ok b \<longleftrightarrow> (case er_rb b of None \<Rightarrow> True | Some rb \<Rightarrow> rb_ok rb)"

definition er_contents :: "ering \<Rightarrow> byte list" where
  "er_contents b = (case er_rb b of None \<Rightarrow> [] | Some rb \<Rightarrow> rb_contents rb)"

lemma er_some [simp]:
  "er_ok (b\<lparr>er_rb := Some rb\<rparr>) = rb_ok rb" "er_contents (b\<lparr>er_rb := Some rb\<rparr>) = rb_contents rb"
  by (simp_all add: er_ok_def er_contents_def)

lemma w_ok_bs [simp]: "w_ok w \<Longrightarrow> pool_ok pool \<Longrightarrow> w_ok (w\<lparr>w_bs := pool\<rparr>)"
  by (simp add: w_ok_def)

lemma er_instance_spec:
  assumes "w_ok w" and "er_ok b"
  shows "\<exists>rb w' b'. er_instance w b = Some (rb, w', b') \<and> w_ok w' \<and> rb_ok rb \<and> rb_contents rb = er_contents b"
proof (cases "er_rb b")
  case None
  then show ?thesis using assms rp_Get_spec [of "w_rb w"]
    by (auto simp: er_instance_def w_ok_def er_contents_def)
qed (use assms in \<open>auto simp: er_instance_def er_ok_def er_contents_def\<close>)

lemma er_done_spec:
  assumes "w_ok w" and "rb_ok rb"
  shows "w_ok (fst (er_done w (b\<lparr>er_rb := Some rb\<rparr>)))" and "er_ok (snd (er_done w (b\<lparr>er_rb := Some rb\<rparr>)))"
    and "er_contents (snd (er_done w (b\<lparr>er_rb := Some rb\<rparr>))) = rb_contents rb"
  using assms rp_Put_ok rb_IsEmpty_contents [OF assms(2)]
  by (auto simp: er_done_def w_ok_def er_ok_def er_contents_def rb_IsEmpty_def)

lemma er_done_pair:
  assumes "w_ok w" and "rb_ok rb"
  obtains w' b' where "er_done w (b\<lparr>er_rb := Some rb\<rparr>) = (w', b')" "w_ok w'" "er_ok b'"
    "er_contents b' = rb_contents rb"
  using er_done_spec [OF assms, of b] by (metis prod.collapse)

lemma er_Write_spec:
  assumes "w_ok w" and "er_ok b" and "length (er_contents b) + length p \<le> rb_limit"
  shows "\<exists>w' b'. er_Write w b p = Some (int (length p), None, w', b') \<and> w_ok w' \<and> er_ok b' \<and>
    er_contents b' = er_contents b @ p"
proof (cases "p = []")
  case False
  obtain rb w1 b1 where i: "er_instance w b = Some (rb, w1, b1)" "w_ok w1" "rb_ok rb" "rb_contents rb = er_contents b"
    using er_instance_spec [OF assms(1,2)] by blast
  have "pool_ok (w_bs w1)" using i(2) by (simp add: w_ok_def)
  from rb_Write_spec [OF i(3) this, of p] obtain pool' rb' where
    "rb_Write (w_bs w1) rb p = Some (int (length p), None, pool', rb')" "pool_ok pool'" "rb_ok rb'"
    "rb_contents rb' = er_contents b @ p"
    using assms(3) i(4) by auto
  then show ?thesis using i False by (simp add: er_Write_def)
qed (use assms in \<open>simp add: er_Write_def\<close>)

lemma er_Read_spec:
  assumes "w_ok w" and "er_ok b"
  shows "\<exists>e w' b'. er_Read w b p = Some (int (min (length p) (length (er_contents b))), e,
      take (length p) (er_contents b) @ drop (length (er_contents b)) p, w', b') \<and> w_ok w' \<and> er_ok b' \<and>
    er_contents b' = drop (length p) (er_contents b)"
proof (cases "er_rb b")
  case (Some rb)
  then have rb: "rb_ok rb" "er_contents b = rb_contents rb" using assms(2) by (auto simp: er_ok_def er_contents_def)
  obtain e rb' where r: "rb_Read rb p = Some (int (min (length p) (length (rb_contents rb))), e,
      take (length p) (rb_contents rb) @ drop (length (rb_contents rb)) p, rb')" "rb_ok rb'"
      "rb_contents rb' = drop (length p) (rb_contents rb)"
    using rb_Read_spec [OF rb(1), of p] by blast
  obtain w' b' where "er_done w (b\<lparr>er_rb := Some rb'\<rparr>) = (w', b')" "w_ok w'" "er_ok b'"
      "er_contents b' = rb_contents rb'"
    using er_done_pair [OF assms(1) r(2)] by blast
  then show ?thesis using Some r rb(2) by (simp add: er_Read_def)
qed (use assms in \<open>simp add: er_Read_def er_contents_def\<close>)

lemma er_Discard_spec:
  assumes "w_ok w" and "er_ok b"
  shows "\<exists>e w' b'. er_Discard w b n = Some (min (max 0 n) (int (length (er_contents b))), e, w', b') \<and>
    w_ok w' \<and> er_ok b' \<and> er_contents b' = drop (nat n) (er_contents b)"
proof (cases "er_rb b")
  case (Some rb)
  then have rb: "rb_ok rb" "er_contents b = rb_contents rb" using assms(2) by (auto simp: er_ok_def er_contents_def)
  obtain rb' where r: "rb_Discard rb n = Some (min (max 0 n) (int (length (rb_contents rb))), None, rb')" "rb_ok rb'"
      "rb_contents rb' = drop (nat n) (rb_contents rb)"
    using rb_Discard_spec [OF rb(1), of n] by blast
  obtain w' b' where "er_done w (b\<lparr>er_rb := Some rb'\<rparr>) = (w', b')" "w_ok w'" "er_ok b'"
      "er_contents b' = rb_contents rb'"
    using er_done_pair [OF assms(1) r(2)] by blast
  then show ?thesis using Some r rb(2) by (simp add: er_Discard_def)
qed (use assms in \<open>simp add: er_Discard_def er_contents_def\<close>)

lemma er_Peek_spec:
  assumes "er_ok b" and "0 < n"
  shows "\<exists>h t. er_Peek b n = Some (h, t) \<and> h @ t = take (nat n) (er_contents b)"
  using assms rb_Peek_spec by (cases "er_rb b") (fastforce simp: er_Peek_def er_ok_def er_contents_def)+

lemma er_obs:
  assumes "er_ok b"
  shows "er_Buffered b = int (length (er_contents b))" and "er_IsEmpty b \<longleftrightarrow> er_contents b = []"
    and "0 \<le> er_Available b"
  using assms rb_Buffered_contents rb_IsEmpty_contents rb_Available_contents contents_le_size
  by (auto simp: er_ok_def er_contents_def er_Buffered_def er_IsEmpty_def er_Available_def rb_IsEmpty_def
      split: option.splits)

section \<open>The mixed buffer\<close>

definition eb_ok :: "world \<Rightarrow> ebuf \<Rightarrow> bool" where
  "eb_ok w mb \<longleftrightarrow> w_ok w \<and> er_ok (eb_ring mb) \<and> ll_ok (eb_list mb) \<and> solid (ll_slices (eb_list mb)) \<and> 0 < eb_max mb"

definition eb_contents :: "ebuf \<Rightarrow> byte list" where
  "eb_contents mb = er_contents (eb_ring mb) @ ll_contents (eb_list mb)"

lemma ll_IsEmpty_contents: "ll_ok b \<Longrightarrow> ll_IsEmpty b \<Longrightarrow> ll_contents b = []"
  by (erule ll_ok_rep) (simp add: ll_obs)

lemma eb_push_spec:
  assumes "eb_ok w mb"
  shows "\<exists>w' mb'. eb_push w mb p = Some (w', mb') \<and> eb_ok w' mb' \<and> eb_contents mb' = eb_contents mb @ p \<and>
    eb_ring mb' = eb_ring mb \<and> eb_max mb' = eb_max mb"
proof -
  obtain as where r: "ll_rep (eb_list mb) as (ll_slices (eb_list mb))"
      "ll_contents (eb_list mb) = bytes_of (ll_slices (eb_list mb))"
    using assms ll_ok_rep unfolding eb_ok_def by blast
  have "pool_ok (w_bs w)" using assms by (simp add: eb_ok_def w_ok_def)
  from ll_PushBack_spec [OF r(1) this, of p] show ?thesis
    using assms r(2) by (auto simp: eb_push_def eb_ok_def eb_contents_def ll_has_iff)
qed

lemma eb_Write_spec:
  assumes "eb_ok w mb" and "length (eb_contents mb) + length p \<le> rb_limit"
  shows "\<exists>w' mb'. eb_Write w mb p = Some (int (length p), None, w', mb') \<and> eb_ok w' mb' \<and>
    eb_contents mb' = eb_contents mb @ p"
proof -
  have ok: "w_ok w" "er_ok (eb_ring mb)" "ll_ok (eb_list mb)" "0 < eb_max mb" "solid (ll_slices (eb_list mb))"
    using assms(1) by (auto simp: eb_ok_def)
  have lim: "length (er_contents (eb_ring mb)) + length p \<le> rb_limit" using assms(2) by (simp add: eb_contents_def)
  show ?thesis
  proof (cases "\<not> ll_IsEmpty (eb_list mb) \<or> er_Buffered (eb_ring mb) \<ge> eb_max mb")
    case True
    then show ?thesis using eb_push_spec [OF assms(1), of p] by (auto simp: eb_Write_def)
  next
    case False
    then have l: "ll_contents (eb_list mb) = []" using ll_IsEmpty_contents ok(3) by blast
    define writable where "writable = er_Available (eb_ring mb)"
    show ?thesis
    proof (cases "er_Len (eb_ring mb) \<ge> eb_max mb \<and> int (length p) > writable")
      case True
      have w: "0 \<le> writable" "writable \<le> int (length p)" using True er_obs(3) [OF ok(2)] by (auto simp: writable_def)
      have "length (er_contents (eb_ring mb)) + length (take (nat writable) p) \<le> rb_limit"
        using lim by (simp add: min_def)
      from er_Write_spec [OF ok(1,2) this]
      obtain w1 r1 where r1: "er_Write w (eb_ring mb) (take (nat writable) p) =
          Some (int (length (take (nat writable) p)), None, w1, r1)" "w_ok w1" "er_ok r1"
          "er_contents r1 = er_contents (eb_ring mb) @ take (nat writable) p"
        by blast
      have ok1: "eb_ok w1 (mb\<lparr>eb_ring := r1\<rparr>)" using r1 ok by (simp add: eb_ok_def)
      obtain w2 mb2 where p2: "eb_push w1 (mb\<lparr>eb_ring := r1\<rparr>) (drop (nat writable) p) = Some (w2, mb2)" "eb_ok w2 mb2"
          "eb_contents mb2 = eb_contents (mb\<lparr>eb_ring := r1\<rparr>) @ drop (nat writable) p"
        using eb_push_spec [OF ok1] by blast
      have "eb_contents mb2 = eb_contents mb @ p" using p2(3) r1(4) l by (simp add: eb_contents_def)
      then show ?thesis using False True w r1(1) p2
        by (simp add: eb_Write_def Let_def writable_def [symmetric] slice_simps nat_diff_distrib)
    next
      case short: False
      then show ?thesis using False er_Write_spec [OF ok(1,2) lim] ok l
        by (auto simp: eb_Write_def Let_def writable_def eb_ok_def eb_contents_def)
    qed
  qed
qed

lemma eb_Read_spec:
  assumes "eb_ok w mb"
  shows "\<exists>e w' mb'. eb_Read w mb p = Some (int (min (length p) (length (eb_contents mb))), e,
      take (length p) (eb_contents mb) @ drop (length (eb_contents mb)) p, w', mb') \<and> eb_ok w' mb' \<and>
    eb_contents mb' = drop (length p) (eb_contents mb)"
proof -
  have ok: "w_ok w" "er_ok (eb_ring mb)" "ll_ok (eb_list mb)" "0 < eb_max mb" "solid (ll_slices (eb_list mb))"
    using assms(1) by (auto simp: eb_ok_def)
  let ?r = "er_contents (eb_ring mb)" and ?l = "ll_contents (eb_list mb)"
  obtain e w1 r1 where r: "er_Read w (eb_ring mb) p = Some (int (min (length p) (length ?r)), e,
      take (length p) ?r @ drop (length ?r) p, w1, r1)" "w_ok w1" "er_ok r1" "er_contents r1 = drop (length p) ?r"
    using er_Read_spec [OF ok(1,2), of p] by blast
  show ?thesis
  proof (cases "length p \<le> length ?r")
    case True
    then show ?thesis using r ok by (auto simp: eb_Read_def eb_ok_def eb_contents_def)
  next
    case False
    obtain as where rep: "ll_rep (eb_list mb) as (ll_slices (eb_list mb))" "?l = bytes_of (ll_slices (eb_list mb))"
      using ok(3) by (rule ll_ok_rep)
    have pool: "pool_ok (w_bs w1)" using r(2) by (simp add: w_ok_def)
    define q where "q = drop (length ?r) p"
    obtain pool' l' where l': "ll_Read (w_bs w1) (eb_list mb) q = Some (int (min (length q) (length ?l)), None,
        take (length q) ?l @ drop (length ?l) q, pool', l')" "ll_ok l'" "ll_contents l' = drop (length q) ?l" "pool_ok pool'"
        "solid (ll_slices l')"
      using ll_Read_spec [OF rep(1) pool, of q] rep(2) ok(5) by (auto simp: ll_has_iff)
    have v: "lview (?r @ q) (int (length ?r)) (int (length ?r + length q)) = Some q"
      by (simp add: slice_simps)
    have len: "length p = length ?r + length q" "q \<noteq> []" using False by (auto simp: q_def)
    have "eb_Read w mb p = Some (int (length ?r) + int (min (length q) (length ?l)), None,
        ?r @ take (length q) ?l @ drop (length ?l) q, w1\<lparr>w_bs := pool'\<rparr>, mb\<lparr>eb_ring := r1, eb_list := l'\<rparr>)"
      using r(1) l'(1) v len by (simp add: eb_Read_def q_def [symmetric] min_absorb2 Let_def)
    moreover have "eb_ok (w1\<lparr>w_bs := pool'\<rparr>) (mb\<lparr>eb_ring := r1, eb_list := l'\<rparr>)"
      using r l' ok by (simp add: eb_ok_def)
    moreover have "drop (length (?r @ ?l)) p = drop (length ?l) q" by (simp add: q_def add.commute)
    ultimately show ?thesis using r(4) l'(3) len
      by (auto simp: eb_contents_def min_def)
  qed
qed

lemma eb_Discard_spec:
  assumes "eb_ok w mb"
  shows "\<exists>e w' mb'. eb_Discard w mb n = Some (min (max 0 n) (int (length (eb_contents mb))), e, w', mb') \<and>
    eb_ok w' mb' \<and> eb_contents mb' = drop (nat n) (eb_contents mb)"
proof -
  have ok: "w_ok w" "er_ok (eb_ring mb)" "ll_ok (eb_list mb)" "0 < eb_max mb" "solid (ll_slices (eb_list mb))"
    using assms(1) by (auto simp: eb_ok_def)
  let ?r = "er_contents (eb_ring mb)" and ?l = "ll_contents (eb_list mb)"
  obtain e w1 r1 where r: "er_Discard w (eb_ring mb) n = Some (min (max 0 n) (int (length ?r)), e, w1, r1)"
      "w_ok w1" "er_ok r1" "er_contents r1 = drop (nat n) ?r"
    using er_Discard_spec [OF ok(1,2), of n] by blast
  show ?thesis
  proof (cases "n \<le> int (length ?r)")
    case True
    then show ?thesis using r ok by (auto simp: eb_Discard_def eb_ok_def eb_contents_def min_def nat_le_iff)
  next
    case False
    obtain as where rep: "ll_rep (eb_list mb) as (ll_slices (eb_list mb))" "?l = bytes_of (ll_slices (eb_list mb))"
      using ok(3) by (rule ll_ok_rep)
    have pool: "pool_ok (w_bs w1)" using r(2) by (simp add: w_ok_def)
    define k where "k = n - int (length ?r)"
    obtain pool' l' where l': "ll_Discard (w_bs w1) (eb_list mb) k =
        Some (min (max 0 k) (int (length ?l)), None, pool', l')" "ll_ok l'" "ll_contents l' = drop (nat k) ?l" "pool_ok pool'"
        "solid (ll_slices l')"
      using ll_Discard_spec [OF rep(1) pool, of k] rep(2) ok(5) by (auto simp: ll_has_iff)
    have "eb_Discard w mb n = Some (int (length ?r) + min (max 0 k) (int (length ?l)), None,
        w1\<lparr>w_bs := pool'\<rparr>, mb\<lparr>eb_ring := r1, eb_list := l'\<rparr>)"
      using r(1) l'(1) False by (simp add: eb_Discard_def k_def min_def max_def)
    moreover have "eb_ok (w1\<lparr>w_bs := pool'\<rparr>) (mb\<lparr>eb_ring := r1, eb_list := l'\<rparr>)"
      using r l' ok by (simp add: eb_ok_def)
    moreover have "nat n = length ?r + nat k" using False by (simp add: k_def nat_diff_distrib)
    ultimately show ?thesis using r(4) l'(3) False
      by (auto simp: eb_contents_def k_def min_def max_def)
  qed
qed

lemma eb_push_all_spec:
  assumes "eb_ok w mb"
  shows "\<exists>w' mb'. eb_push_all w mb bs n = Some (n + int (length (concat bs)), w', mb') \<and> eb_ok w' mb' \<and>
    eb_contents mb' = eb_contents mb @ concat bs"
  using assms
proof (induction bs arbitrary: w mb n)
  case (Cons b bs)
  obtain w1 mb1 where p: "eb_push w mb b = Some (w1, mb1)" "eb_ok w1 mb1" "eb_contents mb1 = eb_contents mb @ b"
    using eb_push_spec [OF Cons.prems, of b] by blast
  show ?case using Cons.IH [OF p(2), of "n + int (length b)"] p by (auto simp: algebra_simps)
qed simp

lemma eb_Writev_loop_spec:
  assumes "eb_ok w mb" and "ll_contents (eb_list mb) = []" and "0 \<le> writable"
    and "length (eb_contents mb) + length (concat bs) \<le> rb_limit"
  shows "\<exists>pre rest w' mb'. eb_Writev_loop w mb bs writable cum =
      Some (cum + int (length (concat pre)), rest, w', mb') \<and> bs = pre @ rest \<and> eb_ok w' mb' \<and>
    eb_contents mb' = eb_contents mb @ concat pre"
  using assms
proof (induction bs arbitrary: w mb writable cum)
  case Nil
  then show ?case by (intro exI [of _ "[]"]) simp
next
  case (Cons b bs)
  have ok: "w_ok w" "er_ok (eb_ring mb)" using Cons.prems(1) by (auto simp: eb_ok_def)
  show ?case
  proof (cases "int (length b) > writable")
    case True
    have w: "0 \<le> writable" "writable \<le> int (length b)" using True Cons.prems(3) by auto
    have "length (er_contents (eb_ring mb)) + length (take (nat writable) b) \<le> rb_limit"
      using Cons.prems(4) by (simp add: eb_contents_def min_def)
    from er_Write_spec [OF ok this] obtain w1 r1 where
      r1: "er_Write w (eb_ring mb) (take (nat writable) b) = Some (int (length (take (nat writable) b)), None, w1, r1)"
        "w_ok w1" "er_ok r1" "er_contents r1 = er_contents (eb_ring mb) @ take (nat writable) b"
      by blast
    have "eb_ok w1 (mb\<lparr>eb_ring := r1\<rparr>)" using r1 Cons.prems(1) by (simp add: eb_ok_def)
    from eb_push_spec [OF this] obtain w2 mb2 where
      p2: "eb_push w1 (mb\<lparr>eb_ring := r1\<rparr>) (drop (nat writable) b) = Some (w2, mb2)" "eb_ok w2 mb2"
        "eb_contents mb2 = eb_contents (mb\<lparr>eb_ring := r1\<rparr>) @ drop (nat writable) b"
      by blast
    have "eb_contents mb2 = eb_contents mb @ b" using p2(3) r1(4) Cons.prems(2) by (simp add: eb_contents_def)
    then show ?thesis using True w r1(1) p2(1,2)
      by (intro exI [of _ "[b]"] exI [of _ bs]) (simp add: slice_simps Let_def nat_diff_distrib)
  next
    case False
    have "length (er_contents (eb_ring mb)) + length b \<le> rb_limit" using Cons.prems(4) by (simp add: eb_contents_def)
    from er_Write_spec [OF ok this] obtain w1 r1 where
      r1: "er_Write w (eb_ring mb) b = Some (int (length b), None, w1, r1)"
        "w_ok w1" "er_ok r1" "er_contents r1 = er_contents (eb_ring mb) @ b"
      by blast
    define mb1 where "mb1 = mb\<lparr>eb_ring := r1\<rparr>"
    have m: "eb_ok w1 mb1" "ll_contents (eb_list mb1) = []" "eb_contents mb1 = eb_contents mb @ b"
      using r1 Cons.prems(1,2) by (auto simp: mb1_def eb_ok_def eb_contents_def)
    obtain pre rest w' mb' where ih: "eb_Writev_loop w1 mb1 bs (writable - int (length b)) (cum + int (length b)) =
        Some (cum + int (length b) + int (length (concat pre)), rest, w', mb')" "bs = pre @ rest" "eb_ok w' mb'"
        "eb_contents mb' = eb_contents mb1 @ concat pre"
      using Cons.IH [OF m(1,2), of "writable - int (length b)" "cum + int (length b)"] False Cons.prems(4) m(3) by auto
    then show ?thesis using False r1(1) m(3)
      by (intro exI [of _ "b # pre"] exI [of _ rest]) (simp add: mb1_def Let_def)
  qed
qed

lemma eb_Writev_spec:
  assumes "eb_ok w mb" and "length (eb_contents mb) + length (concat bs) \<le> rb_limit"
  shows "\<exists>w' mb'. eb_Writev w mb bs = Some (int (length (concat bs)), None, w', mb') \<and> eb_ok w' mb' \<and>
    eb_contents mb' = eb_contents mb @ concat bs"
proof (cases "\<not> ll_IsEmpty (eb_list mb) \<or> er_Buffered (eb_ring mb) \<ge> eb_max mb")
  case True
  then show ?thesis using eb_push_all_spec [OF assms(1), of bs 0] by (auto simp: eb_Writev_def)
next
  case False
  have ok: "er_ok (eb_ring mb)" "ll_ok (eb_list mb)" using assms(1) by (auto simp: eb_ok_def)
  define writable where "writable = (if er_Len (eb_ring mb) < eb_max mb then eb_max mb - er_Buffered (eb_ring mb)
      else er_Available (eb_ring mb))"
  have "0 \<le> writable" "ll_contents (eb_list mb) = []"
    using False er_obs(3) [OF ok(1)] ll_IsEmpty_contents [OF ok(2)] by (auto simp: writable_def)
  from eb_Writev_loop_spec [OF assms(1) this(2,1) assms(2), of 0] obtain pre rest w1 mb1 where
    l: "eb_Writev_loop w mb bs writable 0 = Some (int (length (concat pre)), rest, w1, mb1)" "bs = pre @ rest"
      "eb_ok w1 mb1" "eb_contents mb1 = eb_contents mb @ concat pre"
    by auto
  then show ?thesis using False eb_push_all_spec [OF l(3), of rest "int (length (concat pre))"]
    by (auto simp: eb_Writev_def Let_def writable_def [symmetric])
qed

lemma eb_obs:
  assumes "eb_ok w mb"
  shows "eb_Buffered mb = int (length (eb_contents mb))" and "eb_IsEmpty mb \<Longrightarrow> eb_contents mb = []"
  using assms er_obs [of "eb_ring mb"] ll_IsEmpty_contents [of "eb_list mb"]
  by (auto simp: eb_ok_def eb_Buffered_def eb_IsEmpty_def eb_contents_def ll_obs elim!: ll_ok_rep)

lemma eb_IsEmpty_iff:
  assumes "eb_ok w mb"
  shows "eb_IsEmpty mb \<longleftrightarrow> eb_contents mb = []"
proof -
  obtain as where "ll_rep (eb_list mb) as (ll_slices (eb_list mb))" "ll_contents (eb_list mb) = bytes_of (ll_slices (eb_list mb))"
      "solid (ll_slices (eb_list mb))"
    using assms ll_ok_rep unfolding eb_ok_def by blast
  then show ?thesis using assms er_obs(2) [of "eb_ring mb"] ll_obs(3)
    by (cases "ll_slices (eb_list mb)") (auto simp: eb_ok_def eb_IsEmpty_def eb_contents_def solid_def bytes_of_def)
qed

lemma eb_Peek_spec:
  assumes "eb_ok w mb"
  shows "\<exists>views mb'. eb_Peek mb n = Some (views, mb') \<and> eb_ok w mb' \<and> eb_contents mb' = eb_contents mb \<and>
    concat views = take (length (concat views)) (eb_contents mb) \<and>
    min (peek_bound n) (int (length (eb_contents mb))) \<le> int (length (concat views)) \<and>
    (eb_contents mb \<noteq> [] \<longrightarrow> concat (take 2 views) \<noteq> [])"
proof -
  have ok: "er_ok (eb_ring mb)" "ll_ok (eb_list mb)" "solid (ll_slices (eb_list mb))" using assms by (auto simp: eb_ok_def)
  let ?r = "er_contents (eb_ring mb)" and ?l = "ll_contents (eb_list mb)"
  obtain h t where ht: "er_Peek (eb_ring mb) (peek_bound n) = Some (h, t)" "h @ t = take (nat (peek_bound n)) ?r"
    using er_Peek_spec [OF ok(1) peek_bound_pos] by blast
  have pb: "(if peek_bound n \<le> 0 then MaxInt32 else peek_bound n) = peek_bound n" using peek_bound_pos [of n] by simp
  show ?thesis
  proof (cases "peek_bound n \<le> er_Buffered (eb_ring mb)")
    case True
    have "eb_Peek mb n = Some ([h, t], mb)" using True ht(1) by (simp add: eb_Peek_def peek_bound_def [symmetric] Let_def)
    moreover have "length (h @ t) \<le> length ?r" "int (length (h @ t)) = peek_bound n"
      using True ht(2) er_obs(1) [OF ok(1)] peek_bound_pos [of n] by auto
    moreover have "h @ t \<noteq> []" using calculation(3) peek_bound_pos [of n] by auto
    ultimately show ?thesis using ht(2) assms True er_obs(1) [OF ok(1)]
      by (intro exI [of _ "[h, t]"] exI [of _ mb]) (simp add: eb_contents_def)
  next
    case False
    then have r: "h @ t = ?r" using ht(2) er_obs(1) [OF ok(1)] by simp
    obtain as where rep: "ll_rep (eb_list mb) as (ll_slices (eb_list mb))" "?l = bytes_of (ll_slices (eb_list mb))"
      using ok(2) by (rule ll_ok_rep)
    define vs where "vs = filter (\<lambda>v. v \<noteq> []) [h, t] @ map sdata (ll_slices (eb_list mb))"
    define views where "views = peek_views (peek_bound n) vs"
    have b2: "peek_bound (peek_bound n) = peek_bound n" using peek_bound_pos [of n] by (simp add: peek_bound_def)
    have p: "eb_Peek mb n = Some (views, mb\<lparr>eb_list := (eb_list mb)\<lparr>ll_bs := views\<rparr>\<rparr>)"
      using False ht(1) ll_PeekWithBytes_spec [OF rep(1), of "peek_bound n" "[h, t]"]
      by (simp add: eb_Peek_def peek_bound_def [symmetric] b2 views_def vs_def Let_def)
    have cv: "concat vs = eb_contents mb" using r rep(2) by (auto simp: vs_def eb_contents_def bytes_of_def)
    obtain k where "views = take k vs" using peek_views_prefix unfolding views_def by blast
    then have "eb_contents mb = concat views @ concat (drop k vs)"
      using cv by (metis append_take_drop_id concat_append)
    then have pre: "concat views = take (length (concat views)) (eb_contents mb)" by simp
    have "min (peek_bound n) (int (length (eb_contents mb))) \<le> int (length (concat views))"
      using peek_views_reaches [of "peek_bound n" vs] cv by (simp add: views_def)
    moreover have "ll_has ((eb_list mb)\<lparr>ll_bs := views\<rparr>) ?l" using ok(2) by (simp add: ll_has_iff [of "eb_list mb"])
    then have "ll_ok ((eb_list mb)\<lparr>ll_bs := views\<rparr>)" "ll_contents ((eb_list mb)\<lparr>ll_bs := views\<rparr>) = ?l"
      by (auto simp only: ll_has_iff)
    moreover have "concat (take 2 views) \<noteq> []" if ne: "eb_contents mb \<noteq> []"
    proof -
      have "[] \<notin> set vs" using ok(3) by (auto simp: vs_def solid_def)
      moreover obtain v ws where "vs = v # ws" using cv ne by (cases vs) auto
      ultimately show ?thesis by (auto simp: views_def numeral_2_eq_2)
    qed
    ultimately show ?thesis using p pre assms by (auto simp: eb_ok_def eb_contents_def)
  qed
qed

lemma er_Done_spec:
  assumes "w_ok w" and "er_ok b"
  shows "w_ok (fst (er_Done w b))" and "er_rb (snd (er_Done w b)) = None"
  using assms rp_Put_ok by (auto simp: er_Done_def w_ok_def er_ok_def split: option.splits)

lemma eb_Release_spec:
  assumes "eb_ok w mb"
  shows "\<exists>w' mb'. eb_Release w mb = Some (w', mb') \<and> eb_ok w' mb' \<and> eb_contents mb' = [] \<and> eb_IsEmpty mb'"
proof -
  have ok: "w_ok w" "er_ok (eb_ring mb)" "ll_ok (eb_list mb)" using assms by (auto simp: eb_ok_def)
  obtain w1 r1 where d: "er_Done w (eb_ring mb) = (w1, r1)" "w_ok w1" "er_rb r1 = None"
    using er_Done_spec [OF ok(1,2)] by (metis prod.collapse)
  obtain as where rep: "ll_rep (eb_list mb) as (ll_slices (eb_list mb))" using ok(3) by (rule ll_ok_rep)
  have "pool_ok (w_bs w1)" using d(2) by (simp add: w_ok_def)
  from ll_Reset_spec [OF rep this] obtain pool' l where l: "ll_Reset (w_bs w1) (eb_list mb) = Some (pool', l)"
      "ll_rep l [] []" "pool_ok pool'"
    by blast
  then show ?thesis
    using d assms ll_rep_ok [OF l(2)] ll_rep_contents [OF l(2)] ll_rep_slices [OF l(2)] ll_obs(3) [OF l(2)]
    by (simp add: eb_Release_def eb_ok_def eb_contents_def er_ok_def er_contents_def eb_IsEmpty_def er_IsEmpty_def)
qed

section \<open>The contracts\<close>

definition eb_wr :: "world \<times> ebuf \<Rightarrow> byte list \<Rightarrow> (int \<times> goerror option \<times> world \<times> ebuf) option" where
  "eb_wr s p = eb_Write (fst s) (snd s) p"

definition eb_rd :: "world \<times> ebuf \<Rightarrow> byte list \<Rightarrow> (int \<times> goerror option \<times> byte list \<times> world \<times> ebuf) option" where
  "eb_rd s p = eb_Read (fst s) (snd s) p"

definition eb_q :: "world \<times> ebuf \<Rightarrow> byte list" where
  "eb_q s = eb_contents (snd s)"

definition eb_state_ok :: "world \<times> ebuf \<Rightarrow> bool" where
  "eb_state_ok s \<longleftrightarrow> eb_ok (fst s) (snd s)"

interpretation ebq: byte_fifo eb_wr eb_rd eb_q eb_state_ok rb_limit
proof unfold_locales
  fix s :: "world \<times> ebuf" and p :: "byte list"
  assume ok: "eb_state_ok s"
  show "length (eb_q s) + length p \<le> rb_limit \<Longrightarrow> \<exists>s'. eb_wr s p = Some (int (length p), None, s') \<and>
      eb_state_ok s' \<and> eb_q s' = eb_q s @ p"
    using eb_Write_spec [of "fst s" "snd s" p] ok by (auto simp: eb_wr_def eb_q_def eb_state_ok_def)
  show "\<exists>e s'. eb_rd s p = Some (int (min (length p) (length (eb_q s))), e,
      take (length p) (eb_q s) @ drop (length (eb_q s)) p, s') \<and>
      eb_state_ok s' \<and> eb_q s' = drop (length p) (eb_q s)"
    using eb_Read_spec [of "fst s" "snd s" p] ok by (auto simp: eb_rd_def eb_q_def eb_state_ok_def)
qed

definition er_wr :: "world \<times> ering \<Rightarrow> byte list \<Rightarrow> (int \<times> goerror option \<times> world \<times> ering) option" where
  "er_wr s p = er_Write (fst s) (snd s) p"

definition er_rd :: "world \<times> ering \<Rightarrow> byte list \<Rightarrow> (int \<times> goerror option \<times> byte list \<times> world \<times> ering) option" where
  "er_rd s p = er_Read (fst s) (snd s) p"

definition er_q :: "world \<times> ering \<Rightarrow> byte list" where
  "er_q s = er_contents (snd s)"

definition er_state_ok :: "world \<times> ering \<Rightarrow> bool" where
  "er_state_ok s \<longleftrightarrow> w_ok (fst s) \<and> er_ok (snd s)"

interpretation erq: byte_fifo er_wr er_rd er_q er_state_ok rb_limit
proof unfold_locales
  fix s :: "world \<times> ering" and p :: "byte list"
  assume ok: "er_state_ok s"
  show "length (er_q s) + length p \<le> rb_limit \<Longrightarrow> \<exists>s'. er_wr s p = Some (int (length p), None, s') \<and>
      er_state_ok s' \<and> er_q s' = er_q s @ p"
    using er_Write_spec [of "fst s" "snd s" p] ok by (auto simp: er_wr_def er_q_def er_state_ok_def)
  show "\<exists>e s'. er_rd s p = Some (int (min (length p) (length (er_q s))), e,
      take (length p) (er_q s) @ drop (length (er_q s)) p, s') \<and>
      er_state_ok s' \<and> er_q s' = drop (length p) (er_q s)"
    using er_Read_spec [of "fst s" "snd s" p] ok by (auto simp: er_rd_def er_q_def er_state_ok_def)
qed

section \<open>Properties\<close>

definition empty_world :: world where
  "empty_world = \<lparr>w_bs = empty_bsPool, w_rb = empty_rbPool\<rparr>"

lemma w_ok_empty [simp]: "w_ok empty_world"
  by (simp add: w_ok_def empty_world_def)

lemma eb_ok_new: "eb_New m = Inr mb \<Longrightarrow> eb_ok empty_world mb \<and> eb_contents mb = []"
  using ll_rep_ok [OF ll_rep_empty] ll_rep_contents [OF ll_rep_empty]
  by (auto simp: eb_New_def eb_ok_def er_ok_def er_contents_def eb_contents_def split: if_splits)

text \<open>
  C12: first in, first out through the mixed buffer. Whatever is written and read, in pieces of
  any sizes, while the data overflows from the pooled ring into the linked list and back, no
  byte is lost, duplicated or overtaken by another.
\<close>

theorem eb_first_in_first_out:
  assumes "eb_ok w mb" and "length (eb_contents mb) + length (fifo_input xs) \<le> rb_limit"
  shows "\<exists>out w' mb'. fifo_run eb_wr eb_rd (w, mb) xs = Some (out, w', mb') \<and> eb_ok w' mb' \<and>
    eb_contents mb @ fifo_input xs = out @ eb_contents mb'"
  using ebq.fifo_run_order [of "(w, mb)" xs] assms
  by (auto simp: eb_state_ok_def eb_q_def)

theorem eb_first_in_first_out_witness:
  "\<exists>out w' mb'. fifo_run eb_wr eb_rd (empty_world, \<lparr>eb_max = 4, eb_ring = \<lparr>er_rb = None\<rparr>, eb_list = ll_empty\<rparr>)
      [Wr [1, 2, 3, 4, 5], Wr [6], Rd 3, Wr [7]] = Some (out, w', mb') \<and> eb_ok w' mb' \<and>
    eb_contents \<lparr>eb_max = 4, eb_ring = \<lparr>er_rb = None\<rparr>, eb_list = ll_empty\<rparr> @
      fifo_input [Wr [1, 2, 3, 4, 5], Wr [6], Rd 3, Wr [7]] = out @ eb_contents mb'"
  by (rule eb_first_in_first_out) (use eb_ok_new [of 4] in \<open>auto simp: eb_New_def rb_limit_def\<close>)

text \<open>
  First in, first out through the elastic ring buffer alone, across the moments where it
  gives its ring back to the pool and takes another.
\<close>

theorem er_first_in_first_out:
  assumes "w_ok w" and "er_ok b" and "length (er_contents b) + length (fifo_input xs) \<le> rb_limit"
  shows "\<exists>out w' b'. fifo_run er_wr er_rd (w, b) xs = Some (out, w', b') \<and> er_ok b' \<and>
    er_contents b @ fifo_input xs = out @ er_contents b'"
  using erq.fifo_run_order [of "(w, b)" xs] assms
  by (auto simp: er_state_ok_def er_q_def)

theorem er_first_in_first_out_witness:
  "\<exists>out w' b'. fifo_run er_wr er_rd (empty_world, \<lparr>er_rb = None\<rparr>) [Wr [1, 2], Rd 2, Wr [3]] = Some (out, w', b') \<and>
    er_ok b' \<and> er_contents \<lparr>er_rb = None\<rparr> @ fifo_input [Wr [1, 2], Rd 2, Wr [3]] = out @ er_contents b'"
  by (rule er_first_in_first_out) (simp_all add: er_ok_def er_contents_def rb_limit_def)

text \<open>
  The gathered write. \<open>Writev\<close> of several slices appends their concatenation and
  reports its length, wherever the boundary between ring and list falls among them; it leaves
  the same bytes as one \<open>Write\<close> of the concatenation.
\<close>

theorem eb_Writev_is_Write:
  assumes "eb_ok w mb" and "length (eb_contents mb) + length (concat bs) \<le> rb_limit"
  shows "\<exists>w1 mb1 w2 mb2. eb_Writev w mb bs = Some (int (length (concat bs)), None, w1, mb1) \<and>
    eb_Write w mb (concat bs) = Some (int (length (concat bs)), None, w2, mb2) \<and>
    eb_ok w1 mb1 \<and> eb_contents mb1 = eb_contents mb @ concat bs \<and> eb_contents mb1 = eb_contents mb2"
proof -
  obtain w1 mb1 where "eb_Writev w mb bs = Some (int (length (concat bs)), None, w1, mb1)" "eb_ok w1 mb1"
      "eb_contents mb1 = eb_contents mb @ concat bs"
    using eb_Writev_spec [OF assms] by blast
  moreover obtain w2 mb2 where "eb_Write w mb (concat bs) = Some (int (length (concat bs)), None, w2, mb2)"
      "eb_contents mb2 = eb_contents mb @ concat bs"
    using eb_Write_spec [OF assms] by blast
  ultimately show ?thesis by auto
qed

theorem eb_Writev_is_Write_witness:
  "let mb = \<lparr>eb_max = 2, eb_ring = \<lparr>er_rb = None\<rparr>, eb_list = ll_empty\<rparr>; bs = [[1], [2, 3], [4]] in
   \<exists>w1 mb1 w2 mb2. eb_Writev empty_world mb bs = Some (int (length (concat bs)), None, w1, mb1) \<and>
    eb_Write empty_world mb (concat bs) = Some (int (length (concat bs)), None, w2, mb2) \<and>
    eb_ok w1 mb1 \<and> eb_contents mb1 = eb_contents mb @ concat bs \<and> eb_contents mb1 = eb_contents mb2"
  unfolding Let_def
  by (rule eb_Writev_is_Write) (use eb_ok_new [of 2] in \<open>auto simp: eb_New_def rb_limit_def\<close>)

text \<open>
  C15: sending from the mixed buffer. What \<open>Peek\<close> shows is a prefix of the contents, all of
  it or at least as much as asked for (\<open>MaxInt32\<close> bytes when asked for at most 0), and
  discarding the part of it that was sent leaves exactly the rest.
\<close>

theorem eb_Peek_then_Discard:
  assumes "eb_ok w mb"
  shows "\<exists>views mb1. eb_Peek mb n = Some (views, mb1) \<and>
    min (if n \<le> 0 then MaxInt32 else n) (int (length (eb_contents mb))) \<le> int (length (concat views)) \<and>
    (\<forall>k \<le> length (concat views). \<exists>e w2 mb2. eb_Discard w mb1 (int k) = Some (int k, e, w2, mb2) \<and>
      eb_ok w2 mb2 \<and> eb_contents mb = take k (concat views) @ eb_contents mb2)"
proof -
  obtain views mb1 where p: "eb_Peek mb n = Some (views, mb1)" "eb_ok w mb1" "eb_contents mb1 = eb_contents mb"
      "concat views = take (length (concat views)) (eb_contents mb)"
      "min (peek_bound n) (int (length (eb_contents mb))) \<le> int (length (concat views))"
    using eb_Peek_spec [OF assms, of n] by blast
  have "\<exists>e w2 mb2. eb_Discard w mb1 (int k) = Some (int k, e, w2, mb2) \<and> eb_ok w2 mb2 \<and>
      eb_contents mb = take k (concat views) @ eb_contents mb2" if k: "k \<le> length (concat views)" for k
  proof -
    have "length (concat views) \<le> length (eb_contents mb)" using p(4) by (metis length_take min.cobounded1)
    then have le: "k \<le> length (eb_contents mb)" using k by simp
    have "take k (concat views) = take k (eb_contents mb)" using p(4) k by (metis min.absorb1 take_take)
    then have "eb_contents mb = take k (concat views) @ drop k (eb_contents mb)" by simp
    then show ?thesis using eb_Discard_spec [OF p(2), of "int k"] le p(3) by auto
  qed
  then show ?thesis using p(1,5) by (auto simp: peek_bound_def)
qed

theorem eb_Peek_then_Discard_witness:
  "let mb = \<lparr>eb_max = 2, eb_ring = \<lparr>er_rb = None\<rparr>, eb_list = ll_empty\<rparr> in
   \<exists>views mb1. eb_Peek mb 5 = Some (views, mb1) \<and>
    min (if 5 \<le> (0::int) then MaxInt32 else 5) (int (length (eb_contents mb))) \<le> int (length (concat views)) \<and>
    (\<forall>k \<le> length (concat views). \<exists>e w2 mb2. eb_Discard empty_world mb1 (int k) = Some (int k, e, w2, mb2) \<and>
      eb_ok w2 mb2 \<and> eb_contents mb = take k (concat views) @ eb_contents mb2)"
  unfolding Let_def by (rule eb_Peek_then_Discard) (use eb_ok_new [of 2] in \<open>simp add: eb_New_def\<close>)

text \<open>
  \<open>WriteTo\<close> of the mixed buffer does not reach the list when the ring is empty: the
  ring's \<open>ErrIsEmpty\<close> is returned as the result, nothing is written, and the pending bytes
  of the list stay although \<open>Buffered\<close> reports them.
\<close>

theorem eb_WriteTo_skips_list:
  assumes "eb_ok w mb" and "er_rb (eb_ring mb) = None"
  shows "eb_WriteTo wt w mb s = Some (0, Some ErrIsEmpty, w, mb, s) \<and>
    eb_Buffered mb = int (length (ll_contents (eb_list mb)))"
  using assms eb_obs(1) [OF assms(1)]
  by (simp add: eb_WriteTo_def er_WriteTo_def eb_contents_def er_contents_def)

theorem eb_WriteTo_skips_list_witness:
  "let mb = \<lparr>eb_max = 4, eb_ring = \<lparr>er_rb = None\<rparr>, eb_list = \<lparr>ll_bs = [], ll_head = Some 0, ll_tail = Some 0,
       ll_size = 1, ll_bytes = 2, ll_heap = [0 \<mapsto> \<lparr>nd_buf = \<lparr>sdata = [1, 2], sspare = []\<rparr>, nd_next = None\<rparr>],
       ll_fresh = 1\<rparr>\<rparr> in
   eb_WriteTo script_write empty_world mb ([], []) = Some (0, Some ErrIsEmpty, empty_world, mb, ([], [])) \<and>
    eb_Buffered mb = int (length (ll_contents (eb_list mb)))"
  unfolding Let_def
proof (rule eb_WriteTo_skips_list)
  have "ll_rep \<lparr>ll_bs = [], ll_head = Some 0, ll_tail = Some 0, ll_size = 1, ll_bytes = 2,
      ll_heap = [0 \<mapsto> \<lparr>nd_buf = \<lparr>sdata = [1, 2], sspare = []\<rparr>, nd_next = None\<rparr>], ll_fresh = 1\<rparr>
      [0] [\<lparr>sdata = [1, 2], sspare = []\<rparr>]"
    by (simp add: ll_rep_def)
  then show "eb_ok empty_world \<lparr>eb_max = 4, eb_ring = \<lparr>er_rb = None\<rparr>, eb_list = \<lparr>ll_bs = [], ll_head = Some 0,
       ll_tail = Some 0, ll_size = 1, ll_bytes = 2,
       ll_heap = [0 \<mapsto> \<lparr>nd_buf = \<lparr>sdata = [1, 2], sspare = []\<rparr>, nd_next = None\<rparr>], ll_fresh = 1\<rparr>\<rparr>"
    using ll_rep_slices by (fastforce simp: eb_ok_def er_ok_def intro: ll_rep_ok)
qed simp

end
