(* ===== verification/Netpoll.thy ===== *)
theory Netpoll
  imports Prelude
begin

unbundle bit_operations_syntax

text \<open>
  \<open>internal/netpoll\<close> on Linux: the event constants and the event list (\<open>epoll_events.go\<close>),
  the registration calls and the polling loop of the default poller
  (\<open>epoll_default_poller.go\<close>). The system calls are parameters on a state \<open>'k\<close> of the
  kernel. The loop runs the callbacks of a round in goroutines of their own and waits for all;
  the model runs them one after the other in the order of the events.
\<close>

section \<open>Events\<close>

text \<open>The bits of \<open>epoll_event.events\<close>, as \<open>golang.org/x/sys/unix\<close> documents them.\<close>

definition EPOLLIN :: "32 word" where "EPOLLIN = 0x1"
definition EPOLLPRI :: "32 word" where "EPOLLPRI = 0x2"
definition EPOLLOUT :: "32 word" where "EPOLLOUT = 0x4"
definition EPOLLERR :: "32 word" where "EPOLLERR = 0x8"
definition EPOLLHUP :: "32 word" where "EPOLLHUP = 0x10"
definition EPOLLRDHUP :: "32 word" where "EPOLLRDHUP = 0x2000"

definition ErrEvents :: "32 word" where
  "ErrEvents = EPOLLERR OR EPOLLHUP OR EPOLLRDHUP"

definition OutEvents :: "32 word" where
  "OutEvents = ErrEvents OR EPOLLOUT"

definition InEvents :: "32 word" where
  "InEvents = ErrEvents OR EPOLLIN OR EPOLLPRI"

definition readEvents :: "32 word" where
  "readEvents = EPOLLPRI OR EPOLLIN"

definition writeEvents :: "32 word" where
  "writeEvents = EPOLLOUT"

definition readWriteEvents :: "32 word" where
  "readWriteEvents = readEvents OR writeEvents"

definition InitPollEventsCap :: int where
  "InitPollEventsCap = 128"

definition MaxPollEventsCap :: int where
  "MaxPollEventsCap = 1024"

definition MinPollEventsCap :: int where
  "MinPollEventsCap = 32"

section \<open>The event list\<close>

type_synonym EpollEvent = "int \<times> 32 word"

record eventList =
  el_size :: int
  el_events :: "EpollEvent list"

definition newEventList :: "int \<Rightarrow> eventList" where
  "newEventList n = \<lparr>el_size = n, el_events = replicate (nat n) (0, 0)\<rparr>"

definition el_expand :: "eventList \<Rightarrow> eventList" where
  "el_expand el =
     (let newSize = push_bit 1 (el_size el) in
      if newSize \<le> MaxPollEventsCap then \<lparr>el_size = newSize, el_events = replicate (nat newSize) (0, 0)\<rparr> else el)"

definition el_shrink :: "eventList \<Rightarrow> eventList" where
  "el_shrink el =
     (let newSize = drop_bit 1 (el_size el) in
      if newSize \<ge> MinPollEventsCap then \<lparr>el_size = newSize, el_events = replicate (nat newSize) (0, 0)\<rparr> else el)"

section \<open>The poller\<close>

record PollAttachment =
  pa_PollFd :: int
  pa_FD :: int

datatype ctl_op = CtlAdd | CtlMod | CtlDel

type_synonym 'k epoll_ctl = "'k \<Rightarrow> int \<Rightarrow> ctl_op \<Rightarrow> int \<Rightarrow> 32 word \<Rightarrow> goerror option \<times> 'k"

definition AddReadWrite :: "'k epoll_ctl \<Rightarrow> PollAttachment \<Rightarrow> 'k \<Rightarrow> goerror option \<times> 'k" where
  "AddReadWrite ctl pa k =
     (let (e, k) = ctl k (pa_PollFd pa) CtlAdd (pa_FD pa) readWriteEvents in (NewSyscallError ''epoll_ctl add'' e, k))"

definition AddRead :: "'k epoll_ctl \<Rightarrow> PollAttachment \<Rightarrow> 'k \<Rightarrow> goerror option \<times> 'k" where
  "AddRead ctl pa k =
     (let (e, k) = ctl k (pa_PollFd pa) CtlAdd (pa_FD pa) readEvents in (NewSyscallError ''epoll_ctl add'' e, k))"

definition ModRead :: "'k epoll_ctl \<Rightarrow> PollAttachment \<Rightarrow> 'k \<Rightarrow> goerror option \<times> 'k" where
  "ModRead ctl pa k =
     (let (e, k) = ctl k (pa_PollFd pa) CtlMod (pa_FD pa) readEvents in (NewSyscallError ''epoll_ctl mod'' e, k))"

definition ModReadWrite :: "'k epoll_ctl \<Rightarrow> PollAttachment \<Rightarrow> 'k \<Rightarrow> goerror option \<times> 'k" where
  "ModReadWrite ctl pa k =
     (let (e, k) = ctl k (pa_PollFd pa) CtlMod (pa_FD pa) readWriteEvents in (NewSyscallError ''epoll_ctl mod'' e, k))"

definition Delete :: "'k epoll_ctl \<Rightarrow> PollAttachment \<Rightarrow> 'k \<Rightarrow> goerror option \<times> 'k" where
  "Delete ctl pa k =
     (let (e, k) = ctl k (pa_PollFd pa) CtlDel (pa_FD pa) 0 in (NewSyscallError ''epoll_ctl del'' e, k))"

definition ClosePoller :: "('k \<Rightarrow> int \<Rightarrow> goerror option \<times> 'k) \<Rightarrow> int \<Rightarrow> 'k \<Rightarrow> goerror option \<times> 'k" where
  "ClosePoller sysclose pollFd k = (let (e, k) = sysclose k pollFd in (NewSyscallError ''close'' e, k))"

text \<open>
  \<open>EpollWait(pollFd, events, msec)\<close> fills the event array and returns the count. A round of
  the loop: either it ends with an error (\<open>Inl\<close>), or it has handed every event to the
  callback and goes on with the next event list and timeout.
\<close>

type_synonym 'k epoll_wait = "'k \<Rightarrow> int \<Rightarrow> EpollEvent list \<Rightarrow> int \<Rightarrow> int \<times> goerror option \<times> EpollEvent list \<times> 'k"

fun run_callbacks :: "(int \<Rightarrow> 32 word \<Rightarrow> 'k \<Rightarrow> (goerror option \<times> 'k) option) \<Rightarrow> EpollEvent list \<Rightarrow> 'k \<Rightarrow> 'k option" where
  "run_callbacks callback [] k = Some k"
| "run_callbacks callback ((fd, ev) # evs) k =
     do { (_, k) \<leftarrow> callback fd ev k; run_callbacks callback evs k }"

definition polling_round ::
  "'k epoll_wait \<Rightarrow> (int \<Rightarrow> 32 word \<Rightarrow> 'k \<Rightarrow> (goerror option \<times> 'k) option) \<Rightarrow> int \<Rightarrow> eventList \<Rightarrow> int \<Rightarrow> 'k \<Rightarrow>
   ((goerror \<times> 'k) + (eventList \<times> int \<times> 'k)) option" where
  "polling_round wait callback pollFd el msec k =
     (case wait k pollFd (el_events el) msec of (n, err, events, k) \<Rightarrow>
        let el = el\<lparr>el_events := events\<rparr> in
        if n = 0 \<or> (n < 0 \<and> err = Some EINTR) then Some (Inr (el, -1, k))
        else case err of
          Some e \<Rightarrow> Some (Inl (e, k))
        | None \<Rightarrow>
            do {
              k \<leftarrow> run_callbacks callback (take (nat n) (el_events el)) k;
              Some (Inr (if n = el_size el then el_expand el
                         else if n < drop_bit 1 (el_size el) then el_shrink el else el, 0, k))
            })"

partial_function (option) polling_loop ::
  "'k epoll_wait \<Rightarrow> (int \<Rightarrow> 32 word \<Rightarrow> 'k \<Rightarrow> (goerror option \<times> 'k) option) \<Rightarrow> int \<Rightarrow> eventList \<Rightarrow> int \<Rightarrow> 'k \<Rightarrow>
   (goerror \<times> 'k) option" where
  "polling_loop wait callback pollFd el msec k =
     do {
       x \<leftarrow> polling_round wait callback pollFd el msec k;
       case x of
         Inl out \<Rightarrow> Some out
       | Inr y \<Rightarrow> polling_loop wait callback pollFd (fst y) (fst (snd y)) (snd (snd y))
     }"

definition Polling ::
  "'k epoll_wait \<Rightarrow> (int \<Rightarrow> 32 word \<Rightarrow> 'k \<Rightarrow> (goerror option \<times> 'k) option) \<Rightarrow> int \<Rightarrow> 'k \<Rightarrow> (goerror \<times> 'k) option" where
  "Polling wait callback pollFd k = polling_loop wait callback pollFd (newEventList InitPollEventsCap) (-1) k"

section \<open>The event list stays within its bounds\<close>

text \<open>
  The states a round can start in, for a kernel that fills at most the array it is given.
\<close>

inductive polling_reach ::
  "'k epoll_wait \<Rightarrow> (int \<Rightarrow> 32 word \<Rightarrow> 'k \<Rightarrow> (goerror option \<times> 'k) option) \<Rightarrow> int \<Rightarrow> eventList \<Rightarrow> int \<Rightarrow> 'k \<Rightarrow> bool"
  for wait callback pollFd where
  start: "polling_reach wait callback pollFd (newEventList InitPollEventsCap) (-1) k"
| step: "polling_reach wait callback pollFd el msec k \<Longrightarrow>
    polling_round wait callback pollFd el msec k = Some (Inr (el', msec', k')) \<Longrightarrow>
    polling_reach wait callback pollFd el' msec' k'"

definition el_ok :: "eventList \<Rightarrow> bool" where
  "el_ok el \<longleftrightarrow> (\<exists>i. 5 \<le> i \<and> i \<le> 10 \<and> el_size el = 2 ^ i) \<and> int (length (el_events el)) = el_size el"

lemma el_ok_new: "el_ok (newEventList InitPollEventsCap)"
  by (auto simp: el_ok_def newEventList_def InitPollEventsCap_def intro: exI [of _ 7])

lemma el_expand_ok:
  assumes "el_ok el"
  shows "el_ok (el_expand el)"
proof (cases "push_bit 1 (el_size el) \<le> MaxPollEventsCap")
  case True
  from assms obtain i where i: "5 \<le> i" "i \<le> 10" "el_size el = 2 ^ i" by (auto simp: el_ok_def)
  have "(2::int) ^ Suc i \<le> 2 ^ 10" using True i(3) by (simp add: push_bit_eq_mult MaxPollEventsCap_def mult.commute)
  then have "Suc i \<le> 10" by (rule power_le_imp_le_exp [rotated]) simp
  then show ?thesis using True i
    by (auto simp: el_expand_def el_ok_def Let_def push_bit_eq_mult intro!: exI [of _ "Suc i"])
qed (use assms in \<open>simp add: el_expand_def\<close>)

lemma el_shrink_ok:
  assumes "el_ok el"
  shows "el_ok (el_shrink el)"
proof (cases "drop_bit 1 (el_size el) \<ge> MinPollEventsCap")
  case True
  from assms obtain i where i: "5 \<le> i" "i \<le> 10" "el_size el = 2 ^ i" by (auto simp: el_ok_def)
  then have d: "drop_bit 1 (el_size el) = 2 ^ (i - 1)" by (cases i) (simp_all add: drop_bit_eq_div)
  have "(2::int) ^ 5 \<le> 2 ^ (i - 1)" using True d by (simp add: MinPollEventsCap_def)
  then have "5 \<le> i - 1" by (rule power_le_imp_le_exp [rotated]) simp
  then show ?thesis using True d i(2)
    by (auto simp: el_shrink_def el_ok_def Let_def intro!: exI [of _ "i - 1"])
qed (use assms in \<open>simp add: el_shrink_def\<close>)

lemma polling_round_ok:
  assumes "\<And>k fd evs ms n e evs' k'. wait k fd evs ms = (n, e, evs', k') \<Longrightarrow> length evs' = length evs"
    and "el_ok el" and "polling_round wait callback pollFd el msec k = Some (Inr (el', msec', k'))"
  shows "el_ok el'"
proof -
  obtain n e evs k1 where w: "wait k pollFd (el_events el) msec = (n, e, evs, k1)" by (metis prod_cases4)
  have "el_ok (el\<lparr>el_events := evs\<rparr>)" using assms(1) [OF w] assms(2) by (simp add: el_ok_def)
  then show ?thesis using assms(3) el_expand_ok el_shrink_ok
    by (auto simp: polling_round_def w Let_def bind_Some_conv split: if_splits option.splits)
qed

text \<open>
  The event list. In every round of the polling loop, whatever numbers of events the
  kernel reported before (it fills the array it is given), the capacity offered to it is a
  power of two between \<open>MinPollEventsCap\<close> and \<open>MaxPollEventsCap\<close> and the array has
  exactly that many entries.
\<close>

theorem polling_event_list_bounds:
  assumes "\<And>k fd evs ms n e evs' k'. wait k fd evs ms = (n, e, evs', k') \<Longrightarrow> length evs' = length evs"
    and "polling_reach wait callback pollFd el msec k"
  shows "MinPollEventsCap \<le> el_size el \<and> el_size el \<le> MaxPollEventsCap \<and> (\<exists>i. el_size el = 2 ^ i) \<and>
    int (length (el_events el)) = el_size el"
proof -
  from assms(2) have "el_ok el"
  proof (induction rule: polling_reach.induct)
    case (step el msec k el' msec' k')
    show ?case by (rule polling_round_ok [OF assms(1) step(3,2)])
  qed (rule el_ok_new)
  then obtain i where i: "5 \<le> i" "i \<le> 10" "el_size el = 2 ^ i" "int (length (el_events el)) = el_size el"
    by (auto simp: el_ok_def)
  have "(2::int) ^ 5 \<le> 2 ^ i" by (rule power_increasing [OF i(1)]) simp
  moreover have "(2::int) ^ i \<le> 2 ^ 10" by (rule power_increasing [OF i(2)]) simp
  ultimately show ?thesis using i(3,4) by (auto simp: MinPollEventsCap_def MaxPollEventsCap_def)
qed

text \<open>The witness: a kernel that reports its whole array ready, then nothing; the list has doubled.\<close>

definition full_wait :: "nat epoll_wait" where
  "full_wait k fd evs ms = (if k = 0 then (int (length evs), None, evs, 1) else (0, None, evs, k))"

theorem polling_event_list_bounds_witness:
  "MinPollEventsCap \<le> el_size (newEventList 256) \<and> el_size (newEventList 256) \<le> MaxPollEventsCap \<and>
    (\<exists>i. el_size (newEventList 256) = 2 ^ i) \<and>
    int (length (el_events (newEventList 256))) = el_size (newEventList 256)"
proof (rule polling_event_list_bounds)
  show "length evs' = length evs" if "full_wait k fd evs ms = (n, e, evs', k')" for k fd evs ms n e evs' k'
    using that by (auto simp: full_wait_def split: if_splits)
  have "run_callbacks (\<lambda>fd ev k. Some (None, k)) evs k = Some k" for evs and k :: nat
    by (induction evs) auto
  then have "polling_round full_wait (\<lambda>fd ev k. Some (None, k)) 5 (newEventList InitPollEventsCap) (-1) 0 =
      Some (Inr (newEventList 256, 0, 1))"
    by (simp add: polling_round_def full_wait_def newEventList_def InitPollEventsCap_def el_expand_def
        MaxPollEventsCap_def push_bit_eq_mult Let_def)
  from polling_reach.step [OF polling_reach.start this]
  show "polling_reach full_wait (\<lambda>fd ev k. Some (None, k)) 5 (newEventList 256) 0 1" .
qed

end
