(* ===== verification/SockAddr.thy ===== *)
theory SockAddr
  imports Byteslice
begin

text \<open>
  \<open>internal/socket/socktoaddr.go\<close> and \<open>sock_posix.go\<close>: conversions between the addresses
  of package \<open>net\<close> and the socket addresses of the kernel. The interface table
  (\<open>net.InterfaceByIndex\<close>, \<open>InterfaceByName\<close>) is a pair of functions. An IP address is
  its bytes, in the 4-byte or the 16-byte form of \<open>net.IP\<close>.
\<close>

section \<open>Addresses\<close>

datatype net_addr =
    TCPAddr "byte list" int string
  | UDPAddr "byte list" int string
  | UnixAddr string string

datatype sockaddr =
    SockaddrInet4 int "byte list"
  | SockaddrInet6 int nat "byte list"
  | SockaddrUnix string
  | SockaddrOther

definition AF_UNIX :: int where "AF_UNIX = 1"
definition AF_INET :: int where "AF_INET = 2"
definition AF_INET6 :: int where "AF_INET6 = 10"

text \<open>\<open>net.IP\<close>: the IPv4-in-IPv6 prefix, \<open>To4\<close>, \<open>To16\<close> and \<open>Equal\<close>.\<close>

definition v4InV6Prefix :: "byte list" where
  "v4InV6Prefix = replicate 10 0 @ [255, 255]"

definition To4 :: "byte list \<Rightarrow> byte list option" where
  "To4 ip =
     (if length ip = 4 then Some ip
      else if length ip = 16 \<and> take 12 ip = v4InV6Prefix then Some (drop 12 ip)
      else None)"

definition To16 :: "byte list \<Rightarrow> byte list option" where
  "To16 ip =
     (if length ip = 4 then Some (v4InV6Prefix @ ip) else if length ip = 16 then Some ip else None)"

definition IPv4zero :: "byte list" where
  "IPv4zero = v4InV6Prefix @ [0, 0, 0, 0]"

definition IPv6zero :: "byte list" where
  "IPv6zero = replicate 16 0"

definition IP_Equal :: "byte list \<Rightarrow> byte list \<Rightarrow> bool" where
  "IP_Equal ip x \<longleftrightarrow>
     (if length ip = length x then ip = x
      else if length ip = 4 \<and> length x = 16 then take 12 x = v4InV6Prefix \<and> ip = drop 12 x
      else if length ip = 16 \<and> length x = 4 then take 12 ip = v4InV6Prefix \<and> drop 12 ip = x
      else False)"

section \<open>Decimal numbers\<close>

definition bytes_string :: "byte list \<Rightarrow> string" where
  "bytes_string bs = map (\<lambda>b. char_of (unat b)) bs"

text \<open>The loop writes the digits from the end of the buffer; \<open>val\<close> is a 64-bit unsigned integer.\<close>

fun u2d_loop :: "nat \<Rightarrow> int \<Rightarrow> slice \<Rightarrow> (nat \<times> int \<times> slice) option" where
  "u2d_loop val i buf =
     (if val \<ge> 10 then
        let q = val div 10 in
        do {
          buf \<leftarrow> sput buf i (word_of_nat (48 + val - q * 10));
          u2d_loop q (i - 1) buf
        }
      else Some (val, i, buf))"

declare u2d_loop.simps [simp del]

definition uint2decimalStr :: "bsPool \<Rightarrow> nat \<Rightarrow> (string \<times> bsPool) option" where
  "uint2decimalStr pool val =
     (if val = 0 then Some (''0'', pool)
      else do {
        (buf, pool) \<leftarrow> bs_Get pool 20;
        (val, i, buf) \<leftarrow> u2d_loop val (slen buf - 1) buf;
        buf \<leftarrow> sput buf i (word_of_nat (48 + val));
        v \<leftarrow> sview_from buf i;
        Some (bytes_string v, pool)
      })"

definition ip6ZoneToString :: "(nat \<Rightarrow> string option) \<Rightarrow> bsPool \<Rightarrow> nat \<Rightarrow> (string \<times> bsPool) option" where
  "ip6ZoneToString ifByIndex pool zone =
     (if zone = 0 then Some ('''', pool)
      else case ifByIndex zone of
        Some name \<Rightarrow> Some (name, pool)
      | None \<Rightarrow> uint2decimalStr pool zone)"

section \<open>Conversions\<close>

definition SockaddrToTCPOrUnixAddr ::
  "(nat \<Rightarrow> string option) \<Rightarrow> bsPool \<Rightarrow> sockaddr \<Rightarrow> (net_addr option \<times> bsPool) option" where
  "SockaddrToTCPOrUnixAddr ifByIndex pool sa =
     (case sa of
        SockaddrInet4 port addr \<Rightarrow> Some (Some (TCPAddr addr port ''''), pool)
      | SockaddrInet6 port zoneId addr \<Rightarrow>
          do { (zone, pool) \<leftarrow> ip6ZoneToString ifByIndex pool zoneId; Some (Some (TCPAddr addr port zone), pool) }
      | SockaddrUnix name \<Rightarrow> Some (Some (UnixAddr name ''unix''), pool)
      | SockaddrOther \<Rightarrow> Some (None, pool))"

definition SockaddrToUDPAddr ::
  "(nat \<Rightarrow> string option) \<Rightarrow> bsPool \<Rightarrow> sockaddr \<Rightarrow> (net_addr option \<times> bsPool) option" where
  "SockaddrToUDPAddr ifByIndex pool sa =
     (case sa of
        SockaddrInet4 port addr \<Rightarrow> Some (Some (UDPAddr addr port ''''), pool)
      | SockaddrInet6 port zoneId addr \<Rightarrow>
          do { (zone, pool) \<leftarrow> ip6ZoneToString ifByIndex pool zoneId; Some (Some (UDPAddr addr port zone), pool) }
      | _ \<Rightarrow> Some (None, pool))"

definition ipToSockaddrInet4 :: "byte list \<Rightarrow> int \<Rightarrow> goerror + sockaddr" where
  "ipToSockaddrInet4 ip port =
     (let ip = (if length ip = 0 then IPv4zero else ip) in
      case To4 ip of
        None \<Rightarrow> Inl (AddrError ''non-IPv4 address'')
      | Some ip4 \<Rightarrow> Inr (SockaddrInet4 port ip4))"

definition ipToSockaddrInet6 :: "(string \<Rightarrow> nat option) \<Rightarrow> byte list \<Rightarrow> int \<Rightarrow> string \<Rightarrow> goerror + sockaddr" where
  "ipToSockaddrInet6 ifByName ip port zone =
     (let ip = (if length ip = 0 \<or> IP_Equal ip IPv4zero then IPv6zero else ip) in
      case To16 ip of
        None \<Rightarrow> Inl (AddrError ''non-IPv6 address'')
      | Some ip6 \<Rightarrow>
          (case ifByName zone of
             None \<Rightarrow> Inr (SockaddrInet6 port 0 ip6)
           | Some idx \<Rightarrow> Inr (SockaddrInet6 port idx ip6)))"

definition ipToSockaddr :: "(string \<Rightarrow> nat option) \<Rightarrow> int \<Rightarrow> byte list \<Rightarrow> int \<Rightarrow> string \<Rightarrow> goerror + sockaddr" where
  "ipToSockaddr ifByName family ip port zone =
     (if family = AF_INET then ipToSockaddrInet4 ip port
      else if family = AF_INET6 then ipToSockaddrInet6 ifByName ip port zone
      else Inl (AddrError ''invalid address family''))"

section \<open>Decimal numbers are right\<close>

text \<open>The decimal digits of a number, most significant first, and their value.\<close>

fun decimal :: "nat \<Rightarrow> byte list" where
  "decimal v = (if v < 10 then [word_of_nat (48 + v)] else decimal (v div 10) @ [word_of_nat (48 + v mod 10)])"

declare decimal.simps [simp del]

definition dec_value :: "string \<Rightarrow> nat" where
  "dec_value s = foldl (\<lambda>a c. 10 * a + (of_char c - 48)) 0 s"

lemma length_decimal: "v < 10 ^ k \<Longrightarrow> 0 < k \<Longrightarrow> length (decimal v) \<le> k"
proof (induction v arbitrary: k rule: decimal.induct)
  case (1 v)
  show ?case
  proof (cases "v < 10")
    case True
    then show ?thesis using 1(3) by (simp add: decimal.simps [of v])
  next
    case False
    then have "k \<noteq> 1" using 1(2) by auto
    then obtain j where k: "k = Suc j" "0 < j" using 1(3) by (cases k) auto
    have "v div 10 < 10 ^ j" using 1(2) k(1) by simp
    then have "length (decimal (v div 10)) \<le> j" using 1(1) False k(2) by blast
    then show ?thesis using False k by (simp add: decimal.simps [of v])
  qed
qed

lemma decimal_nonempty: "decimal v \<noteq> []"
  by (simp add: decimal.simps [of v])

lemma digit_char:
  assumes "d < 10"
  shows "of_char (char_of (unat (word_of_nat (48 + d) :: byte)) :: char) = 48 + d"
proof -
  have "unat (word_of_nat (48 + d) :: byte) = 48 + d" using assms
    by (simp only: unat_of_nat take_bit_eq_mod) simp
  then show ?thesis using assms by simp
qed

lemma bytes_string_append: "bytes_string (xs @ ys) = bytes_string xs @ bytes_string ys"
  by (simp add: bytes_string_def)

lemma dec_value_snoc: "dec_value (s @ [c]) = 10 * dec_value s + (of_char c - 48)"
  by (simp add: dec_value_def)

lemma dec_value_decimal: "dec_value (bytes_string (decimal v)) = v"
proof (induction v rule: decimal.induct)
  case (1 v)
  show ?case
  proof (cases "v < 10")
    case True
    then show ?thesis using digit_char [of v] by (simp add: decimal.simps [of v] bytes_string_def dec_value_def)
  next
    case False
    have "bytes_string (decimal v) = bytes_string (decimal (v div 10)) @ [char_of (unat (word_of_nat (48 + v mod 10) :: byte))]"
      using False by (simp add: decimal.simps [of v] bytes_string_append) (simp add: bytes_string_def)
    then show ?thesis using 1 False digit_char [of "v mod 10"] by (simp only: dec_value_snoc) simp
  qed
qed

lemma u2d_loop_spec:
  assumes "length (decimal val) \<le> Suc i" and "i < length (sdata buf)"
  shows "\<exists>v j b. u2d_loop val (int i) buf = Some (v, int j, b) \<and> v < 10 \<and> j < length (sdata b) \<and>
    word_of_nat (48 + v) # drop (Suc j) (sdata b) = decimal val @ drop (Suc i) (sdata buf)"
  using assms
proof (induction val arbitrary: i buf rule: decimal.induct)
  case (1 val)
  show ?case
  proof (cases "val < 10")
    case True
    then show ?thesis using 1(3)
      by (intro exI [of _ val] exI [of _ i] exI [of _ buf]) (simp add: u2d_loop.simps decimal.simps [of val])
  next
    case False
    have d: "decimal val = decimal (val div 10) @ [word_of_nat (48 + val mod 10)]" using False by (simp add: decimal.simps [of val])
    then have "length (decimal (val div 10)) \<le> i" using 1(2) by simp
    moreover have "0 < length (decimal (val div 10))" using decimal_nonempty by simp
    ultimately obtain k where k: "i = Suc k" "length (decimal (val div 10)) \<le> Suc k" by (cases i) auto
    define b1 where "b1 = buf\<lparr>sdata := (sdata buf)[i := word_of_nat (48 + val mod 10)]\<rparr>"
    have m: "48 + val - val div 10 * 10 = 48 + val mod 10" by (simp add: minus_div_mult_eq_mod [symmetric])
    have nk: "nat (1 + int k) = Suc k" by simp
    have "u2d_loop val (int i) buf = u2d_loop (val div 10) (int k) b1"
      using False 1(3) k(1) nk by (subst u2d_loop.simps) (simp add: Let_def sput_def slen_def b1_def m)
    moreover have "k < length (sdata b1)" using 1(3) k(1) by (simp add: b1_def)
    moreover have "drop (Suc k) (sdata b1) = word_of_nat (48 + val mod 10) # drop (Suc i) (sdata buf)"
      using 1(3) k(1) by (simp add: b1_def Cons_nth_drop_Suc [symmetric] del: Suc_eq_plus1)
    ultimately show ?thesis using 1(1) [OF False, of k b1] k(2) d by simp
  qed
qed

lemma uint2decimalStr_spec:
  assumes "pool_ok pool" and "val < 2 ^ 64"
  shows "\<exists>pool'. uint2decimalStr pool val = Some (bytes_string (decimal val), pool') \<and> pool_ok pool'"
proof (cases "val = 0")
  case True
  have "bytes_string (decimal 0) = ''0''" by code_simp
  then show ?thesis using True assms(1) by (simp add: uint2decimalStr_def)
next
  case False
  obtain s p where g: "bs_Get pool 20 = Some (s, p)" "length (sdata s) = 20" "pool_ok p"
    using bs_Get_spec [OF assms(1), of 20] by auto
  have "(2::nat) ^ 64 < 10 ^ 20" by simp
  then have "val < 10 ^ 20" using assms(2) by linarith
  then have "length (decimal val) \<le> Suc 19" using length_decimal [of val 20] by simp
  from u2d_loop_spec [OF this, of s] g(2) obtain v j b where l: "u2d_loop val 19 s = Some (v, int j, b)" "v < 10"
      "j < length (sdata b)" "word_of_nat (48 + v) # drop (Suc j) (sdata b) = decimal val"
    by auto
  have "drop j ((sdata b)[j := word_of_nat (48 + v)]) = word_of_nat (48 + v) # drop (Suc j) (sdata b)"
    using l(3) by (simp add: Cons_nth_drop_Suc [symmetric] del: Suc_eq_plus1)
  then show ?thesis using False g l
    by (simp add: uint2decimalStr_def slen_def sput_def sview_from_in)
qed

section \<open>Properties\<close>

lemma decimal_digits: "set (bytes_string (decimal v)) \<subseteq> set ''0123456789''"
proof -
  have "char_of (48 + d) \<in> set ''0123456789''" if "d < 10" for d :: nat
  proof -
    have "d \<in> set [0..<10]" using that by simp
    moreover have "\<forall>d \<in> set [0..<10]. char_of (48 + d :: nat) \<in> set ''0123456789''" by code_simp
    ultimately show ?thesis by blast
  qed
  moreover have "unat (word_of_nat (48 + d) :: byte) = 48 + d" if "d < 10" for d :: nat
    using that by (simp only: unat_of_nat take_bit_eq_mod) simp
  ultimately have digit: "bytes_string [word_of_nat (48 + d)] = [char_of (48 + d)] \<and> char_of (48 + d) \<in> set ''0123456789''"
    if "d < 10" for d :: nat
    using that by (simp add: bytes_string_def del: of_nat_add)
  show ?thesis
  proof (induction v rule: decimal.induct)
    case (1 v)
    show ?case
    proof (cases "v < 10")
      case True
      then show ?thesis using digit [of v] by (simp add: decimal.simps [of v] del: of_nat_add)
    next
      case False
      then show ?thesis using 1 digit [of "v mod 10"]
        by (simp add: decimal.simps [of v] bytes_string_append del: of_nat_add)
    qed
  qed
qed

text \<open>
  Printing a zone. For every 64-bit number and every state of the slice pool,
  \<open>uint2decimalStr\<close> returns without running out of its 20-byte buffer; the string consists
  of decimal digits, at most 20 of them, and reading it back gives the number.
\<close>

theorem uint2decimalStr_roundtrip:
  assumes "pool_ok pool" and "val < 2 ^ 64"
  shows "\<exists>s pool'. uint2decimalStr pool val = Some (s, pool') \<and> dec_value s = val \<and>
    set s \<subseteq> set ''0123456789'' \<and> s \<noteq> [] \<and> length s \<le> 20 \<and> pool_ok pool'"
proof -
  have "(2::nat) ^ 64 < 10 ^ 20" by simp
  then have "length (decimal val) \<le> 20" using length_decimal [of val 20] assms(2) by simp
  moreover have "bytes_string (decimal val) \<noteq> []" using decimal_nonempty by (simp add: bytes_string_def)
  moreover have "length (bytes_string (decimal val)) = length (decimal val)" by (simp add: bytes_string_def)
  ultimately show ?thesis
    using uint2decimalStr_spec [OF assms] dec_value_decimal [of val] decimal_digits [of val] by auto
qed

theorem uint2decimalStr_roundtrip_witness:
  "\<exists>s pool'. uint2decimalStr empty_bsPool 4294967295 = Some (s, pool') \<and> dec_value s = 4294967295 \<and>
    set s \<subseteq> set ''0123456789'' \<and> s \<noteq> [] \<and> length s \<le> 20 \<and> pool_ok pool'"
  by (rule uint2decimalStr_roundtrip) simp_all

text \<open>
  The interface table of one system: \<open>InterfaceByName\<close> finds interfaces with a positive index
  that \<open>InterfaceByIndex\<close> finds again.
\<close>

definition if_table_ok :: "(string \<Rightarrow> nat option) \<Rightarrow> (nat \<Rightarrow> string option) \<Rightarrow> bool" where
  "if_table_ok ifByName ifByIndex \<longleftrightarrow> (\<forall>zone i. ifByName zone = Some i \<longrightarrow> 0 < i \<and> ifByIndex i = Some zone)"

text \<open>An address of package \<open>net\<close> that is \<open>Equal\<close> to the given one, of the given length.\<close>

definition same_ip :: "nat \<Rightarrow> byte list \<Rightarrow> byte list \<Rightarrow> bool" where
  "same_ip n ip ip' \<longleftrightarrow> length ip' = n \<and> IP_Equal ip ip'"

lemma v4InV6Prefix_length [simp]: "length v4InV6Prefix = 12" "length IPv4zero = 16" "length IPv6zero = 16"
  by (simp_all add: v4InV6Prefix_def IPv4zero_def IPv6zero_def)

lemma To4_same: "To4 ip = Some ip4 \<Longrightarrow> same_ip 4 ip ip4"
  by (auto simp: To4_def same_ip_def IP_Equal_def split: if_splits)

lemma To16_same: "To16 ip = Some ip6 \<Longrightarrow> same_ip 16 ip ip6"
  by (auto simp: To16_def same_ip_def IP_Equal_def split: if_splits)

lemma ipToSockaddrInet4_cases:
  "case ipToSockaddrInet4 ip port of
     Inl e \<Rightarrow> e = AddrError ''non-IPv4 address'' \<and> ip \<noteq> [] \<and> To4 ip = None
   | Inr sa \<Rightarrow> \<exists>ip'. sa = SockaddrInet4 port ip' \<and> same_ip 4 (if ip = [] then IPv4zero else ip) ip'"
proof -
  have "To4 IPv4zero = Some (replicate 4 0)" by (simp add: To4_def IPv4zero_def numeral_eq_Suc)
  then show ?thesis using To4_same
    by (auto simp: ipToSockaddrInet4_def Let_def split: option.splits)
qed

lemma ipToSockaddrInet6_cases:
  "case ipToSockaddrInet6 ifByName ip port zone of
     Inl e \<Rightarrow> e = AddrError ''non-IPv6 address'' \<and> length ip \<notin> {0, 4, 16}
   | Inr sa \<Rightarrow> \<exists>ip'. sa = SockaddrInet6 port (case ifByName zone of None \<Rightarrow> 0 | Some i \<Rightarrow> i) ip' \<and>
       same_ip 16 (if ip = [] \<or> IP_Equal ip IPv4zero then IPv6zero else ip) ip'"
proof -
  let ?ip = "if ip = [] \<or> IP_Equal ip IPv4zero then IPv6zero else ip"
  have "To16 ?ip = None \<Longrightarrow> length ip \<notin> {0, 4, 16}" by (auto simp: To16_def split: if_splits)
  then show ?thesis using To16_same [of ?ip]
    by (cases "To16 ?ip") (auto simp: ipToSockaddrInet6_def Let_def split: option.splits)
qed



end
