(* ===== verification/Conn.thy ===== *)
theory Conn
  imports ElasticCorrect Netpoll SockAddr
begin

text \<open>
  \<open>connection_unix.go\<close>: a connection with its inbound ring and outbound buffer. System calls
  are the functions of the record \<open>sys\<close> on a kernel state. The write lock is a flag of the
  connection: within one call, locking a lock that the same call already holds blocks for ever,
  which is \<open>None\<close>.
\<close>

section \<open>State\<close>

record conn =
  c_sysfd :: int
  c_locked :: bool
  c_in :: ering
  c_out :: ebuf
  c_laddr :: "net_addr option"
  c_remoteAddr :: "net_addr option"
  c_pa :: PollAttachment

record 'k sys =
  s_read :: "'k \<Rightarrow> int \<Rightarrow> byte list \<Rightarrow> int \<times> goerror option \<times> byte list \<times> 'k"
  s_write :: "'k \<Rightarrow> int \<Rightarrow> byte list \<Rightarrow> int \<times> goerror option \<times> 'k"
  s_writev :: "'k \<Rightarrow> int \<Rightarrow> byte list list \<Rightarrow> int \<times> goerror option \<times> 'k"
  s_close :: "'k \<Rightarrow> int \<Rightarrow> goerror option \<times> 'k"
  s_ctl :: "'k epoll_ctl"

definition iovMax :: nat where
  "iovMax = 1024"

text \<open>\<open>writeMtx.Lock()\<close> and \<open>Unlock()\<close>.\<close>

definition c_lock :: "conn \<Rightarrow> conn option" where
  "c_lock c = (if c_locked c then None else Some (c\<lparr>c_locked := True\<rparr>))"

definition c_unlock :: "conn \<Rightarrow> conn" where
  "c_unlock c = c\<lparr>c_locked := False\<rparr>"

section \<open>Opening and closing\<close>

text \<open>The zero value of \<open>elastic.Buffer\<close> inside a new connection.\<close>

definition zero_ebuf :: ebuf where
  "zero_ebuf = \<lparr>eb_max = 0, eb_ring = \<lparr>er_rb = None\<rparr>, eb_list = ll_empty\<rparr>"

definition newTCPConn :: "world \<Rightarrow> int \<Rightarrow> int \<Rightarrow> net_addr option \<Rightarrow> int \<Rightarrow> (conn \<times> world) option" where
  "newTCPConn w pollFd fd remoteAddr writeBufferCap =
     do {
       let c = \<lparr>c_sysfd = fd, c_locked = False, c_in = \<lparr>er_rb = None\<rparr>, c_out = zero_ebuf, c_laddr = None,
         c_remoteAddr = None, c_pa = \<lparr>pa_PollFd = pollFd, pa_FD = fd\<rparr>\<rparr>;
       (w, ob) \<leftarrow> eb_Reset w (c_out c) writeBufferCap;
       let c = c\<lparr>c_out := ob\<rparr>;
       Some (c\<lparr>c_in := er_Reset (c_in c)\<rparr>, w)
     }"

text \<open>
  \<open>release\<close> clears the remote address before it looks for a zone in it, as the code does.
\<close>

definition conn_release :: "world \<Rightarrow> conn \<Rightarrow> (world \<times> conn) option" where
  "conn_release w c =
     do {
       let c = c\<lparr>c_remoteAddr := None\<rparr>;
       let w = (case c_remoteAddr c of
           Some (TCPAddr _ _ zone) \<Rightarrow>
             if length zone > 0
             then w\<lparr>w_bs := bs_Put (w_bs w) \<lparr>sdata = map (word_of_nat \<circ> of_char) zone, sspare = []\<rparr>\<rparr>
             else w
         | _ \<Rightarrow> w);
       let (w, ib) = er_Done w (c_in c);
       let c = c\<lparr>c_in := ib\<rparr>;
       c \<leftarrow> c_lock c;
       (w, ob) \<leftarrow> eb_Release w (c_out c);
       let c = c\<lparr>c_out := ob, c_sysfd := -1, c_laddr := None\<rparr>;
       Some (w, c_unlock c)
     }"

text \<open>The loop of \<open>Close\<close> that sends what is left; it stops at the first error.\<close>

partial_function (option) conn_drain ::
  "'k sys \<Rightarrow> world \<Rightarrow> 'k \<Rightarrow> int \<Rightarrow> ebuf \<Rightarrow> (world \<times> 'k \<times> ebuf) option" where
  "conn_drain sys w k fd ob =
     (if eb_IsEmpty ob then Some (w, k, ob)
      else do {
        (iov, ob) \<leftarrow> eb_Peek ob 0;
        (case s_writev sys k fd (take iovMax iov) of
           (n, Some e, k) \<Rightarrow> Some (w, k, ob)
         | (n, None, k) \<Rightarrow>
             do {
               (_, _, w, ob) \<leftarrow> eb_Discard w ob n;
               conn_drain sys w k fd ob
             })
      })"

definition conn_Close :: "'k sys \<Rightarrow> world \<Rightarrow> 'k \<Rightarrow> conn \<Rightarrow> (goerror option \<times> world \<times> 'k \<times> conn) option" where
  "conn_Close sys w k c =
     do {
       c \<leftarrow> c_lock c;
       (w, k, ob) \<leftarrow> conn_drain sys w k (c_sysfd c) (c_out c);
       let c = c_unlock (c\<lparr>c_out := ob\<rparr>);
       let (_, k) = Delete (s_ctl sys) (c_pa c) k;
       let (err, k) = s_close sys k (c_sysfd c);
       (w, c) \<leftarrow> conn_release w c;
       Some (err, w, k, c)
     }"

section \<open>Reading\<close>

definition conn_resetBuffer :: "conn \<Rightarrow> conn" where
  "conn_resetBuffer c = c\<lparr>c_in := er_Reset (c_in c)\<rparr>"

partial_function (option) conn_ignoringEINTRIO ::
  "('k \<Rightarrow> int \<Rightarrow> byte list \<Rightarrow> int \<times> goerror option \<times> byte list \<times> 'k) \<Rightarrow> 'k \<Rightarrow> int \<Rightarrow> byte list \<Rightarrow>
   (int \<times> goerror option \<times> byte list \<times> 'k) option" where
  "conn_ignoringEINTRIO fn k fd p =
     (case fn k fd p of (n, err, p, k) \<Rightarrow>
        if err \<noteq> Some EINTR then Some (n, err, p, k) else conn_ignoringEINTRIO fn k fd p)"

text \<open>
  The loop of \<open>eventRead\<close>: it reads until the socket would block, and reports end of file or
  an error of the socket otherwise.
\<close>

partial_function (option) conn_eventRead_loop ::
  "'k sys \<Rightarrow> world \<Rightarrow> 'k \<Rightarrow> int \<Rightarrow> ering \<Rightarrow> byte list \<Rightarrow> (goerror option \<times> world \<times> 'k \<times> ering) option" where
  "conn_eventRead_loop sys w k fd ib buffer =
     do {
       (n, err, buffer, k) \<leftarrow> conn_ignoringEINTRIO (s_read sys) k fd buffer;
       if n < 0 then Some (if err = Some EAGAIN then None else err, w, k, ib)
       else if n = 0 then Some (Some ECONNRESET, w, k, ib)
       else do {
         v \<leftarrow> lview buffer 0 n;
         (_, _, w, ib) \<leftarrow> er_Write w ib v;
         conn_eventRead_loop sys w k fd ib buffer
       }
     }"

definition conn_eventRead :: "'k sys \<Rightarrow> world \<Rightarrow> 'k \<Rightarrow> conn \<Rightarrow> (goerror option \<times> world \<times> 'k \<times> conn) option" where
  "conn_eventRead sys w k c =
     do {
       (err, w, k, ib) \<leftarrow> conn_eventRead_loop sys w k (c_sysfd c) (c_in c) (replicate 1024 0);
       Some (err, w, k, c\<lparr>c_in := ib\<rparr>)
     }"

definition conn_Read :: "world \<Rightarrow> conn \<Rightarrow> byte list \<Rightarrow> (int \<times> goerror option \<times> byte list \<times> world \<times> conn) option" where
  "conn_Read w c p =
     do { (n, e, p, w, ib) \<leftarrow> er_Read w (c_in c) p; Some (n, e, p, w, c\<lparr>c_in := ib\<rparr>) }"

text \<open>
  \<open>Peek\<close>, \<open>Next\<close> and \<open>Discard\<close> on an inbound buffer: the connection and the client have
  the same bodies.
\<close>

definition in_Peek :: "ering \<Rightarrow> int \<Rightarrow> (byte list \<times> goerror option) option" where
  "in_Peek ib n =
     (let inBufferLen = er_Buffered ib in
      if n > inBufferLen then Some ([], Some ErrShortBuffer)
      else
        let n = (if n \<le> 0 then inBufferLen else n) in
        if er_IsEmpty ib then Some ([], Some ErrShortBuffer)
        else do {
          (head, tail) \<leftarrow> er_Peek ib n;
          if int (length head) \<ge> n then map_option (\<lambda>v. (v, None)) (lview head 0 n)
          else Some (head @ tail, None)
        })"

definition in_Discard :: "world \<Rightarrow> ering \<Rightarrow> int \<Rightarrow> (int \<times> goerror option \<times> world \<times> ering) option" where
  "in_Discard w ib n =
     (let inBufferLen = er_Buffered ib in
      if inBufferLen < n \<or> n \<le> 0 then Some (inBufferLen, None, w, er_Reset ib)
      else if er_IsEmpty ib then Some (0, Some ErrShortBuffer, w, ib)
      else do {
        (discarded, _, w, ib) \<leftarrow> er_Discard w ib n;
        Some (if discarded < inBufferLen then discarded else n, None, w, ib)
      })"

definition conn_Peek :: "conn \<Rightarrow> int \<Rightarrow> (byte list \<times> goerror option) option" where
  "conn_Peek c n = in_Peek (c_in c) n"

definition conn_Discard :: "world \<Rightarrow> conn \<Rightarrow> int \<Rightarrow> (int \<times> goerror option \<times> world \<times> conn) option" where
  "conn_Discard w c n =
     do { (d, e, w, ib) \<leftarrow> in_Discard w (c_in c) n; Some (d, e, w, c\<lparr>c_in := ib\<rparr>) }"

definition conn_Next :: "world \<Rightarrow> conn \<Rightarrow> int \<Rightarrow> (byte list \<times> goerror option \<times> world \<times> conn) option" where
  "conn_Next w c n =
     (let inBufferLen = er_Buffered (c_in c) in
      if n > inBufferLen then Some ([], Some ErrShortBuffer, w, c)
      else
        let n = (if n \<le> 0 then inBufferLen else n) in
        if er_IsEmpty (c_in c) then Some ([], Some ErrShortBuffer, w, c)
        else do {
          (head, tail) \<leftarrow> er_Peek (c_in c) n;
          buf \<leftarrow> (if int (length head) \<ge> n then lview head 0 n else Some (head @ tail));
          (_, _, w, ib) \<leftarrow> er_Discard w (c_in c) n;
          Some (buf, None, w, c\<lparr>c_in := ib\<rparr>)
        })"

section \<open>Writing\<close>

text \<open>What \<open>Write\<close> does while it holds the lock; every error path calls \<open>Close\<close>, which locks.\<close>

definition conn_Write_locked :: "'k sys \<Rightarrow> world \<Rightarrow> 'k \<Rightarrow> conn \<Rightarrow> byte list \<Rightarrow> (int \<times> goerror option \<times> world \<times> 'k \<times> conn) option" where
  "conn_Write_locked sys w k c data =
     (let n = int (length data) in
      if \<not> eb_IsEmpty (c_out c) then
        do { (_, _, w, ob) \<leftarrow> eb_Write w (c_out c) data; Some (n, None, w, k, c\<lparr>c_out := ob\<rparr>) }
      else
        case s_write sys k (c_sysfd c) data of (sent, err, k) \<Rightarrow>
          if sent < 0 then
            if err = Some EAGAIN then
              do {
                (_, _, w, ob) \<leftarrow> eb_Write w (c_out c) data;
                let (err, k) = ModReadWrite (s_ctl sys) (c_pa c) k;
                Some (sent, err, w, k, c\<lparr>c_out := ob\<rparr>)
              }
            else do { (_, w, k, c) \<leftarrow> conn_Close sys w k c; Some (sent, err, w, k, c) }
          else if sent = 0 then
            do { (_, w, k, c) \<leftarrow> conn_Close sys w k c; Some (sent, Some ECONNRESET, w, k, c) }
          else if err \<noteq> None then
            do { (_, w, k, c) \<leftarrow> conn_Close sys w k c; Some (-1, NewSyscallError ''write'' err, w, k, c) }
          else if sent < n then
            do {
              v \<leftarrow> lview data sent n;
              (_, _, w, ob) \<leftarrow> eb_Write w (c_out c) v;
              let (err, k) = ModReadWrite (s_ctl sys) (c_pa c) k;
              Some (n, err, w, k, c\<lparr>c_out := ob\<rparr>)
            }
          else Some (n, None, w, k, c))"

definition conn_Write :: "'k sys \<Rightarrow> world \<Rightarrow> 'k \<Rightarrow> conn \<Rightarrow> byte list \<Rightarrow> (int \<times> goerror option \<times> world \<times> 'k \<times> conn) option" where
  "conn_Write sys w k c data =
     do {
       c \<leftarrow> c_lock c;
       (n, err, w, k, c) \<leftarrow> conn_Write_locked sys w k c data;
       Some (n, err, w, k, c_unlock c)
     }"

text \<open>The loop that finds the slice the sent count ends in: its rest and the slices behind it.\<close>

fun unsent :: "int \<Rightarrow> byte list list \<Rightarrow> byte list list" where
  "unsent sent [] = []"
| "unsent sent (b # bs) =
     (if sent < int (length b) then drop (nat sent) b # bs else unsent (sent - int (length b)) bs)"

definition conn_writev_locked ::
  "'k sys \<Rightarrow> world \<Rightarrow> 'k \<Rightarrow> conn \<Rightarrow> byte list list \<Rightarrow> (int \<times> goerror option \<times> world \<times> 'k \<times> conn) option" where
  "conn_writev_locked sys w k c bs =
     (let n = sum_list (map (int \<circ> length) bs) in
      if \<not> eb_IsEmpty (c_out c) then
        do { (_, _, w, ob) \<leftarrow> eb_Writev w (c_out c) bs; Some (n, None, w, k, c\<lparr>c_out := ob\<rparr>) }
      else
        case s_writev sys k (c_sysfd c) bs of (sent, err, k) \<Rightarrow>
          if sent < 0 then
            if err = Some EAGAIN then
              do {
                (_, _, w, ob) \<leftarrow> eb_Writev w (c_out c) bs;
                let (err, k) = ModReadWrite (s_ctl sys) (c_pa c) k;
                Some (sent, err, w, k, c\<lparr>c_out := ob\<rparr>)
              }
            else do { (_, w, k, c) \<leftarrow> conn_Close sys w k c; Some (sent, err, w, k, c) }
          else if sent = 0 then
            do { (_, w, k, c) \<leftarrow> conn_Close sys w k c; Some (sent, Some ECONNRESET, w, k, c) }
          else if err \<noteq> None then
            do { (_, w, k, c) \<leftarrow> conn_Close sys w k c; Some (-1, NewSyscallError ''write'' err, w, k, c) }
          else if sent < n then
            do {
              (_, _, w, ob) \<leftarrow> eb_Writev w (c_out c) (unsent sent bs);
              let (err, k) = ModReadWrite (s_ctl sys) (c_pa c) k;
              Some (n, err, w, k, c\<lparr>c_out := ob\<rparr>)
            }
          else Some (n, None, w, k, c))"

definition conn_writev ::
  "'k sys \<Rightarrow> world \<Rightarrow> 'k \<Rightarrow> conn \<Rightarrow> byte list list \<Rightarrow> (int \<times> goerror option \<times> world \<times> 'k \<times> conn) option" where
  "conn_writev sys w k c bs =
     do {
       c \<leftarrow> c_lock c;
       (n, err, w, k, c) \<leftarrow> conn_writev_locked sys w k c bs;
       Some (n, err, w, k, c_unlock c)
     }"

definition conn_WriteFlush :: "'k sys \<Rightarrow> world \<Rightarrow> 'k \<Rightarrow> conn \<Rightarrow> (goerror option \<times> world \<times> 'k \<times> conn) option" where
  "conn_WriteFlush sys w k c =
     do {
       c \<leftarrow> c_lock c;
       (iov, ob) \<leftarrow> eb_Peek (c_out c) (-1);
       let c = c\<lparr>c_out := ob\<rparr>;
       (case (if length iov > 1 then s_writev sys k (c_sysfd c) (take iovMax iov)
              else if length iov \<le> 0 then s_write sys k (c_sysfd c) []
              else s_write sys k (c_sysfd c) (iov ! 0)) of (n, err, k) \<Rightarrow>
          if n < 0 then Some (if err = Some EAGAIN then None else err, w, k, c_unlock c)
          else if n = 0 then Some (Some ECONNRESET, w, k, c_unlock c)
          else do {
            (_, _, w, ob) \<leftarrow> eb_Discard w (c_out c) n;
            let c = c\<lparr>c_out := ob\<rparr>;
            if eb_IsEmpty (c_out c) then
              let (_, k) = ModRead (s_ctl sys) (c_pa c) k in Some (None, w, k, c_unlock c)
            else Some (None, w, k, c_unlock c)
          })
     }"

end
