(* ===== verification/ConnWrite.thy ===== *)
theory ConnWrite
  imports Conn
begin

text \<open>
  The sending side of a connection, against a scripted kernel: no byte handed to the connection
  is lost or reordered on its way to the peer, whatever the kernel takes at a time, and data
  that stays behind is always registered for a writable event. The error paths, which lock the
  write lock a second time, are stated for every kernel.
\<close>

section \<open>A scripted kernel\<close>

text \<open>
  \<open>ks_wr\<close> lists what the next writes do: take up to that many bytes, or fail; past the list
  a write takes everything. \<open>ks_out\<close> is what the peer has received, \<open>ks_ev\<close> the events
  each descriptor is registered for.
\<close>

record kst =
  ks_in :: sock
  ks_wr :: "(nat + goerror) list"
  ks_out :: "byte list"
  ks_ev :: "int \<Rightarrow> 32 word option"

definition kst_read :: "kst \<Rightarrow> int \<Rightarrow> byte list \<Rightarrow> int \<times> goerror option \<times> byte list \<times> kst" where
  "kst_read k fd p =
     (case sock_read (ks_in k) p of Some (n, e, p', s) \<Rightarrow> (n, e, p', k\<lparr>ks_in := s\<rparr>) | None \<Rightarrow> (0, None, p, k))"

definition kst_write :: "kst \<Rightarrow> int \<Rightarrow> byte list \<Rightarrow> int \<times> goerror option \<times> kst" where
  "kst_write k fd p =
     (case ks_wr k of
        [] \<Rightarrow> (int (length p), None, k\<lparr>ks_out := ks_out k @ p\<rparr>)
      | Inl m # xs \<Rightarrow> (int (min m (length p)), None, k\<lparr>ks_wr := xs, ks_out := ks_out k @ take m p\<rparr>)
      | Inr e # xs \<Rightarrow> (-1, Some e, k\<lparr>ks_wr := xs\<rparr>))"

definition kst_ctl :: "kst epoll_ctl" where
  "kst_ctl k epfd op fd ev =
     (None, k\<lparr>ks_ev := (ks_ev k)(fd := (if op = CtlDel then None else Some ev))\<rparr>)"

definition kst_sys :: "kst sys" where
  "kst_sys = \<lparr>s_read = kst_read, s_write = kst_write, s_writev = (\<lambda>k fd iov. kst_write k fd (concat iov)),
     s_close = (\<lambda>k fd. (None, k)), s_ctl = kst_ctl\<rparr>"

lemma kst_sys_simps [simp]:
  "s_read kst_sys = kst_read" "s_write kst_sys = kst_write" "s_writev kst_sys k fd iov = kst_write k fd (concat iov)"
  "s_close kst_sys k fd = (None, k)" "s_ctl kst_sys = kst_ctl"
  by (simp_all add: kst_sys_def)

lemma ModReadWrite_kst: "ModReadWrite kst_ctl pa k = (None, k\<lparr>ks_ev := (ks_ev k)(pa_FD pa \<mapsto> readWriteEvents)\<rparr>)"
  and ModRead_kst: "ModRead kst_ctl pa k = (None, k\<lparr>ks_ev := (ks_ev k)(pa_FD pa \<mapsto> readEvents)\<rparr>)"
  by (simp_all add: ModReadWrite_def ModRead_def kst_ctl_def NewSyscallError_def)

text \<open>What a write does, in one place: a prefix is taken, or an error reported.\<close>

lemma kst_write_cases:
  obtains (took) m k' where "kst_write k fd p = (int m, None, k')" "m \<le> length p" "ks_out k' = ks_out k @ take m p"
      "ks_ev k' = ks_ev k" "ks_wr k = [] \<Longrightarrow> m = length p" "\<And>j xs. ks_wr k = Inl j # xs \<Longrightarrow> m = min j (length p)"
      "\<And>e xs. ks_wr k \<noteq> Inr e # xs" "set (ks_wr k') \<subseteq> set (ks_wr k)" "ks_wr k' = tl (ks_wr k)"
    | (failed) e xs where "ks_wr k = Inr e # xs" "kst_write k fd p = (-1, Some e, k\<lparr>ks_wr := xs\<rparr>)"
proof (cases "ks_wr k")
  case Nil
  then show ?thesis using took [of "length p" "k\<lparr>ks_out := ks_out k @ p\<rparr>"] by (simp add: kst_write_def)
next
  case (Cons x xs)
  show ?thesis
  proof (cases x)
    case (Inl m)
    then show ?thesis using took [of "min m (length p)" "k\<lparr>ks_wr := xs, ks_out := ks_out k @ take m p\<rparr>"] Cons
      by (simp add: kst_write_def min_def subset_insertI)
  next
    case (Inr e)
    then show ?thesis using failed [of e xs] Cons by (simp add: kst_write_def)
  qed
qed

section \<open>Write and writev\<close>

text \<open>Pending data is registered for the writable event.\<close>

definition pending_ok :: "kst \<Rightarrow> conn \<Rightarrow> bool" where
  "pending_ok k c \<longleftrightarrow> eb_IsEmpty (c_out c) \<or> ks_ev k (pa_FD (c_pa c)) = Some readWriteEvents"

text \<open>The outcomes after which the code closes the connection.\<close>

definition write_fatal :: "kst \<Rightarrow> byte list \<Rightarrow> bool" where
  "write_fatal k p \<longleftrightarrow>
     (case ks_wr k of Inr e # _ \<Rightarrow> e \<noteq> EAGAIN | Inl m # _ \<Rightarrow> m = 0 \<or> p = [] | [] \<Rightarrow> p = [])"

definition sent_ok :: "kst \<Rightarrow> conn \<Rightarrow> byte list \<Rightarrow> (int \<times> goerror option \<times> world \<times> kst \<times> conn) option \<Rightarrow> bool" where
  "sent_ok k c p r \<longleftrightarrow>
     (\<exists>n w' k' c'. r = Some (n, None, w', k', c') \<and> (n = int (length p) \<or> n = -1) \<and>
        ks_out k' @ eb_contents (c_out c') = ks_out k @ eb_contents (c_out c) @ p \<and>
        eb_ok w' (c_out c') \<and> pending_ok k' c' \<and> \<not> c_locked c' \<and>
        c_in c' = c_in c \<and> c_sysfd c' = c_sysfd c \<and> c_pa c' = c_pa c \<and>
        (p \<noteq> [] \<and> eb_contents (c_out c') = [] \<longrightarrow> eb_contents (c_out c) = [] \<and> ks_ev k' = ks_ev k) \<and> set (ks_wr k') \<subseteq> set (ks_wr k) \<and>
        length (ks_out k) \<le> length (ks_out k'))"

lemma took_pos:
  assumes "\<not> write_fatal k p" and "ks_wr k = [] \<Longrightarrow> m = length p"
    and "\<And>j xs. ks_wr k = Inl j # xs \<Longrightarrow> m = min j (length p)" and "\<And>e xs. ks_wr k \<noteq> Inr e # xs"
  shows "m \<noteq> 0"
proof (cases "ks_wr k")
  case Nil
  then show ?thesis using assms(1,2) by (simp add: write_fatal_def)
next
  case (Cons x xs)
  then show ?thesis using assms(1,3,4) by (cases x) (auto simp: write_fatal_def)
qed

lemma conn_Write_spec:
  assumes "\<not> c_locked c" and "eb_ok w (c_out c)" and "pending_ok k c"
    and "\<not> eb_IsEmpty (c_out c) \<or> \<not> write_fatal k p"
    and "length (eb_contents (c_out c)) + length p \<le> rb_limit"
  shows "sent_ok k c p (conn_Write kst_sys w k c p)"
proof -
  define c1 where "c1 = c\<lparr>c_locked := True\<rparr>"
  have l: "c_lock c = Some c1" using assms(1) by (simp add: c_lock_def c1_def)
  have c1: "c_out c1 = c_out c" "c_sysfd c1 = c_sysfd c" "c_pa c1 = c_pa c" by (simp_all add: c1_def)
  have push: "\<exists>w' ob. eb_Write w (c_out c) q = Some (int (length q), None, w', ob) \<and> eb_ok w' ob \<and>
      eb_contents ob = eb_contents (c_out c) @ q" if "length q \<le> length p" for q
    using eb_Write_spec [OF assms(2), of q] assms(5) that by auto
  show ?thesis
  proof (cases "eb_IsEmpty (c_out c)")
    case False
    obtain w' ob where q: "eb_Write w (c_out c) p = Some (int (length p), None, w', ob)" "eb_ok w' ob"
        "eb_contents ob = eb_contents (c_out c) @ p" using push [of p] by auto
    then show ?thesis using False assms(3) l c1
      by (auto simp: sent_ok_def conn_Write_def conn_Write_locked_def Let_def c_unlock_def pending_ok_def c1_def)
  next
    case True
    have e: "eb_contents (c_out c) = []" using eb_obs(2) [OF assms(2) True] .
    have nf: "\<not> write_fatal k p" using assms(4) True by simp
    show ?thesis
    proof (cases rule: kst_write_cases [of k "c_sysfd c" p, case_names took failed])
      case (failed x xs)
      then have "x = EAGAIN" using nf by (simp add: write_fatal_def)
      obtain w' ob where q: "eb_Write w (c_out c) p = Some (int (length p), None, w', ob)" "eb_ok w' ob"
          "eb_contents ob = eb_contents (c_out c) @ p" using push [of p] by auto
      have "conn_Write kst_sys w k c p = Some (-1, None, w',
          (k\<lparr>ks_wr := xs\<rparr>)\<lparr>ks_ev := (ks_ev k)(pa_FD (c_pa c) \<mapsto> readWriteEvents)\<rparr>, c_unlock (c1\<lparr>c_out := ob\<rparr>))"
        using l c1 True failed(2) q(1) \<open>x = EAGAIN\<close>
        by (simp add: conn_Write_def conn_Write_locked_def Let_def ModReadWrite_kst)
      then show ?thesis using q e failed(1) by (simp add: subset_insertI sent_ok_def c_unlock_def pending_ok_def c1_def)
    next
      case (took m k')
      have "m \<noteq> 0" using took_pos [OF nf took(5,6,7)] .
      show ?thesis
      proof (cases "m = length p")
        case m: True
        then have "conn_Write kst_sys w k c p = Some (int (length p), None, w, k', c_unlock c1)"
          using l c1 True took(1) \<open>m \<noteq> 0\<close>
          by (simp add: conn_Write_def conn_Write_locked_def Let_def)
        then show ?thesis using took(3,4,8) m True e assms(2)
          by (simp add: sent_ok_def c_unlock_def pending_ok_def c1_def)
      next
        case False
        then have lt: "m < length p" using took(2) by simp
        obtain w' ob where q: "eb_Write w (c_out c) (drop m p) = Some (int (length (drop m p)), None, w', ob)" "eb_ok w' ob"
            "eb_contents ob = eb_contents (c_out c) @ drop m p" using push [of "drop m p"] by auto
        have "lview p (int m) (int (length p)) = Some (drop m p)" using lt by (simp add: slice_simps)
        then have "conn_Write kst_sys w k c p = Some (int (length p), None, w',
            k'\<lparr>ks_ev := (ks_ev k')(pa_FD (c_pa c) \<mapsto> readWriteEvents)\<rparr>, c_unlock (c1\<lparr>c_out := ob\<rparr>))"
          using l c1 True took(1) \<open>m \<noteq> 0\<close> q(1) lt
          by (simp add: conn_Write_def conn_Write_locked_def Let_def ModReadWrite_kst)
        then show ?thesis using q took(3,8) e lt by (simp add: sent_ok_def c_unlock_def pending_ok_def c1_def)
      qed
    qed
  qed
qed

lemma concat_unsent: "0 \<le> sent \<Longrightarrow> concat (unsent sent bs) = drop (nat sent) (concat bs)"
proof (induction sent bs rule: unsent.induct)
  case (2 sent b bs)
  show ?case
  proof (cases "sent < int (length b)")
    case False
    then have "nat (sent - int (length b)) = nat sent - length b" by (simp add: nat_diff_distrib)
    then show ?thesis using 2 False by simp
  qed (use 2 in \<open>simp add: nat_less_iff\<close>)
qed simp

lemma sum_length: "sum_list (map (int \<circ> length) bs) = int (length (concat bs))"
  by (induction bs) auto

lemma conn_writev_spec:
  assumes "\<not> c_locked c" and "eb_ok w (c_out c)" and "pending_ok k c"
    and "\<not> eb_IsEmpty (c_out c) \<or> \<not> write_fatal k (concat bs)"
    and "length (eb_contents (c_out c)) + length (concat bs) \<le> rb_limit"
  shows "sent_ok k c (concat bs) (conn_writev kst_sys w k c bs)"
proof -
  define c1 where "c1 = c\<lparr>c_locked := True\<rparr>"
  have l: "c_lock c = Some c1" using assms(1) by (simp add: c_lock_def c1_def)
  have c1: "c_out c1 = c_out c" "c_sysfd c1 = c_sysfd c" "c_pa c1 = c_pa c" by (simp_all add: c1_def)
  have push: "\<exists>w' ob. eb_Writev w (c_out c) q = Some (int (length (concat q)), None, w', ob) \<and> eb_ok w' ob \<and>
      eb_contents ob = eb_contents (c_out c) @ concat q" if "length (concat q) \<le> length (concat bs)" for q
    using eb_Writev_spec [OF assms(2), of q] assms(5) that by auto
  show ?thesis
  proof (cases "eb_IsEmpty (c_out c)")
    case False
    obtain w' ob where q: "eb_Writev w (c_out c) bs = Some (int (length (concat bs)), None, w', ob)" "eb_ok w' ob"
        "eb_contents ob = eb_contents (c_out c) @ concat bs" using push [of bs] by auto
    then show ?thesis using False assms(3) l c1
      by (auto simp: sent_ok_def conn_writev_def conn_writev_locked_def Let_def c_unlock_def pending_ok_def c1_def
          sum_length)
  next
    case True
    have e: "eb_contents (c_out c) = []" using eb_obs(2) [OF assms(2) True] .
    have nf: "\<not> write_fatal k (concat bs)" using assms(4) True by simp
    show ?thesis
    proof (cases rule: kst_write_cases [of k "c_sysfd c" "concat bs", case_names took failed])
      case (failed x xs)
      then have "x = EAGAIN" using nf by (simp add: write_fatal_def)
      obtain w' ob where q: "eb_Writev w (c_out c) bs = Some (int (length (concat bs)), None, w', ob)" "eb_ok w' ob"
          "eb_contents ob = eb_contents (c_out c) @ concat bs" using push [of bs] by auto
      have "conn_writev kst_sys w k c bs = Some (-1, None, w',
          (k\<lparr>ks_wr := xs\<rparr>)\<lparr>ks_ev := (ks_ev k)(pa_FD (c_pa c) \<mapsto> readWriteEvents)\<rparr>, c_unlock (c1\<lparr>c_out := ob\<rparr>))"
        using l c1 True failed(2) q(1) \<open>x = EAGAIN\<close>
        by (simp add: conn_writev_def conn_writev_locked_def Let_def ModReadWrite_kst sum_length)
      then show ?thesis using q e failed(1) by (auto simp: subset_insertI sent_ok_def c_unlock_def pending_ok_def c1_def)
    next
      case (took m k')
      have "m \<noteq> 0" using took_pos [OF nf took(5,6,7)] .
      show ?thesis
      proof (cases "m = length (concat bs)")
        case m: True
        have "\<not> m < length (concat bs)" using m by simp
        then have "conn_writev kst_sys w k c bs = Some (int (length (concat bs)), None, w, k', c_unlock c1)"
          using l c1 True took(1) \<open>m \<noteq> 0\<close>
          by (simp add: conn_writev_def conn_writev_locked_def Let_def sum_length)
        then show ?thesis using took(3,4,8) m True e assms(2)
          by (simp add: sent_ok_def c_unlock_def pending_ok_def c1_def)
      next
        case False
        then have lt: "m < length (concat bs)" using took(2) by simp
        have u: "concat (unsent (int m) bs) = drop m (concat bs)" by (simp add: concat_unsent)
        obtain w' ob where q: "eb_Writev w (c_out c) (unsent (int m) bs) =
              Some (int (length (concat (unsent (int m) bs))), None, w', ob)" "eb_ok w' ob"
            "eb_contents ob = eb_contents (c_out c) @ drop m (concat bs)"
          using push [of "unsent (int m) bs"] u by auto
        have "conn_writev kst_sys w k c bs = Some (int (length (concat bs)), None, w',
            k'\<lparr>ks_ev := (ks_ev k')(pa_FD (c_pa c) \<mapsto> readWriteEvents)\<rparr>, c_unlock (c1\<lparr>c_out := ob\<rparr>))"
          using l c1 True took(1) \<open>m \<noteq> 0\<close> q(1) lt
          by (simp add: conn_writev_def conn_writev_locked_def Let_def ModReadWrite_kst sum_length)
        then show ?thesis using q took(3,8) e lt by (simp add: sent_ok_def c_unlock_def pending_ok_def c1_def)
      qed
    qed
  qed
qed

end
