(* ===== verification/ConnProps.thy ===== *)
theory ConnProps
  imports ConnWrite
begin

text \<open>
  The sending side of a connection: what \<open>WriteFlush\<close> does over any kernel, and runs of writes
  and writable events over a kernel that is only slow, in which every call returns and keeps
  the bytes in order. \<open>ConnOrder\<close> has the runs of all calls over any kernel.
\<close>

section \<open>A run of the sending side\<close>

text \<open>Writes by the application and writable events of the poller, in any order.\<close>

datatype conn_op = CWrite "byte list" | CWritev "byte list list" | CFlush

fun op_input :: "conn_op \<Rightarrow> byte list" where
  "op_input (CWrite p) = p"
| "op_input (CWritev bs) = concat bs"
| "op_input CFlush = []"

fun conn_step :: "'k sys \<Rightarrow> world \<times> 'k \<times> conn \<Rightarrow> conn_op \<Rightarrow> (world \<times> 'k \<times> conn) option" where
  "conn_step sys (w, k, c) (CWrite p) = map_option (\<lambda>(n, e, s). s) (conn_Write sys w k c p)"
| "conn_step sys (w, k, c) (CWritev bs) = map_option (\<lambda>(n, e, s). s) (conn_writev sys w k c bs)"
| "conn_step sys (w, k, c) CFlush = map_option (\<lambda>(e, s). s) (conn_WriteFlush sys w k c)"

fun conn_run :: "'k sys \<Rightarrow> world \<times> 'k \<times> conn \<Rightarrow> conn_op list \<Rightarrow> (world \<times> 'k \<times> conn) option" where
  "conn_run sys s [] = Some s"
| "conn_run sys s (x # xs) = do { s \<leftarrow> conn_step sys s x; conn_run sys s xs }"

text \<open>A kernel that takes at least a byte or asks to come back later.\<close>

definition kst_calm :: "kst \<Rightarrow> bool" where
  "kst_calm k \<longleftrightarrow> (\<forall>x \<in> set (ks_wr k). case x of Inl m \<Rightarrow> 0 < m | Inr e \<Rightarrow> e = EAGAIN)"

lemma kst_calm_write: "kst_calm k \<Longrightarrow> p \<noteq> [] \<Longrightarrow> \<not> write_fatal k p"
  by (cases "ks_wr k") (auto simp: kst_calm_def write_fatal_def split: sum.splits)

text \<open>The invariant of a connection, over any kernel and over a calm one.\<close>

definition conn_good :: "world \<times> kst \<times> conn \<Rightarrow> bool" where
  "conn_good s \<longleftrightarrow> (case s of (w, k, c) \<Rightarrow> \<not> c_locked c \<and> eb_ok w (c_out c) \<and> pending_ok k c)"

definition conn_sound :: "world \<times> kst \<times> conn \<Rightarrow> bool" where
  "conn_sound s \<longleftrightarrow> (case s of (w, k, c) \<Rightarrow> \<not> c_locked c \<and> eb_ok w (c_out c) \<and> pending_ok k c \<and> kst_calm k)"

lemma conn_sound_good: "conn_sound (w, k, c) \<longleftrightarrow> conn_good (w, k, c) \<and> kst_calm k"
  by (auto simp: conn_sound_def conn_good_def)

lemma kst_calm_mono: "kst_calm k \<Longrightarrow> set (ks_wr k') \<subseteq> set (ks_wr k) \<Longrightarrow> kst_calm k'"
  by (auto simp: kst_calm_def)

definition conn_stream :: "world \<times> kst \<times> conn \<Rightarrow> byte list" where
  "conn_stream s = (case s of (w, k, c) \<Rightarrow> ks_out k @ eb_contents (c_out c))"

definition out_len :: "world \<times> kst \<times> conn \<Rightarrow> nat" where
  "out_len s = (case s of (w, k, c) \<Rightarrow> length (eb_contents (c_out c)))"

section \<open>Flushing\<close>

lemma eb_Peek_empty:
  assumes "eb_ok w mb" and "eb_Peek mb n = Some (views, mb')"
  shows "eb_IsEmpty mb' = eb_IsEmpty mb"
proof -
  obtain as where rep: "ll_rep (eb_list mb) as (ll_slices (eb_list mb))"
    using assms(1) ll_ok_rep unfolding eb_ok_def by blast
  show ?thesis using assms(2) ll_PeekWithBytes_spec [OF rep]
    by (auto simp: eb_Peek_def Let_def eb_IsEmpty_def ll_IsEmpty_def bind_Some_conv split: if_splits)
qed

lemma concat_take_take:
  assumes "concat xs = take (length (concat xs)) q"
  shows "concat (take i xs) = take (length (concat (take i xs))) q"
proof -
  have "concat xs = concat (take i xs) @ concat (drop i xs)" by (simp flip: concat_append)
  moreover have "q = concat xs @ drop (length (concat xs)) q" using assms by (metis append_take_drop_id)
  ultimately have "q = concat (take i xs) @ concat (drop i xs) @ drop (length (concat xs)) q" by simp
  then show ?thesis by (metis append_eq_conv_conj)
qed

text \<open>The write that \<open>WriteFlush\<close> makes: at most \<open>iovMax\<close> slices, all in order.\<close>

lemma conn_WriteFlush_call:
  assumes "\<not> c_locked c" and "eb_Peek (c_out c) (-1) = Some (iov, ob)"
    and "kst_write k (c_sysfd c) (concat (take iovMax iov)) = (n, err, k')"
  shows "conn_WriteFlush kst_sys w k c =
     (let c1 = c\<lparr>c_locked := True\<rparr> in
      if n < 0 then Some (if err = Some EAGAIN then None else err, w, k', c_unlock (c1\<lparr>c_out := ob\<rparr>))
      else if n = 0 then Some (Some ECONNRESET, w, k', c_unlock (c1\<lparr>c_out := ob\<rparr>))
      else do {
        (_, _, w, ob') \<leftarrow> eb_Discard w ob n;
        if eb_IsEmpty ob' then
          Some (None, w, snd (ModRead kst_ctl (c_pa c) k'), c_unlock (c1\<lparr>c_out := ob'\<rparr>))
        else Some (None, w, k', c_unlock (c1\<lparr>c_out := ob'\<rparr>))
      })"
proof -
  consider "iov = []" | a where "iov = [a]" | a b bs where "iov = a # b # bs"
    by (cases iov rule: list.exhaust; cases "tl iov" rule: list.exhaust) auto
  then show ?thesis using assms
    by cases (cases "eb_Discard w ob n"; simp add: conn_WriteFlush_def c_lock_def Let_def iovMax_def split_def)+
qed

lemma sent_slices_nonempty: "concat (take 2 iov) \<noteq> [] \<Longrightarrow> concat (take iovMax iov) \<noteq> []"
  by (cases iov rule: list.exhaust; cases "tl iov" rule: list.exhaust) (auto simp: iovMax_def numeral_2_eq_2)

lemma conn_WriteFlush_good:
  assumes "conn_good (w, k, c)"
  shows "\<exists>e w' k' c'. conn_WriteFlush kst_sys w k c = Some (e, w', k', c') \<and> conn_good (w', k', c') \<and> set (ks_wr k') \<subseteq> set (ks_wr k) \<and>
    conn_stream (w', k', c') = conn_stream (w, k, c) \<and> out_len (w', k', c') \<le> out_len (w, k, c)"
proof -
  define c1 where "c1 = c\<lparr>c_locked := True\<rparr>"
  have s: "\<not> c_locked c" "eb_ok w (c_out c)" "pending_ok k c"
    using assms by (simp_all add: conn_good_def)
  obtain iov ob where p: "eb_Peek (c_out c) (-1) = Some (iov, ob)" "eb_ok w ob"
      "eb_contents ob = eb_contents (c_out c)" "concat iov = take (length (concat iov)) (eb_contents (c_out c))"
    using eb_Peek_spec [OF s(2), of "-1"] by blast
  have ie: "eb_IsEmpty ob = eb_IsEmpty (c_out c)" by (rule eb_Peek_empty [OF s(2) p(1)])
  define q where "q = concat (take iovMax iov)"
  have q: "q = take (length q) (eb_contents (c_out c))" unfolding q_def by (rule concat_take_take [OF p(4)])
  note start = conn_WriteFlush_call [OF s(1) p(1), folded q_def c1_def]
  show ?thesis
  proof (cases rule: kst_write_cases [of k "c_sysfd c" q, case_names took failed])
    case (failed e xs)
    then show ?thesis using start s p ie
      by (auto simp: conn_good_def conn_stream_def out_len_def c_unlock_def c1_def pending_ok_def)
  next
    case (took m k')
    show ?thesis
    proof (cases "m = 0")
      case True
      then show ?thesis using start took s p ie took(8)
        by (auto simp: conn_good_def conn_stream_def out_len_def c_unlock_def c1_def pending_ok_def)
    next
      case False
      have le: "m \<le> length (eb_contents (c_out c))" using took(2) q by (metis length_take min.boundedE le_trans)
      obtain e w' ob' where d: "eb_Discard w ob (int m) = Some (int m, e, w', ob')" "eb_ok w' ob'"
          "eb_contents ob' = drop m (eb_contents (c_out c))"
        using eb_Discard_spec [OF p(2), of "int m"] p(3) le by auto
      have tk: "take m q = take m (eb_contents (c_out c))" using q took(2) by (metis min.absorb1 take_take)
      have reg: "pending_ok k c \<Longrightarrow> \<not> eb_IsEmpty ob' \<Longrightarrow> ks_ev k' (pa_FD (c_pa c)) = Some readWriteEvents"
      proof -
        assume *: "pending_ok k c" "\<not> eb_IsEmpty ob'"
        have "eb_contents (c_out c) \<noteq> []" using le False by auto
        then have "\<not> eb_IsEmpty (c_out c)" using eb_obs(2) [OF s(2)] by blast
        then show ?thesis using *(1) took(4) by (simp add: pending_ok_def)
      qed
      show ?thesis
      proof (cases "eb_IsEmpty ob'")
        case True
        then have "conn_WriteFlush kst_sys w k c = Some (None, w',
            k'\<lparr>ks_ev := (ks_ev k')(pa_FD (c_pa c) \<mapsto> readEvents)\<rparr>, c_unlock (c1\<lparr>c_out := ob'\<rparr>))"
          using start took(1) False d(1) by (simp add: Let_def ModRead_kst c1_def)
        then show ?thesis using took(3) tk d True took(8)
          by (simp add: conn_good_def conn_stream_def out_len_def c_unlock_def c1_def pending_ok_def)
      next
        case ne: False
        then have "conn_WriteFlush kst_sys w k c = Some (None, w', k', c_unlock (c1\<lparr>c_out := ob'\<rparr>))"
          using start took(1) False d(1) by (simp add: Let_def c1_def)
        then show ?thesis using took(3) tk d took(8) reg [OF s(3) ne]
          by (simp add: conn_good_def conn_stream_def out_len_def c_unlock_def c1_def pending_ok_def)
      qed
    qed
  qed
qed

lemma conn_WriteFlush_spec:
  assumes "conn_sound (w, k, c)"
  shows "\<exists>e w' k' c'. conn_WriteFlush kst_sys w k c = Some (e, w', k', c') \<and> conn_sound (w', k', c') \<and>
    conn_stream (w', k', c') = conn_stream (w, k, c) \<and> out_len (w', k', c') \<le> out_len (w, k, c)"
  using conn_WriteFlush_good [of w k c] assms kst_calm_mono unfolding conn_sound_good by blast

section \<open>Every run\<close>

lemma conn_step_spec:
  assumes "conn_sound s" and "op = CFlush \<or> op_input op \<noteq> []" and "out_len s + length (op_input op) \<le> rb_limit"
  shows "\<exists>s'. conn_step kst_sys s op = Some s' \<and> conn_sound s' \<and> conn_stream s' = conn_stream s @ op_input op \<and>
    out_len s' \<le> out_len s + length (op_input op)"
proof -
  obtain w k c where s: "s = (w, k, c)" by (cases s)
  have c: "\<not> c_locked c" "eb_ok w (c_out c)" "pending_ok k c" "kst_calm k"
    using assms(1) by (simp_all add: conn_sound_def s)
  have sent: "\<exists>n w' k' c'. r = Some (n, None, w', k', c') \<and> conn_sound (w', k', c') \<and>
      conn_stream (w', k', c') = conn_stream s @ p \<and> out_len (w', k', c') \<le> out_len s + length p"
    if "sent_ok k c p r" for p r
  proof -
    from that obtain n w' k' c' where r: "r = Some (n, None, w', k', c')"
        "ks_out k' @ eb_contents (c_out c') = ks_out k @ eb_contents (c_out c) @ p" "eb_ok w' (c_out c')"
        "pending_ok k' c'" "\<not> c_locked c'" "set (ks_wr k') \<subseteq> set (ks_wr k)" "length (ks_out k) \<le> length (ks_out k')"
      unfolding sent_ok_def by blast
    have "length (eb_contents (c_out c')) \<le> length (eb_contents (c_out c)) + length p"
      using arg_cong [OF r(2), of length] r(7) by simp
    then show ?thesis using r c(4) by (auto simp: conn_sound_def conn_stream_def out_len_def s kst_calm_def)
  qed
  show ?thesis
  proof (cases op)
    case (CWrite p)
    then have "sent_ok k c p (conn_Write kst_sys w k c p)"
      using assms(2,3) kst_calm_write [OF c(4)] by (intro conn_Write_spec c) (simp_all add: out_len_def s)
    from sent [OF this] show ?thesis using CWrite s by auto
  next
    case (CWritev bs)
    then have "sent_ok k c (concat bs) (conn_writev kst_sys w k c bs)"
      using assms(2,3) kst_calm_write [OF c(4)] by (intro conn_writev_spec c) (simp_all add: out_len_def s)
    from sent [OF this] show ?thesis using CWritev s by auto
  next
    case CFlush
    then show ?thesis using conn_WriteFlush_spec [of w k c] assms(1) s by fastforce
  qed
qed

lemma conn_run_spec:
  assumes "conn_sound s" and "\<forall>op \<in> set ops. op = CFlush \<or> op_input op \<noteq> []"
    and "out_len s + length (concat (map op_input ops)) \<le> rb_limit"
  shows "\<exists>s'. conn_run kst_sys s ops = Some s' \<and> conn_sound s' \<and>
    conn_stream s' = conn_stream s @ concat (map op_input ops)"
  using assms
proof (induction ops arbitrary: s)
  case (Cons op ops)
  obtain s1 where s1: "conn_step kst_sys s op = Some s1" "conn_sound s1" "conn_stream s1 = conn_stream s @ op_input op"
      "out_len s1 \<le> out_len s + length (op_input op)"
    using conn_step_spec [OF Cons.prems(1), of op] Cons.prems(2,3) by auto
  then show ?case using Cons.IH [OF s1(2)] Cons.prems(2,3) by auto
qed simp

text \<open>A connection as \<open>newTCPConn\<close> leaves it.\<close>

lemma newTCPConn_spec:
  assumes "w_ok w" and "0 < cap"
  shows "\<exists>c w'. newTCPConn w pollFd fd addr cap = Some (c, w') \<and> w_ok w' \<and> \<not> c_locked c \<and> c_sysfd c = fd \<and>
    c_pa c = \<lparr>pa_PollFd = pollFd, pa_FD = fd\<rparr> \<and> eb_ok w' (c_out c) \<and> eb_contents (c_out c) = [] \<and>
    eb_IsEmpty (c_out c) \<and> c_in c = \<lparr>er_rb = None\<rparr>"
proof -
  have "ll_rep ll_empty [] []" by (rule ll_rep_empty)
  moreover have "pool_ok (w_bs w)" using assms(1) by (simp add: w_ok_def)
  ultimately obtain pool' l where l: "ll_Reset (w_bs w) ll_empty = Some (pool', l)" "ll_rep l [] []" "pool_ok pool'"
    using ll_Reset_spec by blast
  then show ?thesis using assms ll_rep_ok [OF l(2)] ll_rep_contents [OF l(2)] ll_rep_slices [OF l(2)] ll_obs(3) [OF l(2)]
    by (simp add: newTCPConn_def eb_Reset_def zero_ebuf_def er_Reset_def eb_ok_def er_ok_def er_contents_def
        eb_contents_def eb_IsEmpty_def er_IsEmpty_def)
qed

text \<open>For the witnesses: a kernel that takes two bytes, then none for now, then everything.\<close>

definition slow_kernel :: kst where
  "slow_kernel = \<lparr>ks_in = [], ks_wr = [Inl 2, Inr EAGAIN], ks_out = [], ks_ev = (\<lambda>_. None)\<rparr>"

definition conn7 :: conn where
  "conn7 = fst (the (newTCPConn empty_world 5 7 None 64))"

lemma newTCPConn_empty_world: "newTCPConn empty_world 5 7 None 64 = Some (conn7, empty_world)"
  by (simp add: conn7_def newTCPConn_def eb_Reset_def zero_ebuf_def er_Reset_def ll_Reset_def ll_Reset_loop.simps
      ll_pop_def ll_empty_def)

end
