(* ===== verification/ConnRead.thy ===== *)
theory ConnRead
  imports ConnProps
begin

text \<open>
  The receiving side of a connection, against a socket given by a script: what a readable
  event brings into the inbound ring and how it ends. The failing calls of the sending side,
  which never return, are at the end.
\<close>

section \<open>What a readable event finds\<close>

text \<open>
  The bytes up to the first error other than \<open>EINTR\<close>, the result of \<open>eventRead\<close> for that
  error (end of file is reported as \<open>ECONNRESET\<close>), and what is left of the socket.
\<close>

fun sock_bytes :: "sock \<Rightarrow> byte list" where
  "sock_bytes [] = []"
| "sock_bytes (Inl d # xs) = d @ sock_bytes xs"
| "sock_bytes (Inr e # xs) = (if e = EINTR then sock_bytes xs else [])"

fun sock_result :: "sock \<Rightarrow> goerror option" where
  "sock_result [] = Some ECONNRESET"
| "sock_result (Inl d # xs) = sock_result xs"
| "sock_result (Inr e # xs) = (if e = EINTR then sock_result xs else if e = EAGAIN then None else Some e)"

fun sock_left :: "sock \<Rightarrow> sock" where
  "sock_left [] = []"
| "sock_left (Inl d # xs) = sock_left xs"
| "sock_left (Inr e # xs) = (if e = EINTR then sock_left xs else xs)"

fun sock_size :: "sock \<Rightarrow> nat" where
  "sock_size [] = 0"
| "sock_size (Inl d # xs) = Suc (length d + sock_size xs)"
| "sock_size (Inr e # xs) = Suc (sock_size xs)"

text \<open>A chunk of data is not empty: a read of no bytes is end of file.\<close>

definition sock_wf :: "sock \<Rightarrow> bool" where
  "sock_wf s \<longleftrightarrow> Inl [] \<notin> set s"

lemma kst_read_simps [simp]:
  "ks_in k = [] \<Longrightarrow> kst_read k fd p = (0, None, p, k)"
  "ks_in k = Inr e # xs \<Longrightarrow> kst_read k fd p = (-1, Some e, p, k\<lparr>ks_in := xs\<rparr>)"
  by (simp_all add: kst_read_def)

lemma kst_read_data:
  assumes "ks_in k = Inl d # xs" and "sock_wf (ks_in k)" and "0 < length p"
  shows "\<exists>c s. kst_read k fd p = (int (length c), None, c @ drop (length c) p, k\<lparr>ks_in := s\<rparr>) \<and> c \<noteq> [] \<and>
    length c \<le> length p \<and> sock_wf s \<and> sock_size s < sock_size (ks_in k) \<and>
    sock_bytes (ks_in k) = c @ sock_bytes s \<and> sock_result s = sock_result (ks_in k) \<and> sock_left s = sock_left (ks_in k)"
proof (cases "length d \<le> length p")
  case True
  then show ?thesis using assms by (intro exI [of _ d] exI [of _ xs]) (auto simp: kst_read_def sock_wf_def)
next
  case False
  then show ?thesis using assms
    by (intro exI [of _ "take (length p) d"] exI [of _ "Inl (drop (length p) d) # xs"])
      (auto simp: kst_read_def sock_wf_def min_absorb2)
qed

lemma eventRead_loop_step:
  assumes "kst_read k fd buffer = (n, err, buffer', k')"
  shows "conn_eventRead_loop kst_sys w k fd ib buffer =
    (if err = Some EINTR then conn_eventRead_loop kst_sys w k' fd ib buffer'
     else if n < 0 then Some (if err = Some EAGAIN then None else err, w, k', ib)
     else if n = 0 then Some (Some ECONNRESET, w, k', ib)
     else do {
       v \<leftarrow> lview buffer' 0 n;
       (_, _, w, ib) \<leftarrow> er_Write w ib v;
       conn_eventRead_loop kst_sys w k' fd ib buffer'
     })"
proof (cases "err = Some EINTR")
  case True
  then have "conn_ignoringEINTRIO kst_read k fd buffer = conn_ignoringEINTRIO kst_read k' fd buffer'"
    using assms by (subst conn_ignoringEINTRIO.simps) simp
  then show ?thesis using True
    by (subst (1 2) conn_eventRead_loop.simps) simp
next
  case False
  then have "conn_ignoringEINTRIO kst_read k fd buffer = Some (n, err, buffer', k')"
    using assms by (subst conn_ignoringEINTRIO.simps) simp
  then show ?thesis using False by (subst conn_eventRead_loop.simps) simp
qed

lemma eventRead_loop_spec:
  assumes "w_ok w" and "er_ok ib" and "sock_wf (ks_in k)" and "0 < length buffer"
    and "length (er_contents ib) + length (sock_bytes (ks_in k)) \<le> rb_limit"
  shows "\<exists>w' ib'. conn_eventRead_loop kst_sys w k fd ib buffer =
      Some (sock_result (ks_in k), w', k\<lparr>ks_in := sock_left (ks_in k)\<rparr>, ib') \<and> w_ok w' \<and> er_ok ib' \<and>
    er_contents ib' = er_contents ib @ sock_bytes (ks_in k)"
  using assms
proof (induction "sock_size (ks_in k)" arbitrary: k w ib buffer rule: less_induct)
  case less
  show ?case
  proof (cases "ks_in k")
    case Nil
    then have "conn_eventRead_loop kst_sys w k fd ib buffer = Some (Some ECONNRESET, w, k, ib)"
      using eventRead_loop_step [of k fd buffer 0 None buffer k] by simp
    then show ?thesis using Nil less.prems by (cases k) simp
  next
    case (Cons x xs)
    show ?thesis
    proof (cases x)
      case (Inr e)
      then have r: "kst_read k fd buffer = (-1, Some e, buffer, k\<lparr>ks_in := xs\<rparr>)" using Cons by simp
      show ?thesis
      proof (cases "e = EINTR")
        case True
        then show ?thesis using less.hyps [of "k\<lparr>ks_in := xs\<rparr>" w ib buffer] less.prems Cons Inr
          eventRead_loop_step [OF r] by (simp add: sock_wf_def)
      next
        case False
        then show ?thesis using eventRead_loop_step [OF r] less.prems Cons Inr by simp
      qed
    next
      case (Inl d)
      obtain c s where c: "kst_read k fd buffer = (int (length c), None, c @ drop (length c) buffer, k\<lparr>ks_in := s\<rparr>)"
          "c \<noteq> []" "length c \<le> length buffer" "sock_wf s" "sock_size s < sock_size (ks_in k)"
          "sock_bytes (ks_in k) = c @ sock_bytes s" "sock_result s = sock_result (ks_in k)"
          "sock_left s = sock_left (ks_in k)"
        using kst_read_data [of k d xs buffer fd] Cons Inl less.prems(3,4) by auto
      have lim: "length (er_contents ib) + length c \<le> rb_limit" using less.prems(5) c(6) by simp
      obtain w1 ib1 where e: "er_Write w ib c = Some (int (length c), None, w1, ib1)" "w_ok w1" "er_ok ib1"
          "er_contents ib1 = er_contents ib @ c"
        using er_Write_spec [OF less.prems(1,2) lim] by blast
      have "lview (c @ drop (length c) buffer) 0 (int (length c)) = Some c" by (simp add: lview_def)
      then have step: "conn_eventRead_loop kst_sys w k fd ib buffer =
          conn_eventRead_loop kst_sys w1 (k\<lparr>ks_in := s\<rparr>) fd ib1 (c @ drop (length c) buffer)"
        using eventRead_loop_step [OF c(1)] c(2) e(1) by simp
      have "0 < length (c @ drop (length c) buffer)" using c(2) by simp
      from less.hyps [of "k\<lparr>ks_in := s\<rparr>", OF _ e(2,3) _ this] show ?thesis
        using c(4-8) e(4) less.prems(5) unfolding step by simp
    qed
  qed
qed



section \<open>Failing writes\<close>

text \<open>
  C28: a failing write blocks for ever. Whenever nothing is pending and the system call fails
  (with anything but \<open>EAGAIN\<close>) or writes nothing, as it does for empty data, \<open>Write\<close> and
  \<open>writev\<close> call \<open>Close\<close> while they hold the write lock, and \<open>Close\<close> takes the same
  lock first: the call never returns, whatever the kernel and the state of the pools.
\<close>

theorem conn_Write_failure_blocks:
  assumes "eb_IsEmpty (c_out c)" and "sent < 0 \<and> err \<noteq> Some EAGAIN \<or> sent = 0 \<or> 0 < sent \<and> err \<noteq> None"
  shows "(s_write sys k (c_sysfd c) data = (sent, err, k') \<longrightarrow> conn_Write sys w k c data = None) \<and>
    (s_writev sys k (c_sysfd c) bs = (sent, err, k') \<longrightarrow> conn_writev sys w k c bs = None)"
  using assms
  by (auto simp: conn_Write_def conn_writev_def c_lock_def conn_Write_locked_def conn_writev_locked_def conn_Close_def Let_def)

lemma conn7_empty: "eb_IsEmpty (c_out conn7)"
  using newTCPConn_spec [of empty_world 64 5 7 None] newTCPConn_empty_world by auto

theorem conn_Write_failure_blocks_witness:
  "conn_Write kst_sys empty_world (slow_kernel\<lparr>ks_wr := [Inr ECONNRESET]\<rparr>) conn7 [1, 2] = None"
  using conn_Write_failure_blocks [of conn7 "-1" "Some ECONNRESET" kst_sys "slow_kernel\<lparr>ks_wr := [Inr ECONNRESET]\<rparr>"
      "[1, 2]" "slow_kernel\<lparr>ks_wr := []\<rparr>" empty_world "[]"] conn7_empty
  by (simp add: kst_write_def)

end
