(* ===== verification/Framing.thy ===== *)
theory Framing
  imports ConnRead Endian
begin

text \<open>
  \<open>glibevent.go\<close> and \<open>client.go\<close>: the header interface and the default header, the decoder
  that cuts the inbound bytes into messages, and the receive loop of the client. A header
  implementation is a record of its methods on a state \<open>'h\<close>. Messages go to the application
  as calls of its handler; a run records them.
\<close>

section \<open>Headers\<close>

record 'h header =
  h_GetLen :: "'h \<Rightarrow> int"
  h_Decode :: "'h \<Rightarrow> byte list \<Rightarrow> 'h"
  h_Encode :: "'h \<Rightarrow> byte list"
  h_GetBodyLen :: "'h \<Rightarrow> int"

definition maxHeaderLen :: int where
  "maxHeaderLen = 8"

record defaultHead =
  dh_bodyLen :: "32 word"
  dh_msgId :: "32 word"

definition dh_GetLen :: "defaultHead \<Rightarrow> int" where
  "dh_GetLen d = maxHeaderLen"

text \<open>\<open>binary.Read\<close> of an \<open>int32\<close>: on a short buffer the bytes are used up and the field stays.\<close>

definition dh_Decode :: "defaultHead \<Rightarrow> byte list \<Rightarrow> defaultHead" where
  "dh_Decode h data =
     (let h = (if length data \<ge> 4 then h\<lparr>dh_bodyLen := word_of_nat (le_get (take 4 data))\<rparr> else h);
          data = drop 4 data
      in if length data \<ge> 4 then h\<lparr>dh_msgId := word_of_nat (le_get (take 4 data))\<rparr> else h)"

definition dh_Encode :: "defaultHead \<Rightarrow> byte list" where
  "dh_Encode h = le_put 4 (unat (dh_bodyLen h)) @ le_put 4 (unat (dh_msgId h))"

definition dh_GetBodyLen :: "defaultHead \<Rightarrow> int" where
  "dh_GetBodyLen h = sint (dh_bodyLen h)"

definition default_header :: "defaultHead header" where
  "default_header = \<lparr>h_GetLen = dh_GetLen, h_Decode = dh_Decode, h_Encode = dh_Encode, h_GetBodyLen = dh_GetBodyLen\<rparr>"

text \<open>\<open>NewHead\<close> of the default decoder.\<close>

definition dd_NewHead :: defaultHead where
  "dd_NewHead = \<lparr>dh_bodyLen = 0, dh_msgId = 0\<rparr>"

section \<open>The decoder\<close>

text \<open>
  \<open>Decode\<close> on an inbound buffer: the header and body it returns, the error, the header
  object, and the buffer afterwards. \<open>DefaultDecoder\<close> and \<open>Client\<close> have the same body.
\<close>

definition in_Decode ::
  "'h header \<Rightarrow> 'h \<Rightarrow> world \<Rightarrow> ering \<Rightarrow> (byte list \<times> byte list \<times> goerror option \<times> 'h \<times> world \<times> ering) option" where
  "in_Decode H head w ib =
     (let bufflen = er_Buffered ib;
          headLen = h_GetLen H head in
      if bufflen < headLen then Some ([], [], Some ErrShortBuffer, head, w, ib)
      else do {
        (headData, err) \<leftarrow> in_Peek ib headLen;
        if err \<noteq> None then Some ([], [], err, head, w, ib)
        else do {
          let head = h_Decode H head headData;
          if bufflen < headLen + h_GetBodyLen H head then Some ([], [], Some ErrShortBuffer, head, w, ib)
          else do {
            (_, err, w, ib) \<leftarrow> in_Discard w ib headLen;
            if err \<noteq> None then Some ([], [], err, head, w, ib)
            else do {
              (bodyData, err) \<leftarrow> in_Peek ib (h_GetBodyLen H head);
              if err \<noteq> None then Some ([], [], err, head, w, ib)
              else do {
                (_, err, w, ib) \<leftarrow> in_Discard w ib (h_GetBodyLen H head);
                if err \<noteq> None then Some ([], [], err, head, w, ib)
                else Some (headData, bodyData, err, head, w, ib)
              }
            }
          }
        }
      })"

definition dd_Decode ::
  "'h header \<Rightarrow> 'h \<Rightarrow> world \<Rightarrow> conn \<Rightarrow> (byte list \<times> byte list \<times> goerror option \<times> 'h \<times> world \<times> conn) option" where
  "dd_Decode H head w reader =
     do {
       (hd, bd, e, head, w, ib) \<leftarrow> in_Decode H head w (c_in reader);
       Some (hd, bd, e, head, w, reader\<lparr>c_in := ib\<rparr>)
     }"

text \<open>The loop that decodes and hands over messages until \<open>Decode\<close> reports an error.\<close>

type_synonym message = "byte list \<times> byte list"

partial_function (option) decode_loop ::
  "'h header \<Rightarrow> 'h \<Rightarrow> world \<Rightarrow> ering \<Rightarrow> message list \<Rightarrow> (message list \<times> world \<times> ering) option" where
  "decode_loop H newHead w ib out =
     do {
       (headData, bodyData, err, _, w, ib) \<leftarrow> in_Decode H newHead w ib;
       if err \<noteq> None then Some (out, w, ib)
       else decode_loop H newHead w ib (out @ [(headData, bodyData)])
     }"

section \<open>The client\<close>

datatype call = OnOpen | OnTraffic "byte list" "byte list" | OnReceive "byte list" | OnClose | ConnClose

record client =
  cl_in :: ering

definition cli_Peek :: "client \<Rightarrow> int \<Rightarrow> (byte list \<times> goerror option) option" where
  "cli_Peek cli n = in_Peek (cl_in cli) n"

definition cli_resetBuffer :: "client \<Rightarrow> client" where
  "cli_resetBuffer cli = cli\<lparr>cl_in := er_Reset (cl_in cli)\<rparr>"

definition cli_Discard :: "world \<Rightarrow> client \<Rightarrow> int \<Rightarrow> (int \<times> goerror option \<times> world \<times> client) option" where
  "cli_Discard w cli n =
     do { (d, e, w, ib) \<leftarrow> in_Discard w (cl_in cli) n; Some (d, e, w, cli\<lparr>cl_in := ib\<rparr>) }"

definition cli_Decode ::
  "'h header \<Rightarrow> 'h \<Rightarrow> world \<Rightarrow> client \<Rightarrow> (byte list \<times> byte list \<times> goerror option \<times> 'h \<times> world \<times> client) option" where
  "cli_Decode H head w cli =
     do {
       (hd, bd, e, head, w, ib) \<leftarrow> in_Decode H head w (cl_in cli);
       Some (hd, bd, e, head, w, cli\<lparr>cl_in := ib\<rparr>)
     }"

text \<open>
  \<open>process\<close>, with the calls it makes in order. \<open>dec\<close> is the header implementation of the
  decoder, or \<open>None\<close> for a client without one. Every way out runs the deferred \<open>Close\<close>.
\<close>

partial_function (option) cli_process ::
  "'s reader \<Rightarrow> ('h header \<times> 'h) option \<Rightarrow> world \<Rightarrow> client \<Rightarrow> byte list \<Rightarrow> 's \<Rightarrow> call list \<Rightarrow>
   (call list \<times> world \<times> client \<times> 's) option" where
  "cli_process rd dec w cli buf s calls =
     do {
       (n, err, buf, s) \<leftarrow> rd s buf;
       if err \<noteq> None then
         (let (w, ib) = er_Done w (cl_in cli)
          in Some (calls @ [OnClose, ConnClose, ConnClose], w, cli\<lparr>cl_in := ib\<rparr>, s))
       else do {
         (w, ib) \<leftarrow> (if n > 0 then
             do { v \<leftarrow> lview buf 0 n; (_, _, w, ib) \<leftarrow> er_Write w (cl_in cli) v; Some (w, ib) }
           else Some (w, cl_in cli));
         (case dec of
            Some d \<Rightarrow>
              do {
                (ms, w, ib) \<leftarrow> decode_loop (fst d) (snd d) w ib [];
                cli_process rd dec w (cli\<lparr>cl_in := ib\<rparr>) buf s (calls @ map (\<lambda>m. OnTraffic (fst m) (snd m)) ms)
              }
          | None \<Rightarrow>
              do {
                (data, err) \<leftarrow> in_Peek ib (-1);
                if err \<noteq> None then Some (calls @ [ConnClose], w, cli\<lparr>cl_in := ib\<rparr>, s)
                else cli_process rd dec w (cli\<lparr>cl_in := ib\<rparr>) buf s (calls @ [OnReceive data])
              })
       }
     }"

section \<open>The inbound buffer\<close>

lemma er_Reset_spec: "er_ok ib \<Longrightarrow> er_ok (er_Reset ib) \<and> er_contents (er_Reset ib) = []"
  by (auto simp: er_ok_def er_contents_def er_Reset_def split: option.splits)

lemma in_Peek_spec:
  assumes "er_ok ib" and "0 < n" and "n \<le> int (length (er_contents ib))"
  shows "in_Peek ib n = Some (take (nat n) (er_contents ib), None)"
proof -
  obtain h t where p: "er_Peek ib n = Some (h, t)" "h @ t = take (nat n) (er_contents ib)"
    using er_Peek_spec [OF assms(1,2)] by blast
  have l: "length h + length t = nat n" using arg_cong [OF p(2), of length] assms by simp
  have "er_contents ib \<noteq> []" using assms by auto
  moreover have "take (nat n) h = h @ t" if "n \<le> int (length h)"
  proof -
    have "length t = 0" using l that by linarith
    then show ?thesis using l by simp
  qed
  ultimately show ?thesis using assms p er_obs [OF assms(1)]
    by (simp add: in_Peek_def Let_def lview_def)
qed

lemma in_Peek_whole:
  assumes "er_ok ib" and "n \<le> 0"
  shows "in_Peek ib n =
    Some (if er_contents ib = [] then ([], Some ErrShortBuffer) else (er_contents ib, None))"
proof (cases "er_contents ib = []")
  case True
  then show ?thesis using assms er_obs [OF assms(1)] by (simp add: in_Peek_def Let_def)
next
  case False
  then have "0 < int (length (er_contents ib))" by simp
  from in_Peek_spec [OF assms(1) this] show ?thesis using False assms er_obs [OF assms(1)]
    by (simp add: in_Peek_def Let_def)
qed

lemma in_Discard_spec:
  assumes "w_ok w" and "er_ok ib" and "0 < n" and "n \<le> int (length (er_contents ib))"
  shows "\<exists>d w' ib'. in_Discard w ib n = Some (d, None, w', ib') \<and> w_ok w' \<and> er_ok ib' \<and>
    er_contents ib' = drop (nat n) (er_contents ib)"
proof -
  have "er_contents ib \<noteq> []" using assms by auto
  then show ?thesis using assms er_Discard_spec [OF assms(1,2), of n] er_obs [OF assms(2)]
    by (auto simp: in_Discard_def Let_def)
qed

lemma in_Discard_whole:
  assumes "er_ok ib" and "n \<le> 0"
  shows "\<exists>d. in_Discard w ib n = Some (d, None, w, er_Reset ib)"
  using assms by (simp add: in_Discard_def)

end
