(* ===== verification/FramingCorrect.thy ===== *)
theory FramingCorrect
  imports Framing
begin

text \<open>
  Messages survive the byte stream: what \<open>Decode\<close> and the receive loops deliver is the
  sequence of frames that was sent, however the stream was cut into reads. The contract of a
  header implementation is a locale; the default header provides it.
\<close>

section \<open>Frames\<close>

definition frame_bytes :: "'h header \<Rightarrow> 'h \<times> byte list \<Rightarrow> byte list" where
  "frame_bytes H f = h_Encode H (fst f) @ snd f"

text \<open>A frame whose header announces its body, which is not empty.\<close>

definition frame_ok :: "'h header \<Rightarrow> 'h \<times> byte list \<Rightarrow> bool" where
  "frame_ok H f \<longleftrightarrow> snd f \<noteq> [] \<and> h_GetBodyLen H (fst f) = int (length (snd f))"

definition frame_message :: "'h header \<Rightarrow> 'h \<times> byte list \<Rightarrow> message" where
  "frame_message H f = (h_Encode H (fst f), snd f)"

definition frames_bytes :: "'h header \<Rightarrow> ('h \<times> byte list) list \<Rightarrow> byte list" where
  "frames_bytes H fs = concat (map (frame_bytes H) fs)"

lemma frames_bytes_simps [simp]:
  "frames_bytes H [] = []" "frames_bytes H (f # fs) = frame_bytes H f @ frames_bytes H fs"
  "frames_bytes H (fs @ gs) = frames_bytes H fs @ frames_bytes H gs"
  by (simp_all add: frames_bytes_def)

text \<open>Nothing complete is left in the buffer.\<close>

definition starved :: "'h header \<Rightarrow> ('h \<times> byte list) list \<Rightarrow> byte list \<Rightarrow> bool" where
  "starved H fs q \<longleftrightarrow> (case fs of [] \<Rightarrow> q = [] | f # _ \<Rightarrow> length q < length (frame_bytes H f))"

lemma starved_complete: "starved H fs (frames_bytes H fs) \<Longrightarrow> fs = []"
  by (cases fs) (simp_all add: starved_def)

text \<open>The call that hands a frame to the application.\<close>

definition traffic :: "'h header \<Rightarrow> 'h \<times> byte list \<Rightarrow> call" where
  "traffic H f = OnTraffic (h_Encode H (fst f)) (snd f)"

lemma traffic_message: "map (\<lambda>m. OnTraffic (fst m) (snd m)) (map (frame_message H) fs) = map (traffic H) fs"
  by (simp add: frame_message_def traffic_def)

locale header_codec =
  fixes H :: "'h header" and newHead :: 'h and hlen :: nat
  assumes hlen_pos: "0 < hlen"
    and GetLen: "h_GetLen H h = int hlen"
    and length_Encode: "length (h_Encode H h) = hlen"
    and Decode_Encode: "h_Decode H newHead (h_Encode H h) = h"
begin

text \<open>The common beginning of every successful \<open>Decode\<close>: the header is in the buffer.\<close>

lemma Decode_header:
  assumes "er_ok ib" and "er_contents ib = h_Encode H h @ q"
  shows "in_Peek ib (h_GetLen H newHead) = Some (h_Encode H h, None)"
  using in_Peek_spec [OF assms(1), of "int hlen"] assms(2) hlen_pos by (simp add: GetLen length_Encode)

lemma Discard_header:
  assumes "w_ok w" and "er_ok ib" and "er_contents ib = h_Encode H h @ q"
  shows "\<exists>d w' ib'. in_Discard w ib (int hlen) = Some (d, None, w', ib') \<and> w_ok w' \<and> er_ok ib' \<and> er_contents ib' = q"
  using in_Discard_spec [OF assms(1,2), of "int hlen"] assms(3) hlen_pos by (simp add: length_Encode)

lemma Decode_frame:
  assumes "w_ok w" and "er_ok ib" and "frame_ok H f" and "er_contents ib = frame_bytes H f @ q"
  shows "\<exists>w' ib'. in_Decode H newHead w ib = Some (h_Encode H (fst f), snd f, None, fst f, w', ib') \<and>
    w_ok w' \<and> er_ok ib' \<and> er_contents ib' = q"
proof -
  let ?n = "int (length (snd f))"
  have n: "h_GetBodyLen H (fst f) = ?n" "0 < ?n" using assms(3) by (auto simp: frame_ok_def)
  have c: "er_contents ib = h_Encode H (fst f) @ snd f @ q" using assms(4) by (simp add: frame_bytes_def)
  have b: "er_Buffered ib = int (hlen + length (snd f) + length q)"
    using er_obs(1) [OF assms(2)] c by (simp add: length_Encode)
  obtain d1 w1 ib1 where d1: "in_Discard w ib (int hlen) = Some (d1, None, w1, ib1)" "w_ok w1" "er_ok ib1"
      "er_contents ib1 = snd f @ q"
    using Discard_header [OF assms(1,2) c] by blast
  have p: "in_Peek ib1 ?n = Some (snd f, None)" using in_Peek_spec [OF d1(3) n(2)] d1(4) by simp
  obtain d2 w2 ib2 where d2: "in_Discard w1 ib1 ?n = Some (d2, None, w2, ib2)" "w_ok w2" "er_ok ib2" "er_contents ib2 = q"
    using in_Discard_spec [OF d1(2,3) n(2)] d1(4) by auto
  have "in_Decode H newHead w ib = Some (h_Encode H (fst f), snd f, None, fst f, w2, ib2)"
    using Decode_header [OF assms(2) c] b d1(1) p d2(1)
    by (simp add: in_Decode_def Let_def GetLen Decode_Encode n(1))
  then show ?thesis using d2 by blast
qed

lemma Decode_short:
  assumes "er_ok ib" and "frame_ok H f" and "er_contents ib @ later = frame_bytes H f @ q"
    and "length (er_contents ib) < length (frame_bytes H f)"
  shows "\<exists>h. in_Decode H newHead w ib = Some ([], [], Some ErrShortBuffer, h, w, ib)"
proof (cases "length (er_contents ib) < hlen")
  case True
  then show ?thesis using er_obs(1) [OF assms(1)] by (simp add: in_Decode_def GetLen)
next
  case False
  have l: "length (er_contents ib) < hlen + length (snd f)" using assms(4) by (simp add: frame_bytes_def length_Encode)
  have "take hlen (er_contents ib) = take hlen (er_contents ib @ later)" using False by simp
  also have "\<dots> = h_Encode H (fst f)" unfolding assms(3) by (simp add: frame_bytes_def length_Encode)
  finally have "er_contents ib = h_Encode H (fst f) @ drop hlen (er_contents ib)" by (metis append_take_drop_id)
  from Decode_header [OF assms(1) this] show ?thesis
    using er_obs(1) [OF assms(1)] False l assms(2)
    by (simp add: in_Decode_def Let_def GetLen Decode_Encode frame_ok_def)
qed

lemma Decode_empty: "er_ok ib \<Longrightarrow> er_contents ib = [] \<Longrightarrow>
    in_Decode H newHead w ib = Some ([], [], Some ErrShortBuffer, newHead, w, ib)"
  using er_obs(1) [of ib] hlen_pos by (simp add: in_Decode_def GetLen)

text \<open>A body length of 0 or less makes the whole buffer the body.\<close>

lemma Decode_no_body:
  assumes "w_ok w" and "er_ok ib" and "h_GetBodyLen H h \<le> 0" and "er_contents ib = h_Encode H h @ q"
  shows "\<exists>hd bd e w' ib'. in_Decode H newHead w ib = Some (hd, bd, e, h, w', ib') \<and> w_ok w' \<and> er_ok ib' \<and>
    er_contents ib' = [] \<and> (hd, bd, e) = (if q = [] then ([], [], Some ErrShortBuffer) else (h_Encode H h, q, None))"
proof -
  have b: "er_Buffered ib = int (hlen + length q)" using er_obs(1) [OF assms(2)] assms(4) by (simp add: length_Encode)
  obtain d1 w1 ib1 where d1: "in_Discard w ib (int hlen) = Some (d1, None, w1, ib1)" "w_ok w1" "er_ok ib1"
      "er_contents ib1 = q"
    using Discard_header [OF assms(1,2,4)] by blast
  obtain d2 where d2: "in_Discard w1 ib1 (h_GetBodyLen H h) = Some (d2, None, w1, er_Reset ib1)"
    using in_Discard_whole [OF d1(3) assms(3)] by blast
  have "in_Decode H newHead w ib =
      Some (if q = [] then ([], [], Some ErrShortBuffer, h, w1, ib1) else (h_Encode H h, q, None, h, w1, er_Reset ib1))"
    using Decode_header [OF assms(2,4)] b d1(1,4) d2 in_Peek_whole [OF d1(3) assms(3)] assms(3)
    by (simp add: in_Decode_def Let_def GetLen Decode_Encode)
  then show ?thesis using d1 er_Reset_spec [OF d1(3)] by (cases "q = []") auto
qed

lemma decode_loop_spec:
  assumes "w_ok w" and "er_ok ib" and "list_all (frame_ok H) fs" and "er_contents ib @ later = frames_bytes H fs"
  shows "\<exists>ds rest w' ib'. fs = ds @ rest \<and>
    decode_loop H newHead w ib out = Some (out @ map (frame_message H) ds, w', ib') \<and> w_ok w' \<and> er_ok ib' \<and>
    er_contents ib' @ later = frames_bytes H rest \<and> starved H rest (er_contents ib')"
  using assms
proof (induction fs arbitrary: w ib out)
  case Nil
  then have "er_contents ib = []" by simp
  then have "decode_loop H newHead w ib out = Some (out, w, ib)"
    using Decode_empty [OF Nil(2)] by (subst decode_loop.simps) simp
  then show ?case using Nil by (intro exI [of _ "[]"]) (simp add: starved_def)
next
  case (Cons f fs)
  show ?case
  proof (cases "length (er_contents ib) < length (frame_bytes H f)")
    case True
    obtain h where "in_Decode H newHead w ib = Some ([], [], Some ErrShortBuffer, h, w, ib)"
      using Decode_short [OF Cons.prems(2) _ _ True] Cons.prems(3,4) by fastforce
    then have "decode_loop H newHead w ib out = Some (out, w, ib)" by (subst decode_loop.simps) simp
    then show ?thesis using Cons.prems True
      by (intro exI [of _ "[]"] exI [of _ "f # fs"] exI [of _ w] exI [of _ ib]) (simp add: starved_def)
  next
    case False
    define q where "q = drop (length (frame_bytes H f)) (er_contents ib)"
    have "take (length (frame_bytes H f)) (er_contents ib @ later) = frame_bytes H f" using Cons.prems(4) by simp
    then have c: "er_contents ib = frame_bytes H f @ q" using False unfolding q_def
      by (metis append_take_drop_id linorder_not_less take_append take_all_iff diff_is_0_eq take_0 append_Nil2)
    then have qm: "q @ later = frames_bytes H fs" using Cons.prems(4) by simp
    obtain w1 ib1 where d: "in_Decode H newHead w ib = Some (h_Encode H (fst f), snd f, None, fst f, w1, ib1)"
        "w_ok w1" "er_ok ib1" "er_contents ib1 = q"
      using Decode_frame [OF Cons.prems(1,2) _ c] Cons.prems(3) by auto
    obtain ms rest w2 ib2 where r: "fs = ms @ rest"
        "decode_loop H newHead w1 ib1 (out @ [frame_message H f]) = Some ((out @ [frame_message H f]) @ map (frame_message H) ms, w2, ib2)"
        "w_ok w2" "er_ok ib2" "er_contents ib2 @ later = frames_bytes H rest" "starved H rest (er_contents ib2)"
      using Cons.IH [OF d(2,3), of "out @ [frame_message H f]"] Cons.prems(3) qm d(4) by auto
    have "decode_loop H newHead w ib out = decode_loop H newHead w1 ib1 (out @ [frame_message H f])"
      using d(1) by (subst decode_loop.simps) (simp add: frame_message_def)
    then show ?thesis using r
      by (intro exI [of _ "f # ms"] exI [of _ rest] exI [of _ w2] exI [of _ ib2]) (simp add: frame_message_def)
  qed
qed

text \<open>
  The client's loop on a stream that arrives in chunks and ends anywhere: \<open>lost\<close> is what has
  not arrived, \<open>left\<close> the part of a frame that has.
\<close>

lemma cli_process_prefix:
  assumes "w_ok w" and "er_ok (cl_in cli)" and "list_all (frame_ok H) fs"
    and "er_contents (cl_in cli) @ script_data s @ lost = frames_bytes H fs" and "starved H fs (er_contents (cl_in cli))"
    and "script_clean s" and "buf \<noteq> []" and "length (frames_bytes H fs) \<le> rb_limit"
  shows "\<exists>ds rest left w' cli' s'. fs = ds @ rest \<and> left @ lost = frames_bytes H rest \<and> starved H rest left \<and>
    cli_process script_read (Some (H, newHead)) w cli buf s calls =
      Some (calls @ map (traffic H) ds @ [OnClose, ConnClose, ConnClose], w', cli', s')"
  using assms
proof (induction "script_size s" arbitrary: s w cli fs buf calls rule: less_induct)
  case less
  obtain d e s' where r: "script_read s buf = Some (int (length d), e, d @ drop (length d) buf, s')" "length d \<le> length buf"
      "case e of None \<Rightarrow> script_data s = d @ script_data s' \<and> script_err s' = script_err s
       | Some x \<Rightarrow> script_data s = d \<and> script_err s = x" "e = None \<Longrightarrow> script_size s' < script_size s"
    using script_read_spec [of s buf] less.prems(7) by blast
  have cl: "script_clean s'" "e \<noteq> None \<Longrightarrow> d = []" using script_read_clean [OF less.prems(6) r(1)] by auto
  show ?case
  proof (cases e)
    case (Some x)
    then have "script_data s = []" using r(3) cl(2) by simp
    moreover have "\<exists>w' cli' s'. cli_process script_read (Some (H, newHead)) w cli buf s calls =
        Some (calls @ [OnClose, ConnClose, ConnClose], w', cli', s')"
      using r(1) Some by (subst cli_process.simps) (simp add: split_def Let_def)
    ultimately show ?thesis using less.prems(4,5) 
      by (intro exI [of _ "[]"] exI [of _ fs] exI [of _ "er_contents (cl_in cli)"]) auto
  next
    case None
    let ?q = "er_contents (cl_in cli)"
    have sd: "script_data s = d @ script_data s'" using r(3) None by simp
    have lim: "length ?q + length d \<le> rb_limit"
      using less.prems(8) unfolding less.prems(4) [symmetric] sd by simp
    obtain w1 ib1 where e1: "er_Write w (cl_in cli) d = Some (int (length d), None, w1, ib1)" "w_ok w1" "er_ok ib1"
        "er_contents ib1 = ?q @ d"
      using er_Write_spec [OF less.prems(1,2) lim] by blast
    obtain ds rest w2 ib2 where l: "fs = ds @ rest"
        "decode_loop H newHead w1 ib1 [] = Some (map (frame_message H) ds, w2, ib2)" "w_ok w2" "er_ok ib2"
        "er_contents ib2 @ script_data s' @ lost = frames_bytes H rest" "starved H rest (er_contents ib2)"
      using decode_loop_spec [OF e1(2,3) less.prems(3), of "script_data s' @ lost" "[]"] e1(4) less.prems(4) sd by auto
    have "d = [] \<Longrightarrow> w1 = w \<and> ib1 = cl_in cli" using e1(1) by (simp add: er_Write_def)
    then have "cli_process script_read (Some (H, newHead)) w cli buf s calls =
        cli_process script_read (Some (H, newHead)) w2 (cli\<lparr>cl_in := ib2\<rparr>) (d @ drop (length d) buf) s'
          (calls @ map (traffic H) ds)"
      using r(1) None e1(1) l(2)
      by (subst cli_process.simps) (cases "d = []"; simp add: lview_def traffic_message [symmetric] del: map_map)
    moreover have "d @ drop (length d) buf \<noteq> []" using less.prems(7) r(2) by (cases d) auto
    moreover have "list_all (frame_ok H) rest" "length (frames_bytes H rest) \<le> rb_limit"
      using less.prems(3,8) l(1) by simp_all
    ultimately obtain ds' rest' left w3 cli3 s3 where i: "rest = ds' @ rest'" "left @ lost = frames_bytes H rest'"
        "starved H rest' left" "cli_process script_read (Some (H, newHead)) w cli buf s calls =
          Some ((calls @ map (traffic H) ds) @ map (traffic H) ds' @ [OnClose, ConnClose, ConnClose], w3, cli3, s3)"
      using less.hyps [OF r(4) [OF None] l(3), of "cli\<lparr>cl_in := ib2\<rparr>" rest "d @ drop (length d) buf"
          "calls @ map (traffic H) ds"] l cl(1) by auto
    then show ?thesis using l(1)
      by (intro exI [of _ "ds @ ds'"] exI [of _ rest'] exI [of _ left] exI [of _ w3] exI [of _ cli3] exI [of _ s3]) simp
  qed
qed

end

section \<open>The default header\<close>

lemma dh_Encode_length: "length (dh_Encode h) = 8"
  by (simp add: dh_Encode_def)

lemma word32_nat: "(word_of_nat (unat (w :: 32 word) mod 4294967296) :: 32 word) = w"
proof -
  have "unat w < 2 ^ 32" using unsigned_less [of w] by simp
  then show ?thesis by simp
qed

lemma dh_Decode_Encode: "dh_Decode h0 (dh_Encode h) = h"
proof -
  have "take 4 (dh_Encode h) = le_put 4 (unat (dh_bodyLen h))" "drop 4 (dh_Encode h) = le_put 4 (unat (dh_msgId h))"
    by (simp_all add: dh_Encode_def)
  then show ?thesis by (cases h; cases h0) (simp add: dh_Decode_def dh_Encode_length Let_def le_get_put word32_nat)
qed

lemma le_put_get:
  assumes "length d = 4"
  shows "le_put 4 (unat (word_of_nat (le_get d) :: 32 word)) = d"
proof -
  have "le_get d < 256 ^ 4" using be_get_bound [of "rev d"] assms by (simp add: le_get_def)
  then have "unat (word_of_nat (le_get d) :: 32 word) = le_get d" by (simp add: unat_of_nat take_bit_eq_mod)
  then show ?thesis using be_put_get [of "rev d"] assms by (simp add: le_put_def le_get_def)
qed

interpretation dh: header_codec default_header dd_NewHead 8
  by unfold_locales
    (simp_all add: default_header_def dh_GetLen_def maxHeaderLen_def dh_Encode_length dh_Decode_Encode)

text \<open>
  The default header on the wire. Decoding what \<open>Encode\<close> produced gives the same header
  whatever the header object held before, an encoding is \<open>GetLen\<close> bytes long, and encoding
  what was decoded from 8 bytes gives these bytes back.
\<close>

theorem default_header_roundtrip:
  "dh_Decode h0 (dh_Encode h) = h \<and> int (length (dh_Encode h)) = dh_GetLen h0 \<and>
    (length d = 8 \<longrightarrow> dh_Encode (dh_Decode h0 d) = d)"
proof -
  have "dh_Encode (dh_Decode h0 d) = d" if "length d = 8"
    using le_put_get [of "take 4 d"] le_put_get [of "take 4 (drop 4 d)"] that
    by (simp add: dh_Encode_def dh_Decode_def Let_def)
  then show ?thesis by (simp add: dh_Decode_Encode dh_Encode_length dh_GetLen_def maxHeaderLen_def)
qed

theorem default_header_roundtrip_witness:
  "dh_Encode (dh_Decode dd_NewHead [1, 0, 0, 0, 255, 255, 255, 255]) = [1, 0, 0, 0, 255, 255, 255, 255]"
  using default_header_roundtrip [where d = "[1, 0, 0, 0, 255, 255, 255, 255]" and ?h0.0 = dd_NewHead] by simp

lemma dh_client_prefix:
  assumes "w_ok w" and "list_all (frame_ok default_header) fs" and "script_data s @ lost = frames_bytes default_header fs"
    and "script_clean s" and "length (frames_bytes default_header fs) \<le> rb_limit"
  shows "\<exists>ds rest left r. fs = ds @ rest \<and> left @ lost = frames_bytes default_header rest \<and> starved default_header rest left \<and>
    cli_process script_read (Some (default_header, dd_NewHead)) w \<lparr>cl_in = \<lparr>er_rb = None\<rparr>\<rparr> (replicate 1024 0) s calls =
    Some (calls @ map (traffic default_header) ds @ [OnClose, ConnClose, ConnClose], r)"
proof -
  have "0 < length (frame_bytes default_header f)" for f
    using dh.length_Encode by (simp add: frame_bytes_def)
  then have "starved default_header fs []" by (cases fs) (simp_all add: starved_def)
  then have "\<exists>ds rest left w' cli' s'. fs = ds @ rest \<and> left @ lost = frames_bytes default_header rest \<and>
      starved default_header rest left \<and>
      cli_process script_read (Some (default_header, dd_NewHead)) w \<lparr>cl_in = \<lparr>er_rb = None\<rparr>\<rparr> (replicate 1024 0) s calls =
        Some (calls @ map (traffic default_header) ds @ [OnClose, ConnClose, ConnClose], w', cli', s')"
    using assms by (intro dh.cli_process_prefix) (simp_all add: er_ok_def er_contents_def)
  then show ?thesis by blast
qed

lemma dh_client_process:
  assumes "w_ok w" and "list_all (frame_ok default_header) fs" and "script_data s = frames_bytes default_header fs"
    and "script_clean s" and "length (script_data s) \<le> rb_limit"
  shows "\<exists>r. cli_process script_read (Some (default_header, dd_NewHead)) w \<lparr>cl_in = \<lparr>er_rb = None\<rparr>\<rparr>
      (replicate 1024 0) s [] =
    Some (map (traffic default_header) fs @ [OnClose, ConnClose, ConnClose], r)"
proof -
  obtain ds rest left r where r: "fs = ds @ rest" "left = frames_bytes default_header rest" "starved default_header rest left"
      "cli_process script_read (Some (default_header, dd_NewHead)) w \<lparr>cl_in = \<lparr>er_rb = None\<rparr>\<rparr> (replicate 1024 0) s [] =
        Some (map (traffic default_header) ds @ [OnClose, ConnClose, ConnClose], r)"
    using dh_client_prefix [OF assms(1,2), of s "[]" "[]"] assms(3-5) by auto
  then have "rest = []" using starved_complete by blast
  with r show ?thesis by (intro exI [of _ r]) simp
qed

text \<open>
  C7: the client delivers the messages. For every sequence of frames with announced, non-empty
  bodies, and every way the stream is cut into reads (inside headers and bodies, several frames
  in one read, any error at the end), \<open>process\<close> returns, and it has called \<open>OnTraffic\<close>
  once for every frame, in order, with its header and its body, and then closed.
\<close>

theorem client_delivers_every_frame:
  assumes "w_ok w" and "list_all (frame_ok default_header) fs" and "script_data s = frames_bytes default_header fs"
    and "script_clean s" and "length (script_data s) \<le> rb_limit"
  shows "\<exists>w' cli' s'. cli_process script_read (Some (default_header, dd_NewHead)) w \<lparr>cl_in = \<lparr>er_rb = None\<rparr>\<rparr>
      (replicate 1024 0) s [] =
    Some (map (traffic default_header) fs @ [OnClose, ConnClose, ConnClose], w', cli', s')"
  using dh_client_process [OF assms] by auto

text \<open>The witness: two frames, the second cut inside its header and its body.\<close>

theorem client_delivers_every_frame_witness:
  "\<exists>w' cli' s'. cli_process script_read (Some (default_header, dd_NewHead)) empty_world \<lparr>cl_in = \<lparr>er_rb = None\<rparr>\<rparr>
      (replicate 1024 0)
      [([1, 0, 0, 0, 9, 0, 0, 0, 65, 2, 0, 0], None), ([0, 7, 0, 0, 0, 66], None), ([67], None), ([], Some EOF)] [] =
    Some (map (traffic default_header)
        [(\<lparr>dh_bodyLen = 1, dh_msgId = 9\<rparr>, [65]), (\<lparr>dh_bodyLen = 2, dh_msgId = 7\<rparr>, [66, 67])] @
      [OnClose, ConnClose, ConnClose], w', cli', s')"
  by (rule client_delivers_every_frame)
    (simp_all add: frame_ok_def default_header_def dh_GetBodyLen_def frames_bytes_def frame_bytes_def dh_Encode_def
      le_put_4 script_clean_def rb_limit_def)

text \<open>
  C30: a frame without a body. When a header announces a length of 0 or less, the calls
  \<open>Peek(0)\<close> and \<open>Discard(0)\<close> mean the whole buffer: if nothing follows, the header is used
  up and \<open>Decode\<close> reports a short buffer, so the message is never delivered; if anything
  follows, all of it, whatever frames it holds, is delivered as the body of this message.
\<close>

theorem decode_without_body_takes_all:
  assumes "w_ok w" and "er_ok (c_in c)" and "sint (dh_bodyLen h) \<le> 0" and "er_contents (c_in c) = dh_Encode h @ q"
  shows "\<exists>hd bd e w' c'. dd_Decode default_header dd_NewHead w c = Some (hd, bd, e, h, w', c') \<and>
    er_contents (c_in c') = [] \<and>
    (hd, bd, e) = (if q = [] then ([], [], Some ErrShortBuffer) else (dh_Encode h, q, None))"
proof -
  have "h_GetBodyLen default_header h \<le> 0" "er_contents (c_in c) = h_Encode default_header h @ q"
    using assms(3,4) by (simp_all add: default_header_def dh_GetBodyLen_def)
  from dh.Decode_no_body [OF assms(1,2) this] obtain hd bd e w' ib' where
    "in_Decode default_header dd_NewHead w (c_in c) = Some (hd, bd, e, h, w', ib')" "er_contents ib' = []"
    "(hd, bd, e) = (if q = [] then ([], [], Some ErrShortBuffer) else (h_Encode default_header h, q, None))"
    by blast
  moreover have "h_Encode default_header h = dh_Encode h" by (simp add: default_header_def)
  ultimately show ?thesis by (cases "q = []") (auto simp: dd_Decode_def)
qed

text \<open>The witness: an empty frame followed by a complete one, which becomes its body.\<close>

definition conn7_holds :: "byte list \<Rightarrow> conn" where
  "conn7_holds p = conn7\<lparr>c_in := \<lparr>er_rb = Some \<lparr>rb_bs = [[], []], rb_buf = \<lparr>sdata = p @ [0], sspare = []\<rparr>,
     rb_size = int (length p) + 1, rb_r = 0, rb_w = int (length p), rb_isEmpty = False\<rparr>\<rparr>\<rparr>"

lemma conn7_holds_spec:
  assumes "0 < length p" and "length p < 1000"
  shows "er_ok (c_in (conn7_holds p)) \<and> er_contents (c_in (conn7_holds p)) = p"
  using assms by (auto simp: conn7_holds_def er_ok_def er_contents_def rb_ok_def rb_contents_def slen_def)

theorem decode_without_body_takes_all_witness:
  "\<exists>hd bd e w' c'. dd_Decode default_header dd_NewHead empty_world
      (conn7_holds ([0, 0, 0, 0, 5, 0, 0, 0] @ [1, 0, 0, 0, 6, 0, 0, 0, 65])) =
      Some (hd, bd, e, \<lparr>dh_bodyLen = 0, dh_msgId = 5\<rparr>, w', c') \<and> er_contents (c_in c') = [] \<and>
    (hd, bd, e) = (dh_Encode \<lparr>dh_bodyLen = 0, dh_msgId = 5\<rparr>, [1, 0, 0, 0, 6, 0, 0, 0, 65], None)"
proof -
  let ?h = "\<lparr>dh_bodyLen = 0, dh_msgId = 5\<rparr>" and ?q = "[1, 0, 0, 0, 6, 0, 0, 0, 65] :: byte list"
  have e: "[0, 0, 0, 0, 5, 0, 0, 0] @ ?q = dh_Encode ?h @ ?q"
    by (simp add: dh_Encode_def le_put_4)
  have "er_ok (c_in (conn7_holds (dh_Encode ?h @ ?q)))" "er_contents (c_in (conn7_holds (dh_Encode ?h @ ?q))) = dh_Encode ?h @ ?q"
    using conn7_holds_spec [of "dh_Encode ?h @ ?q"] by (simp_all add: dh_Encode_length)
  then show ?thesis unfolding e
    using decode_without_body_takes_all [of empty_world "conn7_holds (dh_Encode ?h @ ?q)" ?h ?q] by simp
qed

end
