(* ===== verification/Sockets.thy ===== *)
theory Sockets
  imports SockAddr
begin

text \<open>
  \<open>internal/socket\<close>: socket options and the creation of TCP, UDP and Unix sockets. The
  system calls are the functions of a record on a kernel state; the resolver of package
  \<open>net\<close> and the interface table are functions too.
\<close>

section \<open>System calls\<close>

datatype sock_level = SOL_SOCKET | IPPROTO_TCP | IPPROTO_IP | IPPROTO_IPV6

datatype sock_name =
    SO_RCVBUF | SO_SNDBUF | SO_REUSEPORT | SO_REUSEADDR | SO_BROADCAST | SO_LINGER | SO_KEEPALIVE
  | TCP_NODELAY | TCP_KEEPINTVL | TCP_KEEPIDLE | TCP_KEEPALIVE | IPV6_V6ONLY
  | IP_MULTICAST_IF | IP_MULTICAST_LOOP | IP_ADD_MEMBERSHIP
  | IPV6_MULTICAST_IF | IPV6_MULTICAST_LOOP | IPV6_JOIN_GROUP

datatype opt_value =
    OptInt int | OptByte int | OptLinger int int | OptInet4Addr "byte list"
  | OptIPMreq "byte list" "byte list" | OptIPv6Mreq "byte list" "32 word"

datatype sock_type = SOCK_STREAM | SOCK_DGRAM

record 'k sock_sys =
  ss_socket :: "'k \<Rightarrow> int \<Rightarrow> sock_type \<Rightarrow> int \<times> goerror option \<times> 'k"
  ss_close :: "'k \<Rightarrow> int \<Rightarrow> goerror option \<times> 'k"
  ss_bind :: "'k \<Rightarrow> int \<Rightarrow> sockaddr option \<Rightarrow> goerror option \<times> 'k"
  ss_listen :: "'k \<Rightarrow> int \<Rightarrow> int \<Rightarrow> goerror option \<times> 'k"
  ss_connect :: "'k \<Rightarrow> int \<Rightarrow> sockaddr option \<Rightarrow> goerror option \<times> 'k"
  ss_setopt :: "'k \<Rightarrow> int \<Rightarrow> sock_level \<Rightarrow> sock_name \<Rightarrow> opt_value \<Rightarrow> goerror option \<times> 'k"

definition wrap_err :: "string \<Rightarrow> goerror option \<times> 'k \<Rightarrow> goerror option \<times> 'k" where
  "wrap_err name r = (NewSyscallError name (fst r), snd r)"

section \<open>Options\<close>

type_synonym 'k set_opt = "'k \<Rightarrow> int \<Rightarrow> int \<Rightarrow> goerror option \<times> 'k"

record 'k sock_option =
  SetSockOpt :: "'k set_opt"
  Opt :: int

definition SetNoDelay :: "'k sock_sys \<Rightarrow> 'k set_opt" where
  "SetNoDelay sys k fd noDelay = wrap_err ''setsockopt'' (ss_setopt sys k fd IPPROTO_TCP TCP_NODELAY (OptInt noDelay))"

definition SetRecvBuffer :: "'k sock_sys \<Rightarrow> 'k set_opt" where
  "SetRecvBuffer sys k fd bytes = ss_setopt sys k fd SOL_SOCKET SO_RCVBUF (OptInt bytes)"

definition SetSendBuffer :: "'k sock_sys \<Rightarrow> 'k set_opt" where
  "SetSendBuffer sys k fd bytes = ss_setopt sys k fd SOL_SOCKET SO_SNDBUF (OptInt bytes)"

definition SetReuseport :: "'k sock_sys \<Rightarrow> 'k set_opt" where
  "SetReuseport sys k fd reusePort = wrap_err ''setsockopt'' (ss_setopt sys k fd SOL_SOCKET SO_REUSEPORT (OptInt reusePort))"

definition SetReuseAddr :: "'k sock_sys \<Rightarrow> 'k set_opt" where
  "SetReuseAddr sys k fd reuseAddr = wrap_err ''setsockopt'' (ss_setopt sys k fd SOL_SOCKET SO_REUSEADDR (OptInt reuseAddr))"

definition SetIPv6Only :: "'k sock_sys \<Rightarrow> 'k set_opt" where
  "SetIPv6Only sys k fd ipv6only = ss_setopt sys k fd IPPROTO_IPV6 IPV6_V6ONLY (OptInt ipv6only)"

definition SetLinger :: "'k sock_sys \<Rightarrow> 'k set_opt" where
  "SetLinger sys k fd sec =
     (let l = (if sec \<ge> 0 then OptLinger 1 (sint (word_of_int sec :: 32 word)) else OptLinger 0 0)
      in ss_setopt sys k fd SOL_SOCKET SO_LINGER l)"

definition SetKeepAlivePeriod :: "'k sock_sys \<Rightarrow> 'k set_opt" where
  "SetKeepAlivePeriod sys k fd secs =
     (if secs \<le> 0 then (Some (OtherError ''invalid time duration''), k)
      else
        case wrap_err ''setsockopt'' (ss_setopt sys k fd SOL_SOCKET SO_KEEPALIVE (OptInt 1)) of
          (Some e, k) \<Rightarrow> (Some e, k)
        | (None, k) \<Rightarrow>
            (case wrap_err ''setsockopt'' (ss_setopt sys k fd IPPROTO_TCP TCP_KEEPINTVL (OptInt secs)) of
               (Some e, k) \<Rightarrow> (Some e, k)
             | (None, k) \<Rightarrow> wrap_err ''setsockopt'' (ss_setopt sys k fd IPPROTO_TCP TCP_KEEPIDLE (OptInt secs))))"

section \<open>Protocols\<close>

text \<open>An IP address, a port and a zone: the fields of \<open>net.TCPAddr\<close> and \<open>net.UDPAddr\<close>.\<close>

type_synonym ip_addr = "byte list \<times> int \<times> string"

definition determineTCPProto :: "string \<Rightarrow> ip_addr \<Rightarrow> goerror + string" where
  "determineTCPProto proto addr =
     (if To4 (fst addr) \<noteq> None then Inr ''tcp4''
      else if To16 (fst addr) \<noteq> None then Inr ''tcp6''
      else if proto \<in> {''tcp'', ''tcp4'', ''tcp6''} then Inr proto
      else Inl ErrUnsupportedTCPProtocol)"

definition determineUDPProto :: "string \<Rightarrow> ip_addr \<Rightarrow> goerror + string" where
  "determineUDPProto proto addr =
     (if To4 (fst addr) \<noteq> None then Inr ''udp4''
      else if To16 (fst addr) \<noteq> None then Inr ''udp6''
      else if proto \<in> {''udp'', ''udp4'', ''udp6''} then Inr proto
      else Inl ErrUnsupportedUDPProtocol)"

text \<open>What the resolver answers, and the lookup of an interface by name.\<close>

type_synonym resolver = "string \<Rightarrow> string \<Rightarrow> goerror + ip_addr"

text \<open>Socket address, family, address, whether IPv6 only, and the error: all of them, as in the code.\<close>

type_synonym sock_addr_result = "sockaddr option \<times> int \<times> net_addr option \<times> bool \<times> goerror option"

definition GetTCPSockAddr ::
  "(string \<Rightarrow> nat option) \<Rightarrow> resolver \<Rightarrow> string \<Rightarrow> string \<Rightarrow> sock_addr_result" where
  "GetTCPSockAddr ifByName resolve proto addr =
     (case resolve proto addr of
        Inl e \<Rightarrow> (None, 0, None, False, Some e)
      | Inr (ip, port, zone) \<Rightarrow>
          let a = Some (TCPAddr ip port zone) in
          (case determineTCPProto proto (ip, port, zone) of
             Inl e \<Rightarrow> (None, 0, a, False, Some e)
           | Inr v \<Rightarrow>
               if v = ''tcp4'' then
                 (case ipToSockaddr ifByName AF_INET ip port [] of
                    Inl e \<Rightarrow> (None, AF_INET, a, False, Some e) | Inr sa \<Rightarrow> (Some sa, AF_INET, a, False, None))
               else if v = ''tcp6'' then
                 (case ipToSockaddr ifByName AF_INET6 ip port zone of
                    Inl e \<Rightarrow> (None, AF_INET6, a, True, Some e) | Inr sa \<Rightarrow> (Some sa, AF_INET6, a, True, None))
               else if v = ''tcp'' then
                 (case ipToSockaddr ifByName AF_INET6 ip port zone of
                    Inl e \<Rightarrow> (None, AF_INET6, a, False, Some e) | Inr sa \<Rightarrow> (Some sa, AF_INET6, a, False, None))
               else (None, 0, a, False, Some ErrUnsupportedProtocol)))"

definition GetUDPSockAddr ::
  "(string \<Rightarrow> nat option) \<Rightarrow> resolver \<Rightarrow> string \<Rightarrow> string \<Rightarrow> sock_addr_result" where
  "GetUDPSockAddr ifByName resolve proto addr =
     (case resolve proto addr of
        Inl e \<Rightarrow> (None, 0, None, False, Some e)
      | Inr (ip, port, zone) \<Rightarrow>
          let a = Some (UDPAddr ip port zone) in
          (case determineUDPProto proto (ip, port, zone) of
             Inl e \<Rightarrow> (None, 0, a, False, Some e)
           | Inr v \<Rightarrow>
               if v = ''udp4'' then
                 (case ipToSockaddr ifByName AF_INET ip port [] of
                    Inl e \<Rightarrow> (None, AF_INET, a, False, Some e) | Inr sa \<Rightarrow> (Some sa, AF_INET, a, False, None))
               else if v = ''udp6'' then
                 (case ipToSockaddr ifByName AF_INET6 ip port zone of
                    Inl e \<Rightarrow> (None, AF_INET6, a, True, Some e) | Inr sa \<Rightarrow> (Some sa, AF_INET6, a, True, None))
               else if v = ''udp'' then
                 (case ipToSockaddr ifByName AF_INET6 ip port zone of
                    Inl e \<Rightarrow> (None, AF_INET6, a, False, Some e) | Inr sa \<Rightarrow> (Some sa, AF_INET6, a, False, None))
               else (None, 0, a, False, Some ErrUnsupportedProtocol)))"

text \<open>The Unix resolver answers a name and a network.\<close>

definition GetUnixSockAddr ::
  "(string \<Rightarrow> string \<Rightarrow> goerror + (string \<times> string)) \<Rightarrow> string \<Rightarrow> string \<Rightarrow>
   sockaddr option \<times> int \<times> net_addr option \<times> goerror option" where
  "GetUnixSockAddr resolve proto addr =
     (case resolve proto addr of
        Inl e \<Rightarrow> (None, 0, None, Some e)
      | Inr (name, net) \<Rightarrow>
          if net = ''unix'' then (Some (SockaddrUnix name), AF_UNIX, Some (UnixAddr name net), None)
          else (None, 0, Some (UnixAddr name net), Some ErrUnsupportedUDSProtocol))"

section \<open>Sockets\<close>

text \<open>The loop over the socket options stops at the first error.\<close>

fun apply_opts :: "'k sock_option list \<Rightarrow> 'k \<Rightarrow> int \<Rightarrow> goerror option \<times> 'k" where
  "apply_opts [] k fd = (None, k)"
| "apply_opts (o1 # os) k fd =
     (case SetSockOpt o1 k fd (Opt o1) of (Some e, k) \<Rightarrow> (Some e, k) | (None, k) \<Rightarrow> apply_opts os k fd)"

text \<open>The deferred function: an error other than \<open>EINPROGRESS\<close> closes the descriptor.\<close>

definition close_on_error :: "'k sock_sys \<Rightarrow> int \<Rightarrow> goerror option \<times> 'k \<Rightarrow> goerror option \<times> 'k" where
  "close_on_error sys fd r =
     (case r of
        (None, k) \<Rightarrow> (None, k)
      | (Some e, k) \<Rightarrow>
          if (case e of SyscallError _ x \<Rightarrow> x = EINPROGRESS | _ \<Rightarrow> False) then (Some e, k)
          else (Some e, snd (ss_close sys k fd)))"

text \<open>Bind and listen on the passive side, connect on the active one.\<close>

definition bind_listen :: "'k sock_sys \<Rightarrow> int \<Rightarrow> 'k \<Rightarrow> int \<Rightarrow> sockaddr option \<Rightarrow> goerror option \<times> 'k" where
  "bind_listen sys backlog k fd sa =
     (case wrap_err ''bind'' (ss_bind sys k fd sa) of
        (Some e, k) \<Rightarrow> (Some e, k)
      | (None, k) \<Rightarrow> wrap_err ''listen'' (ss_listen sys k fd backlog))"

definition tcpSocket ::
  "'k sock_sys \<Rightarrow> (string \<Rightarrow> nat option) \<Rightarrow> resolver \<Rightarrow> int \<Rightarrow> string \<Rightarrow> string \<Rightarrow> bool \<Rightarrow> 'k sock_option list \<Rightarrow> 'k \<Rightarrow>
   (int \<times> net_addr option \<times> goerror option) \<times> 'k" where
  "tcpSocket sys ifByName resolve backlog proto addr passive sockOpts k =
     (case GetTCPSockAddr ifByName resolve proto addr of
        (sa, family, netAddr, ipv6only, Some e) \<Rightarrow> ((0, netAddr, Some e), k)
      | (sa, family, netAddr, ipv6only, None) \<Rightarrow>
          (case ss_socket sys k family SOCK_STREAM of
             (fd, Some e, k) \<Rightarrow> ((fd, netAddr, Some (SyscallError ''socket'' e)), k)
           | (fd, None, k) \<Rightarrow>
               (case close_on_error sys fd
                   (case (if family = AF_INET6 \<and> ipv6only then SetIPv6Only sys k fd 1 else (None, k)) of
                      (Some e, k) \<Rightarrow> (Some e, k)
                    | (None, k) \<Rightarrow>
                        (case apply_opts sockOpts k fd of
                           (Some e, k) \<Rightarrow> (Some e, k)
                         | (None, k) \<Rightarrow>
                             if passive then bind_listen sys backlog k fd sa
                             else wrap_err ''connect'' (ss_connect sys k fd sa))) of
                  (err, k) \<Rightarrow> ((fd, netAddr, err), k))))"

definition udpSocket ::
  "'k sock_sys \<Rightarrow> (string \<Rightarrow> nat option) \<Rightarrow> resolver \<Rightarrow> string \<Rightarrow> string \<Rightarrow> bool \<Rightarrow> 'k sock_option list \<Rightarrow> 'k \<Rightarrow>
   (int \<times> net_addr option \<times> goerror option) \<times> 'k" where
  "udpSocket sys ifByName resolve proto addr connect sockOpts k =
     (case GetUDPSockAddr ifByName resolve proto addr of
        (sa, family, netAddr, ipv6only, Some e) \<Rightarrow> ((0, netAddr, Some e), k)
      | (sa, family, netAddr, ipv6only, None) \<Rightarrow>
          (case ss_socket sys k family SOCK_DGRAM of
             (fd, Some e, k) \<Rightarrow> ((fd, netAddr, Some (SyscallError ''socket'' e)), k)
           | (fd, None, k) \<Rightarrow>
               (case close_on_error sys fd
                   (case (if family = AF_INET6 \<and> ipv6only then SetIPv6Only sys k fd 1 else (None, k)) of
                      (Some e, k) \<Rightarrow> (Some e, k)
                    | (None, k) \<Rightarrow>
                        (case wrap_err ''setsockopt'' (ss_setopt sys k fd SOL_SOCKET SO_BROADCAST (OptInt 1)) of
                           (Some e, k) \<Rightarrow> (Some e, k)
                         | (None, k) \<Rightarrow>
                             (case apply_opts sockOpts k fd of
                                (Some e, k) \<Rightarrow> (Some e, k)
                              | (None, k) \<Rightarrow>
                                  if connect then wrap_err ''connect'' (ss_connect sys k fd sa)
                                  else wrap_err ''bind'' (ss_bind sys k fd sa)))) of
                  (err, k) \<Rightarrow> ((fd, netAddr, err), k))))"

definition udsSocket ::
  "'k sock_sys \<Rightarrow> (string \<Rightarrow> string \<Rightarrow> goerror + (string \<times> string)) \<Rightarrow> int \<Rightarrow> string \<Rightarrow> string \<Rightarrow> bool \<Rightarrow> 'k sock_option list \<Rightarrow>
   'k \<Rightarrow> (int \<times> net_addr option \<times> goerror option) \<times> 'k" where
  "udsSocket sys resolve backlog proto addr passive sockOpts k =
     (case GetUnixSockAddr resolve proto addr of
        (sa, family, netAddr, Some e) \<Rightarrow> ((0, netAddr, Some e), k)
      | (sa, family, netAddr, None) \<Rightarrow>
          (case ss_socket sys k family SOCK_STREAM of
             (fd, Some e, k) \<Rightarrow> ((fd, netAddr, Some (SyscallError ''socket'' e)), k)
           | (fd, None, k) \<Rightarrow>
               (case close_on_error sys fd
                   (case apply_opts sockOpts k fd of
                      (Some e, k) \<Rightarrow> (Some e, k)
                    | (None, k) \<Rightarrow>
                        if passive then bind_listen sys backlog k fd sa
                        else wrap_err ''connect'' (ss_connect sys k fd sa)) of
                  (err, k) \<Rightarrow> ((fd, netAddr, err), k))))"

section \<open>Multicast\<close>

text \<open>
  The addresses of an interface: an error of the lookup, or for each address the result of
  \<open>ParseCIDR\<close> on it.
\<close>

type_synonym if_table = "int \<Rightarrow> goerror + (goerror + byte list) list"

fun first_ipv4 :: "(goerror + byte list) list \<Rightarrow> goerror + byte list" where
  "first_ipv4 [] = Inl ErrNoIPv4AddressOnInterface"
| "first_ipv4 (Inl e # as) = Inl e"
| "first_ipv4 (Inr ip # as) = (if To4 ip \<noteq> None then Inr ip else first_ipv4 as)"

definition interfaceFirstIPv4Addr :: "if_table \<Rightarrow> int \<Rightarrow> goerror + byte list" where
  "interfaceFirstIPv4Addr tbl ifIndex =
     (if ifIndex = 0 then Inr [0, 0, 0, 0]
      else case tbl ifIndex of Inl e \<Rightarrow> Inl e | Inr addrs \<Rightarrow> first_ipv4 addrs)"

text \<open>\<open>copy(dst[:], ip.To4())\<close> into an array of zeros; a nil slice copies nothing.\<close>

definition ip_array :: "nat \<Rightarrow> byte list option \<Rightarrow> byte list" where
  "ip_array n ip = (case ip of None \<Rightarrow> replicate n 0 | Some x \<Rightarrow> x)"

definition SetIPv4MulticastMembership :: "'k sock_sys \<Rightarrow> if_table \<Rightarrow> byte list \<Rightarrow> 'k set_opt" where
  "SetIPv4MulticastMembership sys tbl mcast k fd ifIndex =
     (case interfaceFirstIPv4Addr tbl ifIndex of
        Inl e \<Rightarrow> (Some e, k)
      | Inr ip \<Rightarrow>
          let mreq = OptIPMreq (ip_array 4 (To4 mcast)) (ip_array 4 (To4 ip)) in
          (case (if ifIndex > 0 then
               wrap_err ''setsockopt'' (ss_setopt sys k fd IPPROTO_IP IP_MULTICAST_IF (OptInet4Addr (ip_array 4 (To4 ip))))
             else (None, k)) of
             (Some e, k) \<Rightarrow> (Some e, k)
           | (None, k) \<Rightarrow>
               (case wrap_err ''setsockopt'' (ss_setopt sys k fd IPPROTO_IP IP_MULTICAST_LOOP (OptByte 0)) of
                  (Some e, k) \<Rightarrow> (Some e, k)
                | (None, k) \<Rightarrow> wrap_err ''setsockopt'' (ss_setopt sys k fd IPPROTO_IP IP_ADD_MEMBERSHIP mreq))))"

definition SetIPv6MulticastMembership :: "'k sock_sys \<Rightarrow> byte list \<Rightarrow> 'k set_opt" where
  "SetIPv6MulticastMembership sys mcast k fd ifIndex =
     (let mreq = OptIPv6Mreq (ip_array 16 (To16 mcast)) (word_of_int ifIndex) in
      case (if ifIndex > 0 then
          wrap_err ''setsockopt'' (ss_setopt sys k fd IPPROTO_IPV6 IPV6_MULTICAST_IF (OptInt ifIndex))
        else (None, k)) of
        (Some e, k) \<Rightarrow> (Some e, k)
      | (None, k) \<Rightarrow>
          (case wrap_err ''setsockopt'' (ss_setopt sys k fd IPPROTO_IPV6 IPV6_MULTICAST_LOOP (OptInt 0)) of
             (Some e, k) \<Rightarrow> (Some e, k)
           | (None, k) \<Rightarrow> wrap_err ''setsockopt'' (ss_setopt sys k fd IPPROTO_IPV6 IPV6_JOIN_GROUP mreq)))"

definition SetMulticastMembership :: "'k sock_sys \<Rightarrow> if_table \<Rightarrow> string \<Rightarrow> ip_addr \<Rightarrow> 'k set_opt option" where
  "SetMulticastMembership sys tbl proto udpAddr =
     (case determineUDPProto proto udpAddr of
        Inl e \<Rightarrow> None
      | Inr v \<Rightarrow>
          if v = ''udp4'' then Some (SetIPv4MulticastMembership sys tbl (fst udpAddr))
          else if v = ''udp6'' then Some (SetIPv6MulticastMembership sys (fst udpAddr))
          else None)"

section \<open>No descriptor leaks\<close>

text \<open>
  What the system calls do to the set of open descriptors: \<open>socket\<close> opens one that was not
  open, \<open>close\<close> closes its argument, and no other call opens or closes anything.
\<close>

definition fd_laws :: "'k sock_sys \<Rightarrow> ('k \<Rightarrow> int set) \<Rightarrow> bool" where
  "fd_laws sys opened \<longleftrightarrow>
     (\<forall>k fam ty fd e k'. ss_socket sys k fam ty = (fd, e, k') \<longrightarrow>
        (if e = None then fd \<notin> opened k \<and> opened k' = insert fd (opened k) else opened k' = opened k)) \<and>
     (\<forall>k fd. opened (snd (ss_close sys k fd)) = opened k - {fd}) \<and>
     (\<forall>k fd sa. opened (snd (ss_bind sys k fd sa)) = opened k) \<and>
     (\<forall>k fd b. opened (snd (ss_listen sys k fd b)) = opened k) \<and>
     (\<forall>k fd sa. opened (snd (ss_connect sys k fd sa)) = opened k) \<and>
     (\<forall>k fd l n v. opened (snd (ss_setopt sys k fd l n v)) = opened k)"

definition opts_laws :: "'k sock_option list \<Rightarrow> ('k \<Rightarrow> int set) \<Rightarrow> bool" where
  "opts_laws os opened \<longleftrightarrow> (\<forall>o1 \<in> set os. \<forall>k fd v. opened (snd (SetSockOpt o1 k fd v)) = opened k)"

text \<open>
  The error on which the deferred function leaves the descriptor to the caller: a connection
  attempt is in progress.
\<close>

definition in_progress :: "goerror \<Rightarrow> bool" where
  "in_progress e \<longleftrightarrow> (case e of SyscallError _ x \<Rightarrow> x = EINPROGRESS | _ \<Rightarrow> False)"

text \<open>
  What a caller may rely on: with a descriptor it is new and open; with an error nothing is
  left open, but for the returned descriptor, new and open, when a connection attempt is in
  progress. Where no connection is attempted an error leaves nothing open at all.
\<close>

definition sock_result_ok :: "('k \<Rightarrow> int set) \<Rightarrow> 'k \<Rightarrow> (int \<times> net_addr option \<times> goerror option) \<times> 'k \<Rightarrow> bool" where
  "sock_result_ok opened k r \<longleftrightarrow>
     (case r of
        ((fd, _, None), k') \<Rightarrow> fd \<notin> opened k \<and> opened k' = insert fd (opened k)
      | ((fd, _, Some e), k') \<Rightarrow>
          opened k' = opened k \<or> in_progress e \<and> fd \<notin> opened k \<and> opened k' = insert fd (opened k))"

definition sock_all_or_nothing :: "('k \<Rightarrow> int set) \<Rightarrow> 'k \<Rightarrow> (int \<times> net_addr option \<times> goerror option) \<times> 'k \<Rightarrow> bool" where
  "sock_all_or_nothing opened k r \<longleftrightarrow>
     (case r of
        ((fd, _, None), k') \<Rightarrow> fd \<notin> opened k \<and> opened k' = insert fd (opened k)
      | ((_, _, Some _), k') \<Rightarrow> opened k' = opened k)"

text \<open>Only \<open>connect\<close> answers \<open>EINPROGRESS\<close>.\<close>

definition calm_err :: "goerror option \<Rightarrow> bool" where
  "calm_err e \<longleftrightarrow> (case e of None \<Rightarrow> True | Some x \<Rightarrow> x \<noteq> EINPROGRESS \<and> \<not> in_progress x)"

definition only_connect_in_progress :: "'k sock_sys \<Rightarrow> bool" where
  "only_connect_in_progress sys \<longleftrightarrow>
     (\<forall>k fd sa. calm_err (fst (ss_bind sys k fd sa))) \<and> (\<forall>k fd b. calm_err (fst (ss_listen sys k fd b))) \<and>
     (\<forall>k fd l n v. calm_err (fst (ss_setopt sys k fd l n v)))"

definition opts_calm :: "'k sock_option list \<Rightarrow> bool" where
  "opts_calm os \<longleftrightarrow> (\<forall>o1 \<in> set os. \<forall>k fd v. calm_err (fst (SetSockOpt o1 k fd v)))"

lemma calm_None [simp]: "calm_err None"
  by (simp add: calm_err_def)

lemma wrap_err_calm [simp]: "calm_err (fst r) \<Longrightarrow> calm_err (fst (wrap_err name r))"
  by (cases "fst r") (simp_all add: wrap_err_def calm_err_def NewSyscallError_def in_progress_def)

lemma body_calm:
  assumes "calm_err (fst r)" and "\<And>k'. calm_err (fst (f k'))"
  shows "calm_err (fst (case r of (Some e, k) \<Rightarrow> (Some e, k) | (None, k) \<Rightarrow> f k))"
  using assms by (cases r; cases "fst r") auto

lemma calm_simps:
  assumes "only_connect_in_progress sys"
  shows "calm_err (fst (ss_bind sys k fd sa))" and "calm_err (fst (ss_listen sys k fd b))" and "calm_err (fst (ss_setopt sys k fd l n v))"
  using assms by (simp_all add: only_connect_in_progress_def)

lemma apply_opts_calm: "opts_calm os \<Longrightarrow> calm_err (fst (apply_opts os k fd))"
proof (induction os arbitrary: k)
  case (Cons o1 os)
  have "calm_err (fst (SetSockOpt o1 k fd (Opt o1)))" "\<And>k'. calm_err (fst (apply_opts os k' fd))"
    using Cons by (simp_all add: opts_calm_def)
  then show ?case by (cases "SetSockOpt o1 k fd (Opt o1)"; cases "fst (SetSockOpt o1 k fd (Opt o1))") auto
qed simp

lemma apply_opts_opened: "opts_laws os opened \<Longrightarrow> opened (snd (apply_opts os k fd)) = opened k"
proof (induction os arbitrary: k)
  case (Cons o1 os)
  obtain e k1 where r: "SetSockOpt o1 k fd (Opt o1) = (e, k1)" by (cases "SetSockOpt o1 k fd (Opt o1)")
  have "opened (snd (SetSockOpt o1 k fd (Opt o1))) = opened k" using Cons.prems by (simp add: opts_laws_def)
  moreover have "opts_laws os opened" using Cons.prems by (simp add: opts_laws_def)
  ultimately show ?case using r Cons.IH [of k1] by (cases e) auto
qed simp

lemma close_on_error_opened:
  assumes "fd_laws sys opened" and "opened (snd r) = insert fd A" and "fd \<notin> A"
  shows "case close_on_error sys fd r of
     (None, k) \<Rightarrow> opened k = insert fd A
   | (Some e, k) \<Rightarrow> if in_progress e then opened k = insert fd A else opened k = A"
proof -
  obtain e k where r: "r = (e, k)" by (cases r)
  have c: "opened (snd (ss_close sys k fd)) = opened k - {fd}" for k using assms(1) by (simp add: fd_laws_def)
  show ?thesis
  proof (cases e)
    case (Some x)
    then show ?thesis using assms r c [of k] by (cases x) (auto simp: close_on_error_def in_progress_def)
  qed (use assms r in \<open>simp add: close_on_error_def\<close>)
qed

text \<open>The common shape of the three socket functions.\<close>

lemma close_on_error_err: "fst (close_on_error sys fd r) = fst r"
  by (cases r; cases "fst r") (auto simp: close_on_error_def)

lemma socket_frame:
  assumes "fd_laws sys opened" and "ss_socket sys k fam ty = (fd, None, k1)" and "opened (snd (body k1)) = opened k1"
  shows "sock_result_ok opened k (case close_on_error sys fd (body k1) of (err, k) \<Rightarrow> ((fd, na, err), k))"
    and "calm_err (fst (body k1)) \<Longrightarrow>
      sock_all_or_nothing opened k (case close_on_error sys fd (body k1) of (err, k) \<Rightarrow> ((fd, na, err), k))"
proof -
  have s: "fd \<notin> opened k" "opened k1 = insert fd (opened k)"
    using assms(1,2) unfolding fd_laws_def by (metis (mono_tags, lifting))+
  note c = close_on_error_opened [OF assms(1), of "body k1" fd "opened k"] s assms(3)
  show "sock_result_ok opened k (case close_on_error sys fd (body k1) of (err, k) \<Rightarrow> ((fd, na, err), k))"
    using c by (cases "close_on_error sys fd (body k1)") (auto simp: sock_result_ok_def split: option.splits if_splits)
  show "sock_all_or_nothing opened k (case close_on_error sys fd (body k1) of (err, k) \<Rightarrow> ((fd, na, err), k))"
    if "calm_err (fst (body k1))"
    using c that close_on_error_err [of sys fd "body k1"]
    by (cases "close_on_error sys fd (body k1)") (auto simp: sock_all_or_nothing_def calm_err_def split: option.splits if_splits)
qed

lemma opened_simps:
  assumes "fd_laws sys opened"
  shows "opened (snd (ss_bind sys k fd sa)) = opened k" and "opened (snd (ss_listen sys k fd b)) = opened k"
    and "opened (snd (ss_connect sys k fd sa)) = opened k" and "opened (snd (ss_setopt sys k fd l n v)) = opened k"
  using assms by (simp_all add: fd_laws_def)

lemma socket_failed:
  assumes "fd_laws sys opened" and "ss_socket sys k fam ty = (fd, Some e, k1)"
  shows "sock_result_ok opened k ((fd, na, Some x), k1)" and "sock_all_or_nothing opened k ((fd, na, Some x), k1)"
proof -
  have "opened k1 = opened k"
    using assms unfolding fd_laws_def by (metis (mono_tags, lifting) option.distinct(1))
  then show "sock_result_ok opened k ((fd, na, Some x), k1)" "sock_all_or_nothing opened k ((fd, na, Some x), k1)"
    by (simp_all add: sock_result_ok_def sock_all_or_nothing_def)
qed

lemma body_opened:
  assumes "opened (snd r) = opened k" and "\<And>k'. opened k' = opened k \<Longrightarrow> opened (snd (f k')) = opened k"
  shows "opened (snd (case r of (Some e, k) \<Rightarrow> (Some e, k) | (None, k) \<Rightarrow> f k)) = opened k"
  using assms by (cases r; cases "fst r") auto

lemma bind_listen_opened:
  assumes "fd_laws sys opened"
  shows "opened (snd (bind_listen sys b k fd sa)) = opened k"
  unfolding bind_listen_def
  by (rule body_opened) (simp_all add: wrap_err_def opened_simps [OF assms])

lemma bind_listen_calm: "only_connect_in_progress sys \<Longrightarrow> calm_err (fst (bind_listen sys b k fd sa))"
  unfolding bind_listen_def by (rule body_calm) (simp_all add: calm_simps)

lemma tcpSocket_opened:
  assumes "fd_laws sys opened" and "opts_laws os opened"
  shows "sock_result_ok opened k (tcpSocket sys ifByName resolve b proto addr passive os k)"
    and "only_connect_in_progress sys \<Longrightarrow> opts_calm os \<Longrightarrow> passive \<Longrightarrow>
      sock_all_or_nothing opened k (tcpSocket sys ifByName resolve b proto addr passive os k)"
proof -
  obtain sa family na v6 x where a: "GetTCPSockAddr ifByName resolve proto addr = (sa, family, na, v6, x)"
    by (cases "GetTCPSockAddr ifByName resolve proto addr")
  obtain fd e k1 where s: "ss_socket sys k family SOCK_STREAM = (fd, e, k1)" by (cases "ss_socket sys k family SOCK_STREAM")
  define body where "body = (\<lambda>k. case (if family = AF_INET6 \<and> v6 then SetIPv6Only sys k fd 1 else (None, k)) of
      (Some e, k) \<Rightarrow> (Some e, k)
    | (None, k) \<Rightarrow> (case apply_opts os k fd of
        (Some e, k) \<Rightarrow> (Some e, k)
      | (None, k) \<Rightarrow> if passive then bind_listen sys b k fd sa else wrap_err ''connect'' (ss_connect sys k fd sa)))"
  have "opened (snd (body k1)) = opened k1" unfolding body_def
    by (intro body_opened)
      (simp_all add: SetIPv6Only_def wrap_err_def opened_simps [OF assms(1)] apply_opts_opened [OF assms(2)]
        bind_listen_opened [OF assms(1)])
  note frame = socket_frame [OF assms(1), of k family SOCK_STREAM fd k1 body na, OF _ this]
  show "sock_result_ok opened k (tcpSocket sys ifByName resolve b proto addr passive os k)"
    using s a socket_failed(1) [OF assms(1)] frame(1)
    by (cases x; cases e) (simp_all add: tcpSocket_def body_def sock_result_ok_def [of opened k "((0, y), k)" for y])
  show "sock_all_or_nothing opened k (tcpSocket sys ifByName resolve b proto addr passive os k)" if calm: "only_connect_in_progress sys" "opts_calm os" "passive"
  proof -
    have "calm_err (fst (body k1))" unfolding body_def
      by (intro body_calm) (simp_all add: SetIPv6Only_def calm_simps [OF calm(1)] apply_opts_calm [OF calm(2)] calm(3) bind_listen_calm [OF calm(1)])
    then show ?thesis using s a socket_failed(2) [OF assms(1)] frame(2)
      by (cases x; cases e) (simp_all add: tcpSocket_def body_def sock_all_or_nothing_def [of opened k "((0, y), k)" for y])
  qed
qed

lemma udpSocket_opened:
  assumes "fd_laws sys opened" and "opts_laws os opened"
  shows "sock_result_ok opened k (udpSocket sys ifByName resolve proto addr connect os k)"
    and "only_connect_in_progress sys \<Longrightarrow> opts_calm os \<Longrightarrow> \<not> connect \<Longrightarrow>
      sock_all_or_nothing opened k (udpSocket sys ifByName resolve proto addr connect os k)"
proof -
  obtain sa family na v6 x where a: "GetUDPSockAddr ifByName resolve proto addr = (sa, family, na, v6, x)"
    by (cases "GetUDPSockAddr ifByName resolve proto addr")
  obtain fd e k1 where s: "ss_socket sys k family SOCK_DGRAM = (fd, e, k1)" by (cases "ss_socket sys k family SOCK_DGRAM")
  define body where "body = (\<lambda>k. case (if family = AF_INET6 \<and> v6 then SetIPv6Only sys k fd 1 else (None, k)) of
      (Some e, k) \<Rightarrow> (Some e, k)
    | (None, k) \<Rightarrow> (case wrap_err ''setsockopt'' (ss_setopt sys k fd SOL_SOCKET SO_BROADCAST (OptInt 1)) of
        (Some e, k) \<Rightarrow> (Some e, k)
      | (None, k) \<Rightarrow> (case apply_opts os k fd of
          (Some e, k) \<Rightarrow> (Some e, k)
        | (None, k) \<Rightarrow> if connect then wrap_err ''connect'' (ss_connect sys k fd sa) else wrap_err ''bind'' (ss_bind sys k fd sa))))"
  have "opened (snd (body k1)) = opened k1" unfolding body_def
    by (intro body_opened)
      (simp_all add: SetIPv6Only_def wrap_err_def opened_simps [OF assms(1)] apply_opts_opened [OF assms(2)])
  note frame = socket_frame [OF assms(1), of k family SOCK_DGRAM fd k1 body na, OF _ this]
  show "sock_result_ok opened k (udpSocket sys ifByName resolve proto addr connect os k)"
    using s a socket_failed(1) [OF assms(1)] frame(1)
    by (cases x; cases e) (simp_all add: udpSocket_def body_def sock_result_ok_def [of opened k "((0, y), k)" for y])
  show "sock_all_or_nothing opened k (udpSocket sys ifByName resolve proto addr connect os k)" if calm: "only_connect_in_progress sys" "opts_calm os" "\<not> connect"
  proof -
    have "calm_err (fst (body k1))" unfolding body_def
      by (intro body_calm) (simp_all add: SetIPv6Only_def calm_simps [OF calm(1)] apply_opts_calm [OF calm(2)] calm(3))
    then show ?thesis using s a socket_failed(2) [OF assms(1)] frame(2)
      by (cases x; cases e) (simp_all add: udpSocket_def body_def sock_all_or_nothing_def [of opened k "((0, y), k)" for y])
  qed
qed

lemma udsSocket_opened:
  assumes "fd_laws sys opened" and "opts_laws os opened"
  shows "sock_result_ok opened k (udsSocket sys resolve b proto addr passive os k)"
    and "only_connect_in_progress sys \<Longrightarrow> opts_calm os \<Longrightarrow> passive \<Longrightarrow>
      sock_all_or_nothing opened k (udsSocket sys resolve b proto addr passive os k)"
proof -
  obtain sa family na x where a: "GetUnixSockAddr resolve proto addr = (sa, family, na, x)"
    by (cases "GetUnixSockAddr resolve proto addr")
  obtain fd e k1 where s: "ss_socket sys k family SOCK_STREAM = (fd, e, k1)" by (cases "ss_socket sys k family SOCK_STREAM")
  define body where "body = (\<lambda>k. case apply_opts os k fd of
      (Some e, k) \<Rightarrow> (Some e, k)
    | (None, k) \<Rightarrow> if passive then bind_listen sys b k fd sa else wrap_err ''connect'' (ss_connect sys k fd sa))"
  have "opened (snd (body k1)) = opened k1" unfolding body_def
    by (intro body_opened)
      (simp_all add: wrap_err_def opened_simps [OF assms(1)] apply_opts_opened [OF assms(2)] bind_listen_opened [OF assms(1)])
  note frame = socket_frame [OF assms(1), of k family SOCK_STREAM fd k1 body na, OF _ this]
  show "sock_result_ok opened k (udsSocket sys resolve b proto addr passive os k)"
    using s a socket_failed(1) [OF assms(1)] frame(1)
    by (cases x; cases e) (simp_all add: udsSocket_def body_def sock_result_ok_def [of opened k "((0, y), k)" for y])
  show "sock_all_or_nothing opened k (udsSocket sys resolve b proto addr passive os k)" if calm: "only_connect_in_progress sys" "opts_calm os" "passive"
  proof -
    have "calm_err (fst (body k1))" unfolding body_def
      by (intro body_calm) (simp_all add: calm_simps [OF calm(1)] apply_opts_calm [OF calm(2)] calm(3) bind_listen_calm [OF calm(1)])
    then show ?thesis using s a socket_failed(2) [OF assms(1)] frame(2)
      by (cases x; cases e) (simp_all add: udsSocket_def body_def sock_all_or_nothing_def [of opened k "((0, y), k)" for y])
  qed
qed

section \<open>Socket addresses are well typed\<close>

text \<open>
  What the kernel expects of a socket address: the layout of its family, with an IP address of
  that family's length.
\<close>

definition sockaddr_typed :: "int \<Rightarrow> sockaddr \<Rightarrow> bool" where
  "sockaddr_typed family sa =
     (case sa of
        SockaddrInet4 port addr \<Rightarrow> family = AF_INET \<and> length addr = 4
      | SockaddrInet6 port zone addr \<Rightarrow> family = AF_INET6 \<and> length addr = 16
      | SockaddrUnix name \<Rightarrow> family = AF_UNIX
      | SockaddrOther \<Rightarrow> False)"

definition result_typed :: "(net_addr \<Rightarrow> bool) \<Rightarrow> sockaddr option \<Rightarrow> int \<Rightarrow> net_addr option \<Rightarrow> bool \<Rightarrow> goerror option \<Rightarrow> bool" where
  "result_typed is_net sa family netAddr ipv6only err =
     (case err of
        Some e \<Rightarrow> sa = None
      | None \<Rightarrow> (case (sa, netAddr) of (Some s, Some a) \<Rightarrow> sockaddr_typed family s \<and> is_net a | _ \<Rightarrow> False) \<and>
          (if ipv6only then family = AF_INET6 else True))"

lemma To4_length: "To4 ip = Some x \<Longrightarrow> length x = 4"
  by (auto simp: To4_def split: if_splits)

lemma To16_length: "To16 ip = Some x \<Longrightarrow> length x = 16"
  by (auto simp: To16_def v4InV6Prefix_def split: if_splits)

lemma ipToSockaddr_typed: "ipToSockaddr ifByName family ip port zone = Inr sa \<Longrightarrow> sockaddr_typed family sa"
  by (auto simp: ipToSockaddr_def ipToSockaddrInet4_def ipToSockaddrInet6_def sockaddr_typed_def Let_def AF_INET_def AF_INET6_def
      dest: To4_length To16_length split: if_splits option.splits)

text \<open>
  C25: socket addresses are well typed. Whatever the resolver and the interface table answer,
  a resolution for TCP, UDP or Unix sockets yields an error and no socket address, or a socket
  address of the family it returns, with 4 or 16 bytes of IP address as that family has,
  beside an address of package \<open>net\<close> of the right kind; IPv6 only is asked for IPv6 alone.
\<close>

theorem resolved_addresses_typed:
  "(case GetTCPSockAddr ifByName resolve proto addr of
      (sa, family, a, v6, e) \<Rightarrow> result_typed (\<lambda>a. case a of TCPAddr _ _ _ \<Rightarrow> True | _ \<Rightarrow> False) sa family a v6 e) \<and>
   (case GetUDPSockAddr ifByName resolve proto addr of
      (sa, family, a, v6, e) \<Rightarrow> result_typed (\<lambda>a. case a of UDPAddr _ _ _ \<Rightarrow> True | _ \<Rightarrow> False) sa family a v6 e) \<and>
   (case GetUnixSockAddr uresolve proto addr of
      (sa, family, a, e) \<Rightarrow> result_typed (\<lambda>a. case a of UnixAddr _ _ \<Rightarrow> True | _ \<Rightarrow> False) sa family a False e)"
proof (intro conjI)
  show "case GetTCPSockAddr ifByName resolve proto addr of
      (sa, family, a, v6, e) \<Rightarrow> result_typed (\<lambda>a. case a of TCPAddr _ _ _ \<Rightarrow> True | _ \<Rightarrow> False) sa family a v6 e"
    by (auto simp: GetTCPSockAddr_def result_typed_def Let_def dest: ipToSockaddr_typed split: sum.splits)
  show "case GetUDPSockAddr ifByName resolve proto addr of
      (sa, family, a, v6, e) \<Rightarrow> result_typed (\<lambda>a. case a of UDPAddr _ _ _ \<Rightarrow> True | _ \<Rightarrow> False) sa family a v6 e"
    by (auto simp: GetUDPSockAddr_def result_typed_def Let_def dest: ipToSockaddr_typed split: sum.splits)
  show "case GetUnixSockAddr uresolve proto addr of
      (sa, family, a, e) \<Rightarrow> result_typed (\<lambda>a. case a of UnixAddr _ _ \<Rightarrow> True | _ \<Rightarrow> False) sa family a False e"
    by (auto simp: GetUnixSockAddr_def result_typed_def sockaddr_typed_def split: sum.splits)
qed

end
