(* ===== verification/Options.thy ===== *)
theory Options
  imports PowerMath Ring Gfd
begin

text \<open>
  \<open>options.go\<close>, and the part of \<open>engine_unix.go\<close> that turns the options into the
  configuration the server runs with: \<open>Server\<close> up to \<open>Start\<close>, and \<open>parseProtoAddr\<close>.
\<close>

section \<open>Options\<close>

datatype TCPSocketOpt = TCPNoDelay | TCPDelay

record options =
  op_Multicore :: bool
  op_NumEventLoop :: int
  op_ReuseAddr :: bool
  op_ReusePort :: bool
  op_MulticastInterfaceIndex :: int
  op_ReadBufferCap :: int
  op_WriteBufferCap :: int
  op_LockOSThread :: bool
  op_Ticker :: bool
  op_TCPKeepAlive :: int
  op_TCPNoDelayOpt :: TCPSocketOpt
  op_SocketRecvBuffer :: int
  op_SocketSendBuffer :: int

text \<open>An \<open>Option\<close> is a function on the options; \<open>new(Options)\<close> has all fields zero.\<close>

type_synonym option_fn = "options \<Rightarrow> options"

definition new_Options :: options where
  "new_Options =
     \<lparr>op_Multicore = False, op_NumEventLoop = 0, op_ReuseAddr = False, op_ReusePort = False,
      op_MulticastInterfaceIndex = 0, op_ReadBufferCap = 0, op_WriteBufferCap = 0, op_LockOSThread = False,
      op_Ticker = False, op_TCPKeepAlive = 0, op_TCPNoDelayOpt = TCPNoDelay,
      op_SocketRecvBuffer = 0, op_SocketSendBuffer = 0\<rparr>"

definition loadOptions :: "option_fn list \<Rightarrow> options" where
  "loadOptions fs = fold (\<lambda>f opts. f opts) fs new_Options"

definition WithOptions :: "options \<Rightarrow> option_fn" where
  "WithOptions options = (\<lambda>opts. options)"

definition WithMulticore :: "bool \<Rightarrow> option_fn" where
  "WithMulticore multicore = (\<lambda>opts. opts\<lparr>op_Multicore := multicore\<rparr>)"

definition WithNumEventLoop :: "int \<Rightarrow> option_fn" where
  "WithNumEventLoop numEventLoop = (\<lambda>opts. opts\<lparr>op_NumEventLoop := numEventLoop\<rparr>)"

definition WithReuseAddr :: "bool \<Rightarrow> option_fn" where
  "WithReuseAddr reuseAddr = (\<lambda>opts. opts\<lparr>op_ReuseAddr := reuseAddr\<rparr>)"

definition WithReusePort :: "bool \<Rightarrow> option_fn" where
  "WithReusePort reusePort = (\<lambda>opts. opts\<lparr>op_ReusePort := reusePort\<rparr>)"

definition WithMulticastInterfaceIndex :: "int \<Rightarrow> option_fn" where
  "WithMulticastInterfaceIndex idx = (\<lambda>opts. opts\<lparr>op_MulticastInterfaceIndex := idx\<rparr>)"

definition WithReadBufferCap :: "int \<Rightarrow> option_fn" where
  "WithReadBufferCap readBufferCap = (\<lambda>opts. opts\<lparr>op_ReadBufferCap := readBufferCap\<rparr>)"

definition WithWriteBufferCap :: "int \<Rightarrow> option_fn" where
  "WithWriteBufferCap writeBufferCap = (\<lambda>opts. opts\<lparr>op_WriteBufferCap := writeBufferCap\<rparr>)"

definition WithLockOSThread :: "bool \<Rightarrow> option_fn" where
  "WithLockOSThread lockOSThread = (\<lambda>opts. opts\<lparr>op_LockOSThread := lockOSThread\<rparr>)"

definition WithTicker :: "bool \<Rightarrow> option_fn" where
  "WithTicker ticker = (\<lambda>opts. opts\<lparr>op_Ticker := ticker\<rparr>)"

definition WithTCPKeepAlive :: "int \<Rightarrow> option_fn" where
  "WithTCPKeepAlive tcpKeepAlive = (\<lambda>opts. opts\<lparr>op_TCPKeepAlive := tcpKeepAlive\<rparr>)"

definition WithTCPNoDelay :: "TCPSocketOpt \<Rightarrow> option_fn" where
  "WithTCPNoDelay tcpNoDelay = (\<lambda>opts. opts\<lparr>op_TCPNoDelayOpt := tcpNoDelay\<rparr>)"

definition WithSocketRecvBuffer :: "int \<Rightarrow> option_fn" where
  "WithSocketRecvBuffer recvBuf = (\<lambda>opts. opts\<lparr>op_SocketRecvBuffer := recvBuf\<rparr>)"

definition WithSocketSendBuffer :: "int \<Rightarrow> option_fn" where
  "WithSocketSendBuffer sendBuf = (\<lambda>opts. opts\<lparr>op_SocketSendBuffer := sendBuf\<rparr>)"

section \<open>The configuration of the server\<close>

definition MaxStreamBufferCap :: int where
  "MaxStreamBufferCap = 64 * 1024"

text \<open>The switch that normalises a buffer capacity; \<open>CeilToPowerOfTwo\<close> can panic.\<close>

definition normal_cap :: "int \<Rightarrow> int option" where
  "normal_cap c =
     (if c \<le> 0 then Some MaxStreamBufferCap
      else if c \<le> DefaultBufferSize then Some DefaultBufferSize
      else CeilToPowerOfTwo c)"

text \<open>\<open>Server\<close> before \<open>Start\<close>: an error, or the options the server is started with.\<close>

definition server_options :: "int \<Rightarrow> option_fn list \<Rightarrow> (goerror + options) option" where
  "server_options numCPU opts =
     (let options = loadOptions opts in
      if op_LockOSThread options \<and> op_NumEventLoop options > 10000 then Some (Inl ErrTooManyEventLoopThreads)
      else do {
        rbc \<leftarrow> normal_cap (op_ReadBufferCap options);
        let options = options\<lparr>op_ReadBufferCap := rbc\<rparr>;
        wbc \<leftarrow> normal_cap (op_WriteBufferCap options);
        let options = options\<lparr>op_WriteBufferCap := wbc\<rparr>;
        let options = (if op_Multicore options then options\<lparr>op_NumEventLoop := numCPU\<rparr> else options);
        let options = (if op_NumEventLoop options > EventLoopIndexMax
                       then options\<lparr>op_NumEventLoop := EventLoopIndexMax\<rparr> else options);
        let options = (if op_NumEventLoop options \<le> 0 then options\<lparr>op_NumEventLoop := 1\<rparr> else options);
        Some (Inr options)
      })"

section \<open>The protocol address\<close>

text \<open>
  \<open>strings.ToLower\<close> on ASCII, and \<open>strings.Split\<close> by \<open>://\<close> as far as its first two
  pieces are used: what is before the first separator, and what is between it and the next.
\<close>

definition ascii_lower :: "char \<Rightarrow> char" where
  "ascii_lower c = (let n = of_char c :: nat in if 65 \<le> n \<and> n \<le> 90 then char_of (n + 32) else c)"

fun until_sep :: "string \<Rightarrow> string \<times> string option" where
  "until_sep [] = ([], None)"
| "until_sep (c # s) =
     (if take 3 (c # s) = ''://'' then ([], Some (drop 3 (c # s)))
      else let (a, r) = until_sep s in (c # a, r))"

definition parseProtoAddr :: "string \<Rightarrow> string \<times> string" where
  "parseProtoAddr addr =
     (let address = map ascii_lower addr in
      case until_sep address of
        (_, None) \<Rightarrow> (''tcp'', address)
      | (network, Some rest) \<Rightarrow> (network, fst (until_sep rest)))"

section \<open>Properties\<close>

lemma normal_cap_spec:
  assumes "c \<le> 2 ^ 32"
  shows "\<exists>k. normal_cap c = Some (2 ^ k) \<and> 10 \<le> k \<and> k \<le> 32 \<and> (0 < c \<longrightarrow> c \<le> 2 ^ k) \<and> (1024 < c \<longrightarrow> 2 ^ k < 2 * c)"
proof -
  consider "c \<le> 0" | "0 < c" "c \<le> 1024" | "1024 < c" by linarith
  then show ?thesis
  proof cases
    case 1
    then show ?thesis by (intro exI [of _ 16]) (simp add: normal_cap_def MaxStreamBufferCap_def)
  next
    case 2
    then show ?thesis by (intro exI [of _ 10]) (simp add: normal_cap_def DefaultBufferSize_def)
  next
    case 3
    then obtain k where k: "2 ^ k < c" "c \<le> 2 ^ Suc k" "CeilToPowerOfTwo c = Some (2 ^ Suc k)"
      using ceil_exponent [of c] assms by auto
    have "(2::int) ^ 10 = 1024" by simp
    then have "(2::int) ^ 10 < 2 ^ Suc k" using k(2) 3 by linarith
    then have "10 < Suc k" by (rule power_less_imp_less_exp [rotated]) simp
    moreover have "(2::int) ^ k < 2 ^ 32" using k(1) assms by linarith
    then have "k < 32" by (rule power_less_imp_less_exp [rotated]) simp
    ultimately show ?thesis using 3 k by (intro exI [of _ "Suc k"]) (simp add: normal_cap_def DefaultBufferSize_def)
  qed
qed

text \<open>
  What the server makes of a capacity it is asked for: at least 1024 and at least as much, at
  most twice as much if that is above 1024, and a power of two unless more than \<open>2 ^ 32\<close> was
  asked for, where the rounding of \<open>CeilToPowerOfTwo\<close> fails.
\<close>

definition cap_in_bounds :: "int \<Rightarrow> int \<Rightarrow> bool" where
  "cap_in_bounds c c' \<longleftrightarrow> 1024 \<le> c' \<and> c \<le> c' \<and> (1024 < c \<longrightarrow> c' \<le> 2 * c) \<and>
     (c \<le> 2 ^ 32 \<longrightarrow> (\<exists>i. c' = 2 ^ i) \<and> (1024 < c \<longrightarrow> c' < 2 * c))"

lemma normal_cap_in_bounds:
  assumes "c \<le> 2 ^ 62"
  shows "\<exists>c'. normal_cap c = Some c' \<and> cap_in_bounds c c'"
proof (cases "c \<le> 2 ^ 32")
  case True
  obtain k where k: "normal_cap c = Some (2 ^ k)" "10 \<le> k" "0 < c \<longrightarrow> c \<le> 2 ^ k" "1024 < c \<longrightarrow> 2 ^ k < 2 * c"
    using normal_cap_spec [OF True] by blast
  have "(2::int) ^ 10 \<le> 2 ^ k" using k(2) by (intro power_increasing) auto
  then have "1024 \<le> (2::int) ^ k" by simp
  then show ?thesis using k by (intro exI [of _ "2 ^ k"]) (auto simp: cap_in_bounds_def)
next
  case False
  then have c: "\<not> c \<le> 0" "\<not> c \<le> DefaultBufferSize" "2 < c" by (simp_all add: DefaultBufferSize_def)
  obtain m where "CeilToPowerOfTwo c = Some m" "c \<le> m" "m \<le> 2 * c"
    using CeilToPowerOfTwo_bounds [OF c(3) assms] by blast
  then show ?thesis using c False by (intro exI [of _ m]) (auto simp: normal_cap_def cap_in_bounds_def)
qed

lemma normal_cap_panics: "2 ^ 62 < c \<Longrightarrow> c < 2 ^ 63 \<Longrightarrow> normal_cap c = None"
  using and_head_bit [of c] by (simp add: normal_cap_def CeilToPowerOfTwo_def maxintHeadBit_def DefaultBufferSize_def)



lemma until_sep_none: "CHR '':'' \<notin> set n \<Longrightarrow> until_sep (n @ ''://'' @ a) = (n, Some a)"
proof (induction n)
  case (Cons c n)
  then show ?case by (cases n) auto
qed simp

text \<open>
  The protocol address. A network in lower-case letters and an address without a separator
  of its own, joined by \<open>://\<close>, are split back into these two; an address without a separator is
  a TCP address, in lower case.
\<close>

theorem parseProtoAddr_splits:
  "(map ascii_lower (n @ a) = n @ a \<and> CHR '':'' \<notin> set n \<and> snd (until_sep a) = None \<longrightarrow>
      parseProtoAddr (n @ ''://'' @ a) = (n, a)) \<and>
    (snd (until_sep (map ascii_lower a)) = None \<longrightarrow> parseProtoAddr a = (''tcp'', map ascii_lower a))"
proof -
  have u: "until_sep s = (s, None)" if "snd (until_sep s) = None" for s
    using that by (induction s rule: until_sep.induct) (auto split: if_splits prod.splits)
  have sep: "map ascii_lower ''://'' = ''://''" by code_simp
  have "parseProtoAddr (n @ ''://'' @ a) = (n, a)"
    if "map ascii_lower (n @ a) = n @ a" "CHR '':'' \<notin> set n" "snd (until_sep a) = None"
  proof -
    have "map ascii_lower (n @ ''://'' @ a) = n @ ''://'' @ a"
      using that(1) sep by (metis append_eq_append_conv length_map map_append)
    then show ?thesis using until_sep_none [OF that(2), of a] u [OF that(3)] by (simp add: parseProtoAddr_def Let_def)
  qed
  moreover have "parseProtoAddr a = (''tcp'', map ascii_lower a)" if "snd (until_sep (map ascii_lower a)) = None"
    using u [OF that] by (simp add: parseProtoAddr_def Let_def)
  ultimately show ?thesis by blast
qed

theorem parseProtoAddr_splits_witness:
  "parseProtoAddr ''unix:///tmp/s'' = (''unix'', ''/tmp/s'')"
proof -
  have "map ascii_lower (''unix'' @ ''/tmp/s'') = ''unix'' @ ''/tmp/s''" "snd (until_sep ''/tmp/s'') = None" by code_simp+
  then show ?thesis using parseProtoAddr_splits [of "''unix''" "''/tmp/s''"] by simp
qed

end
