(* ===== verification/Listener.thy ===== *)
theory Listener
  imports Sockets Options
begin

text \<open>
  \<open>listener_unix.go\<close>: the listening socket, from the options of the server to the bound
  descriptor. What the listener needs from outside is one record: the system calls, the
  resolvers, the interface tables, the backlog and \<open>os.RemoveAll\<close>.
\<close>

section \<open>State\<close>

record 'k listener =
  ln_fd :: int
  ln_addr :: "net_addr option"
  ln_address :: string
  ln_network :: string
  ln_sockOpts :: "'k sock_option list"
  ln_closed :: bool

record 'k net_env =
  ne_sys :: "'k sock_sys"
  ne_ifByName :: "string \<Rightarrow> nat option"
  ne_addrs :: if_table
  ne_resolveTCP :: resolver
  ne_resolveUDP :: resolver
  ne_resolveUnix :: "string \<Rightarrow> string \<Rightarrow> goerror + (string \<times> string)"
  ne_backlog :: int
  ne_removeAll :: "'k \<Rightarrow> string \<Rightarrow> 'k"

section \<open>Operations\<close>

definition ln_normalize :: "'k net_env \<Rightarrow> 'k listener \<Rightarrow> 'k \<Rightarrow> goerror option \<times> 'k listener \<times> 'k" where
  "ln_normalize env ln k =
     (if ln_network ln \<in> {''tcp'', ''tcp4'', ''tcp6''} then
        (case tcpSocket (ne_sys env) (ne_ifByName env) (ne_resolveTCP env) (ne_backlog env)
              (ln_network ln) (ln_address ln) True (ln_sockOpts ln) k of
           ((fd, addr, err), k) \<Rightarrow> (err, ln\<lparr>ln_fd := fd, ln_addr := addr, ln_network := ''tcp''\<rparr>, k))
      else if ln_network ln \<in> {''udp'', ''udp4'', ''udp6''} then
        (case udpSocket (ne_sys env) (ne_ifByName env) (ne_resolveUDP env)
              (ln_network ln) (ln_address ln) False (ln_sockOpts ln) k of
           ((fd, addr, err), k) \<Rightarrow> (err, ln\<lparr>ln_fd := fd, ln_addr := addr, ln_network := ''udp''\<rparr>, k))
      else if ln_network ln = ''unix'' then
        (case udsSocket (ne_sys env) (ne_resolveUnix env) (ne_backlog env)
              (ln_network ln) (ln_address ln) True (ln_sockOpts ln) (ne_removeAll env k (ln_address ln)) of
           ((fd, addr, err), k) \<Rightarrow> (err, ln\<lparr>ln_fd := fd, ln_addr := addr\<rparr>, k))
      else (Some ErrUnsupportedProtocol, ln, k))"

text \<open>\<open>sync.Once\<close> lets the body of \<open>close\<close> run once.\<close>

definition ln_close :: "'k net_env \<Rightarrow> 'k listener \<Rightarrow> 'k \<Rightarrow> 'k listener \<times> 'k" where
  "ln_close env ln k =
     (if ln_closed ln then (ln, k)
      else
        let k = (if ln_fd ln > 0 then snd (ss_close (ne_sys env) k (ln_fd ln)) else k);
            k = (if ln_network ln = ''unix'' then ne_removeAll env k (ln_address ln) else k)
        in (ln\<lparr>ln_closed := True\<rparr>, k))"

definition HasPrefix :: "string \<Rightarrow> string \<Rightarrow> bool" where
  "HasPrefix s p \<longleftrightarrow> take (length p) s = p"

definition IsMulticast :: "byte list \<Rightarrow> bool" where
  "IsMulticast ip \<longleftrightarrow>
     (case To4 ip of
        Some ip4 \<Rightarrow> drop_bit 4 (ip4 ! 0) = 14
      | None \<Rightarrow> length ip = 16 \<and> ip ! 0 = 255)"

text \<open>The options \<open>initListener\<close> collects, in its order.\<close>

definition listener_opts :: "'k net_env \<Rightarrow> string \<Rightarrow> string \<Rightarrow> options \<Rightarrow> 'k sock_option list" where
  "listener_opts env network addr options =
     (let sys = ne_sys env in
      (if op_ReusePort options \<or> HasPrefix network ''udp'' then [\<lparr>SetSockOpt = SetReuseport sys, Opt = 1\<rparr>] else []) @
      (if op_ReuseAddr options then [\<lparr>SetSockOpt = SetReuseAddr sys, Opt = 1\<rparr>] else []) @
      (if op_TCPNoDelayOpt options = TCPNoDelay \<and> HasPrefix network ''tcp''
       then [\<lparr>SetSockOpt = SetNoDelay sys, Opt = 1\<rparr>] else []) @
      (if op_SocketRecvBuffer options > 0
       then [\<lparr>SetSockOpt = SetRecvBuffer sys, Opt = op_SocketRecvBuffer options\<rparr>] else []) @
      (if op_SocketSendBuffer options > 0
       then [\<lparr>SetSockOpt = SetSendBuffer sys, Opt = op_SocketSendBuffer options\<rparr>] else []) @
      (if HasPrefix network ''udp'' then
         (case ne_resolveUDP env network addr of
            Inl e \<Rightarrow> []
          | Inr udpAddr \<Rightarrow>
              if IsMulticast (fst udpAddr) then
                (case SetMulticastMembership sys (ne_addrs env) network udpAddr of
                   None \<Rightarrow> []
                 | Some f \<Rightarrow> [\<lparr>SetSockOpt = f, Opt = op_MulticastInterfaceIndex options\<rparr>])
              else [])
       else []))"

definition initListener :: "'k net_env \<Rightarrow> string \<Rightarrow> string \<Rightarrow> options \<Rightarrow> 'k \<Rightarrow> goerror option \<times> 'k listener \<times> 'k" where
  "initListener env network addr options k =
     ln_normalize env
       \<lparr>ln_fd = 0, ln_addr = None, ln_address = addr, ln_network = network,
        ln_sockOpts = listener_opts env network addr options, ln_closed = False\<rparr> k"

section \<open>Properties\<close>

lemma ln_normalize_tcp:
  assumes "ln_network ln \<in> {''tcp'', ''tcp4'', ''tcp6''}"
    and "tcpSocket (ne_sys env) (ne_ifByName env) (ne_resolveTCP env) (ne_backlog env)
      (ln_network ln) (ln_address ln) True (ln_sockOpts ln) k = ((fd, a, err), k')"
  shows "ln_normalize env ln k = (err, ln\<lparr>ln_fd := fd, ln_addr := a, ln_network := ''tcp''\<rparr>, k')"
  by (simp only: ln_normalize_def assms if_True prod.case)

lemma ln_normalize_udp:
  assumes "ln_network ln \<in> {''udp'', ''udp4'', ''udp6''}"
    and "udpSocket (ne_sys env) (ne_ifByName env) (ne_resolveUDP env)
      (ln_network ln) (ln_address ln) False (ln_sockOpts ln) k = ((fd, a, err), k')"
  shows "ln_normalize env ln k = (err, ln\<lparr>ln_fd := fd, ln_addr := a, ln_network := ''udp''\<rparr>, k')"
proof -
  have "ln_network ln \<notin> {''tcp'', ''tcp4'', ''tcp6''}" using assms(1) by auto
  then show ?thesis by (simp only: ln_normalize_def assms if_True if_False prod.case)
qed

lemma ln_normalize_unix:
  assumes "ln_network ln = ''unix''"
    and "udsSocket (ne_sys env) (ne_resolveUnix env) (ne_backlog env)
      (ln_network ln) (ln_address ln) True (ln_sockOpts ln) (ne_removeAll env k (ln_address ln)) = ((fd, a, err), k')"
  shows "ln_normalize env ln k = (err, ln\<lparr>ln_fd := fd, ln_addr := a\<rparr>, k')"
proof -
  have "ln_network ln \<notin> {''tcp'', ''tcp4'', ''tcp6''}" "ln_network ln \<notin> {''udp'', ''udp4'', ''udp6''}" using assms(1) by simp_all
  then show ?thesis using assms by (simp only: ln_normalize_def if_True if_False prod.case simp_thms)
qed

lemma set_opt_opened:
  assumes "fd_laws sys opened"
  shows "opened (snd (SetReuseport sys k fd v)) = opened k" and "opened (snd (SetReuseAddr sys k fd v)) = opened k"
    and "opened (snd (SetNoDelay sys k fd v)) = opened k" and "opened (snd (SetRecvBuffer sys k fd v)) = opened k"
    and "opened (snd (SetSendBuffer sys k fd v)) = opened k"
  using opened_simps(4) [OF assms]
  by (simp_all add: SetReuseport_def SetReuseAddr_def SetNoDelay_def SetRecvBuffer_def SetSendBuffer_def wrap_err_def)

lemma multicast_opened:
  assumes "fd_laws sys opened" and "SetMulticastMembership sys tbl proto a = Some f"
  shows "opened (snd (f k fd v)) = opened k"
proof -
  note o = opened_simps(4) [OF assms(1)]
  have "opened (snd (SetIPv4MulticastMembership sys tbl m k fd v)) = opened k" for m
    unfolding SetIPv4MulticastMembership_def Let_def
    by (cases "interfaceFirstIPv4Addr tbl v")
      (simp, simp only: sum.case, intro body_opened, simp_all add: wrap_err_def o)
  moreover have "opened (snd (SetIPv6MulticastMembership sys m k fd v)) = opened k" for m
    unfolding SetIPv6MulticastMembership_def Let_def by (intro body_opened) (simp_all add: wrap_err_def o)
  ultimately show ?thesis using assms(2)
    by (auto simp: SetMulticastMembership_def split: sum.splits if_splits)
qed

lemma opts_laws_if [simp]:
  "opts_laws [] opened" "opts_laws (xs @ ys) opened \<longleftrightarrow> opts_laws xs opened \<and> opts_laws ys opened"
  "(\<And>k fd v. opened (snd (f k fd v)) = opened k) \<Longrightarrow> opts_laws (if b then [\<lparr>SetSockOpt = f, Opt = x\<rparr>] else []) opened"
  by (auto simp: opts_laws_def)

lemma listener_opts_laws:
  assumes "fd_laws (ne_sys env) opened"
  shows "opts_laws (listener_opts env network addr options) opened"
proof -
  note o = set_opt_opened [OF assms]
  have m: "opts_laws (case SetMulticastMembership (ne_sys env) tbl network a of
      None \<Rightarrow> [] | Some f \<Rightarrow> [\<lparr>SetSockOpt = f, Opt = v\<rparr>]) opened" for tbl a v
  proof (cases "SetMulticastMembership (ne_sys env) tbl network a")
    case (Some f)
    then show ?thesis using multicast_opened [OF assms Some] by (simp add: opts_laws_def)
  qed simp
  show ?thesis
  proof (cases "ne_resolveUDP env network addr")
    case (Inr a)
    then show ?thesis using m [of "op_MulticastInterfaceIndex options" "ne_addrs env" a]
      by (simp add: listener_opts_def Let_def o)
  qed (simp add: listener_opts_def Let_def o)
qed

text \<open>The interface tables never say that a connection attempt is in progress either.\<close>

definition table_calm :: "if_table \<Rightarrow> bool" where
  "table_calm tbl \<longleftrightarrow>
     (\<forall>i. case tbl i of Inl e \<Rightarrow> calm_err (Some e) | Inr as \<Rightarrow> \<forall>e. Inl e \<in> set as \<longrightarrow> calm_err (Some e))"

lemma first_ipv4_calm: "\<forall>e. Inl e \<in> set as \<longrightarrow> calm_err (Some e) \<Longrightarrow> first_ipv4 as = Inl e \<Longrightarrow> calm_err (Some e)"
  by (induction as rule: first_ipv4.induct) (auto simp: calm_err_def in_progress_def split: if_splits)

lemma interface_calm: "table_calm tbl \<Longrightarrow> interfaceFirstIPv4Addr tbl v = Inl e \<Longrightarrow> calm_err (Some e)"
  using first_ipv4_calm [of "projr (tbl v)" e] unfolding table_calm_def interfaceFirstIPv4Addr_def
  by (auto split: sum.splits if_splits dest!: spec [where x = v])

lemma multicast_calm:
  assumes "only_connect_in_progress sys" and "table_calm tbl" and "SetMulticastMembership sys tbl proto a = Some f"
  shows "calm_err (fst (f k fd v))"
proof -
  note c = calm_simps [OF assms(1)]
  have "calm_err (fst (SetIPv4MulticastMembership sys tbl m k fd v))" for m
  proof (cases "interfaceFirstIPv4Addr tbl v")
    case (Inl e)
    then show ?thesis using interface_calm [OF assms(2)] by (simp add: SetIPv4MulticastMembership_def)
  next
    case (Inr ip)
    show ?thesis unfolding SetIPv4MulticastMembership_def Let_def Inr sum.case by (intro body_calm) (simp_all add: c)
  qed
  moreover have "calm_err (fst (SetIPv6MulticastMembership sys m k fd v))" for m
    unfolding SetIPv6MulticastMembership_def Let_def by (intro body_calm) (simp_all add: c)
  ultimately show ?thesis using assms(3)
    by (auto simp: SetMulticastMembership_def split: sum.splits if_splits)
qed

lemma opts_calm_if [simp]:
  "opts_calm []" "opts_calm (xs @ ys) \<longleftrightarrow> opts_calm xs \<and> opts_calm ys"
  "(\<And>k fd v. calm_err (fst (f k fd v))) \<Longrightarrow> opts_calm (if b then [\<lparr>SetSockOpt = f, Opt = x\<rparr>] else [])"
  by (auto simp: opts_calm_def)

lemma listener_opts_calm:
  assumes "only_connect_in_progress (ne_sys env)" and "table_calm (ne_addrs env)"
  shows "opts_calm (listener_opts env network addr options)"
proof -
  have o: "calm_err (fst (SetReuseport (ne_sys env) k fd v))" "calm_err (fst (SetReuseAddr (ne_sys env) k fd v))"
      "calm_err (fst (SetNoDelay (ne_sys env) k fd v))" "calm_err (fst (SetRecvBuffer (ne_sys env) k fd v))"
      "calm_err (fst (SetSendBuffer (ne_sys env) k fd v))" for k fd v
    using calm_simps(3) [OF assms(1)]
    by (simp_all add: SetReuseport_def SetReuseAddr_def SetNoDelay_def SetRecvBuffer_def SetSendBuffer_def)
  have m: "opts_calm (case SetMulticastMembership (ne_sys env) (ne_addrs env) network a of
      None \<Rightarrow> [] | Some f \<Rightarrow> [\<lparr>SetSockOpt = f, Opt = v\<rparr>])" for a v
  proof (cases "SetMulticastMembership (ne_sys env) (ne_addrs env) network a")
    case (Some f)
    then show ?thesis using multicast_calm [OF assms Some] by (simp add: opts_calm_def)
  qed simp
  show ?thesis
  proof (cases "ne_resolveUDP env network addr")
    case (Inr a)
    then show ?thesis using m [where a = a and v = "op_MulticastInterfaceIndex options"] by (simp add: listener_opts_def Let_def o)
  qed (simp add: listener_opts_def Let_def o)
qed

text \<open>Both outcomes, for each of the networks.\<close>

lemma ln_normalize_fds:
  assumes "fd_laws (ne_sys env) opened" and "\<And>k a. opened (ne_removeAll env k a) = opened k"
    and "opts_laws (ln_sockOpts ln) opened" and "ln_normalize env ln k = (err, ln', k')"
  shows "sock_result_ok opened k ((ln_fd ln', ln_addr ln', err), k')"
    and "only_connect_in_progress (ne_sys env) \<Longrightarrow> opts_calm (ln_sockOpts ln) \<Longrightarrow>
      sock_all_or_nothing opened k ((ln_fd ln', ln_addr ln', err), k')"
proof -
  let ?t = "tcpSocket (ne_sys env) (ne_ifByName env) (ne_resolveTCP env) (ne_backlog env) (ln_network ln) (ln_address ln) True (ln_sockOpts ln) k"
  let ?u = "udpSocket (ne_sys env) (ne_ifByName env) (ne_resolveUDP env) (ln_network ln) (ln_address ln) False (ln_sockOpts ln) k"
  let ?k = "ne_removeAll env k (ln_address ln)"
  let ?x = "udsSocket (ne_sys env) (ne_resolveUnix env) (ne_backlog env) (ln_network ln) (ln_address ln) True (ln_sockOpts ln) ?k"
  let ?goal = "sock_result_ok opened k ((ln_fd ln', ln_addr ln', err), k') \<and>
    (only_connect_in_progress (ne_sys env) \<longrightarrow> opts_calm (ln_sockOpts ln) \<longrightarrow>
      sock_all_or_nothing opened k ((ln_fd ln', ln_addr ln', err), k'))"
  consider (tcp) "ln_network ln \<in> {''tcp'', ''tcp4'', ''tcp6''}" | (udp) "ln_network ln \<in> {''udp'', ''udp4'', ''udp6''}"
    | (unix) "ln_network ln = ''unix''"
    | (other) "ln_network ln \<notin> {''tcp'', ''tcp4'', ''tcp6''}" "ln_network ln \<notin> {''udp'', ''udp4'', ''udp6''}" "ln_network ln \<noteq> ''unix''"
    by blast
  then have ?goal
  proof cases
    case tcp
    obtain fd a e k1 where t: "?t = ((fd, a, e), k1)" by (cases ?t) auto
    then have "ln_fd ln' = fd" "ln_addr ln' = a" "err = e" "k' = k1"
      using assms(4) unfolding ln_normalize_tcp [OF tcp t] by auto
    then show ?thesis using tcpSocket_opened [OF assms(1,3)] t by (metis (no_types, lifting))
  next
    case udp
    obtain fd a e k1 where t: "?u = ((fd, a, e), k1)" by (cases ?u) auto
    then have "ln_fd ln' = fd" "ln_addr ln' = a" "err = e" "k' = k1"
      using assms(4) unfolding ln_normalize_udp [OF udp t] by auto
    then show ?thesis using udpSocket_opened [OF assms(1,3)] t by (metis (no_types, lifting))
  next
    case unix
    obtain fd a e k1 where t: "?x = ((fd, a, e), k1)" by (cases ?x) auto
    then have r: "ln_fd ln' = fd" "ln_addr ln' = a" "err = e" "k' = k1"
      using assms(4) unfolding ln_normalize_unix [OF unix t] by auto
    have "sock_result_ok opened ?k = sock_result_ok opened k" "sock_all_or_nothing opened ?k = sock_all_or_nothing opened k"
      by (simp_all add: fun_eq_iff sock_result_ok_def sock_all_or_nothing_def assms(2))
    then show ?thesis using udsSocket_opened [OF assms(1,3)] t r by (metis (no_types, lifting))
  next
    case other
    then have "ln_normalize env ln k = (Some ErrUnsupportedProtocol, ln, k)"
      by (simp only: ln_normalize_def if_False)
    then show ?thesis using assms(4) by (auto simp: sock_result_ok_def sock_all_or_nothing_def)
  qed
  then show "sock_result_ok opened k ((ln_fd ln', ln_addr ln', err), k')"
    and "only_connect_in_progress (ne_sys env) \<Longrightarrow> opts_calm (ln_sockOpts ln) \<Longrightarrow>
      sock_all_or_nothing opened k ((ln_fd ln', ln_addr ln', err), k')"
    by blast+
qed

text \<open>
  C19: no descriptor leaks from a failed start. For every network, address and options, and
  every kernel that keeps the documented laws of its calls, of which only \<open>connect\<close> answers
  \<open>EINPROGRESS\<close>: when \<open>initListener\<close> succeeds, exactly one descriptor has been opened, the one
  in the listener, which was not open before; when it fails, at whatever step, the open
  descriptors are those from before. Over a kernel whose other calls answer \<open>EINPROGRESS\<close> too,
  a start that fails with this error may leave the listener's new descriptor open, and no other.
\<close>

theorem initListener_leaks_nothing:
  assumes "fd_laws (ne_sys env) opened" and "\<And>k a. opened (ne_removeAll env k a) = opened k"
  shows "case initListener env network addr options k of (err, ln, k') \<Rightarrow>
    (case err of
       None \<Rightarrow> ln_fd ln \<notin> opened k \<and> opened k' = insert (ln_fd ln) (opened k)
     | Some e \<Rightarrow> opened k' = opened k \<or> in_progress e \<and> ln_fd ln \<notin> opened k \<and> opened k' = insert (ln_fd ln) (opened k)) \<and>
    (only_connect_in_progress (ne_sys env) \<and> table_calm (ne_addrs env) \<and> err \<noteq> None \<longrightarrow> opened k' = opened k)"
proof -
  define ln where "ln = \<lparr>ln_fd = 0, ln_addr = None, ln_address = addr, ln_network = network,
      ln_sockOpts = listener_opts env network addr options, ln_closed = False\<rparr>"
  obtain err ln' k' where i: "initListener env network addr options k = (err, ln', k')" "ln_normalize env ln k = (err, ln', k')"
    by (cases "initListener env network addr options k") (auto simp: initListener_def ln_def)
  have "opts_laws (ln_sockOpts ln) opened" using listener_opts_laws [OF assms(1)] by (simp add: ln_def)
  note f = ln_normalize_fds [OF assms this i(2)]
  have "opened k' = opened k" if "only_connect_in_progress (ne_sys env)" "table_calm (ne_addrs env)" "err \<noteq> None"
    using f(2) [OF that(1)] listener_opts_calm [OF that(1,2)] that(3) by (auto simp: ln_def sock_all_or_nothing_def)
  then show ?thesis using f(1) i(1) by (auto simp: sock_result_ok_def split: option.splits)
qed

text \<open>The witness: a kernel that counts descriptors and refuses \<open>SO_REUSEPORT\<close>.\<close>

definition toy_sys :: "(int \<times> int set) sock_sys" where
  "toy_sys = \<lparr>ss_socket = (\<lambda>(n, s) fam ty. (n, None, (n + 1, insert n s))),
     ss_close = (\<lambda>(n, s) fd. (None, (n, s - {fd}))),
     ss_bind = (\<lambda>k fd sa. (None, k)), ss_listen = (\<lambda>k fd b. (None, k)), ss_connect = (\<lambda>k fd sa. (None, k)),
     ss_setopt = (\<lambda>k fd l n v. (if n = SO_REUSEPORT then Some (Errno 92) else None, k))\<rparr>"

definition toy_env :: "(int \<times> int set) net_env" where
  "toy_env = \<lparr>ne_sys = toy_sys, ne_ifByName = (\<lambda>_. None), ne_addrs = (\<lambda>_. Inr []),
     ne_resolveTCP = (\<lambda>p a. Inr ([127, 0, 0, 1], 80, [])), ne_resolveUDP = (\<lambda>p a. Inr ([127, 0, 0, 1], 80, [])),
     ne_resolveUnix = (\<lambda>p a. Inr (a, p)), ne_backlog = 128, ne_removeAll = (\<lambda>k a. k)\<rparr>"

definition toy_opened :: "int \<times> int set \<Rightarrow> int set" where
  "toy_opened k = snd k \<inter> {..<fst k}"

lemma toy_laws: "fd_laws (ne_sys toy_env) toy_opened"
  by (auto simp: fd_laws_def toy_env_def toy_sys_def toy_opened_def)

lemma toy_calm: "only_connect_in_progress (ne_sys toy_env)" "table_calm (ne_addrs toy_env)"
  by (simp_all add: only_connect_in_progress_def table_calm_def toy_env_def toy_sys_def calm_err_def in_progress_def)

theorem initListener_leaks_nothing_witness:
  "case initListener toy_env ''tcp'' ''localhost:80'' (new_Options\<lparr>op_ReusePort := True\<rparr>) (7, {5}) of
    (err, ln, k') \<Rightarrow> err \<noteq> None \<and> toy_opened k' = toy_opened (7, {5})"
proof -
  have "fst (initListener toy_env ''tcp'' ''localhost:80'' (new_Options\<lparr>op_ReusePort := True\<rparr>) (7, {5})) = Some (SyscallError ''setsockopt'' (Errno 92))"
    by code_simp
  moreover have "\<And>k a. toy_opened (ne_removeAll toy_env k a) = toy_opened k" by (simp add: toy_env_def)
  ultimately show ?thesis
    using initListener_leaks_nothing [OF toy_laws, where network = "''tcp''" and addr = "''localhost:80''"
        and options = "new_Options\<lparr>op_ReusePort := True\<rparr>" and k = "(7, {5})"] toy_calm
    by (auto split: prod.splits)
qed

end
