(* ===== verification/Engine.thy ===== *)
theory Engine
  imports FramingCorrect Listener "HOL-Library.AList"
begin

text \<open>
  \<open>engine_unix.go\<close> and \<open>conn_matrix.go\<close>: the table of connections and the server's
  handling of poller events. The application's handler is seen through its calls, which the
  server records with the descriptor they are about; its answer to \<open>OnOpen\<close> is a function
  of the environment.
\<close>

section \<open>The table of connections\<close>

record 'c connMatrix =
  connMap :: "(int \<times> 'c) list"

definition cm_init :: "'c connMatrix" where
  "cm_init = \<lparr>connMap = []\<rparr>"

text \<open>\<open>iterate\<close> drops the entries for which the function answers false.\<close>

fun iterate_map :: "('c \<Rightarrow> (bool \<times> 'c) option) \<Rightarrow> (int \<times> 'c) list \<Rightarrow> (int \<times> 'c) list option" where
  "iterate_map f [] = Some []"
| "iterate_map f ((k, c) # m) =
     do { (keep, c) \<leftarrow> f c; m \<leftarrow> iterate_map f m; Some (if keep then (k, c) # m else m) }"

definition cm_iterate :: "('c \<Rightarrow> (bool \<times> 'c) option) \<Rightarrow> 'c connMatrix \<Rightarrow> 'c connMatrix option" where
  "cm_iterate f cm = map_option (\<lambda>m. \<lparr>connMap = m\<rparr>) (iterate_map f (connMap cm))"

definition cm_loadCount :: "'c connMatrix \<Rightarrow> int" where
  "cm_loadCount cm = int (length (connMap cm))"

definition cm_addConn :: "'c connMatrix \<Rightarrow> int \<Rightarrow> 'c \<Rightarrow> 'c connMatrix" where
  "cm_addConn cm fd c = cm\<lparr>connMap := AList.update fd c (connMap cm)\<rparr>"

definition cm_delConn :: "'c connMatrix \<Rightarrow> int \<Rightarrow> 'c connMatrix" where
  "cm_delConn cm fd = cm\<lparr>connMap := AList.delete fd (connMap cm)\<rparr>"

definition cm_getConn :: "'c connMatrix \<Rightarrow> int \<Rightarrow> 'c option" where
  "cm_getConn cm fd = map_of (connMap cm) fd"

text \<open>\<open>ConnInfo\<close> without its printing: whether the connection still has a descriptor.\<close>

definition conn_ConnInfo :: "conn \<Rightarrow> (bool \<times> conn) option" where
  "conn_ConnInfo c =
     (if c_sysfd c \<le> 0 then Some (False, c)
      else
        (case (if er_Buffered (c_in c) > 0 then conn_Peek c (-1) else Some ([], None)) of
           None \<Rightarrow> None
         | Some (_, Some e) \<Rightarrow> Some (True, c)
         | Some (_, None) \<Rightarrow>
             do {
               c \<leftarrow> c_lock c;
               ob \<leftarrow> (if eb_Buffered (c_out c) > 0 then map_option snd (eb_Peek (c_out c) (-1)) else Some (c_out c));
               Some (True, c_unlock (c\<lparr>c_out := ob\<rparr>))
             }))"

section \<open>The server\<close>

record 'h server =
  sv_PollFd :: int
  sv_dec :: "('h header \<times> 'h) option"
  sv_opts :: options
  sv_inShutdown :: int
  sv_lnfd :: int
  sv_conns :: "conn connMatrix"
  sv_calls :: "(int \<times> call) list"

record 'k srv_env =
  se_sys :: "'k sys"
  se_accept :: "'k \<Rightarrow> int \<Rightarrow> (int \<times> sockaddr \<times> goerror option) \<times> 'k"
  se_nonblock :: "'k \<Rightarrow> int \<Rightarrow> goerror option \<times> 'k"
  se_ifByIndex :: "nat \<Rightarrow> string option"
  se_onOpen :: "int \<Rightarrow> byte list \<times> bool"

definition srv_isInShutdown :: "'h server \<Rightarrow> bool" where
  "srv_isInShutdown sv \<longleftrightarrow> sv_inShutdown sv = 1"

text \<open>What a handler is told.\<close>

definition sv_call :: "int \<Rightarrow> call list \<Rightarrow> 'h server \<Rightarrow> 'h server" where
  "sv_call fd cs sv = sv\<lparr>sv_calls := sv_calls sv @ map (\<lambda>c. (fd, c)) cs\<rparr>"

text \<open>The error branch of \<open>eventWrite\<close> and \<open>eventRead\<close>.\<close>

definition srv_drop ::
  "'k srv_env \<Rightarrow> world \<Rightarrow> 'k \<Rightarrow> 'h server \<Rightarrow> int \<Rightarrow> conn \<Rightarrow> (goerror option \<times> world \<times> 'k \<times> 'h server) option" where
  "srv_drop env w k sv fd c =
     do {
       let sv = sv_call fd [OnClose] sv;
       let sv = sv\<lparr>sv_conns := cm_delConn (sv_conns sv) (c_sysfd c)\<rparr>;
       (_, w, k, _) \<leftarrow> conn_Close (se_sys env) w k c;
       Some (None, w, k, sv)
     }"

definition srv_eventWrite ::
  "'k srv_env \<Rightarrow> world \<Rightarrow> 'k \<Rightarrow> 'h server \<Rightarrow> int \<Rightarrow> conn \<Rightarrow> (goerror option \<times> world \<times> 'k \<times> 'h server) option" where
  "srv_eventWrite env w k sv fd c =
     do {
       (err, w, k, c) \<leftarrow> conn_WriteFlush (se_sys env) w k c;
       if err \<noteq> None then srv_drop env w k sv fd c
       else Some (None, w, k, sv\<lparr>sv_conns := cm_addConn (sv_conns sv) fd c\<rparr>)
     }"

definition srv_eventRead ::
  "'k srv_env \<Rightarrow> world \<Rightarrow> 'k \<Rightarrow> 'h server \<Rightarrow> int \<Rightarrow> conn \<Rightarrow> (goerror option \<times> world \<times> 'k \<times> 'h server) option" where
  "srv_eventRead env w k sv fd c =
     do {
       (err, w, k, c) \<leftarrow> conn_eventRead (se_sys env) w k c;
       if err \<noteq> None then srv_drop env w k sv fd c
       else
         (case sv_dec sv of
            Some d \<Rightarrow>
              do {
                (ms, w, ib) \<leftarrow> decode_loop (fst d) (snd d) w (c_in c) [];
                let sv = sv\<lparr>sv_conns := cm_addConn (sv_conns sv) fd (c\<lparr>c_in := ib\<rparr>)\<rparr>;
                Some (None, w, k, sv_call fd (map (\<lambda>m. OnTraffic (fst m) (snd m)) ms) sv)
              }
          | None \<Rightarrow>
              do {
                (data, err) \<leftarrow> conn_Peek c (-1);
                let sv = sv\<lparr>sv_conns := cm_addConn (sv_conns sv) fd c\<rparr>;
                Some (None, w, k, if err \<noteq> None then sv else sv_call fd [OnReceive data] sv)
              })
     }"

definition srv_accept ::
  "'k srv_env \<Rightarrow> world \<Rightarrow> 'k \<Rightarrow> 'h server \<Rightarrow> (goerror option \<times> world \<times> 'k \<times> 'h server) option" where
  "srv_accept env w k sv =
     (case se_accept env k (sv_lnfd sv) of
        ((nfd, sa, Some e), k) \<Rightarrow> (case s_close (se_sys env) k nfd of (err, k) \<Rightarrow> Some (err, w, k, sv))
      | ((nfd, sa, None), k) \<Rightarrow>
          (case se_nonblock env k nfd of
             (Some e, k) \<Rightarrow> Some (NewSyscallError ''fcntl nonblock'' (Some e), w, k, sv)
           | (None, k) \<Rightarrow>
               do {
                 (remoteAddr, pool) \<leftarrow> SockaddrToTCPOrUnixAddr (se_ifByIndex env) (w_bs w) sa;
                 let w = w\<lparr>w_bs := pool\<rparr>;
                 (c, w) \<leftarrow> newTCPConn w (sv_PollFd sv) nfd remoteAddr 1024;
                 let (_, k) = AddRead (s_ctl (se_sys env)) (c_pa c) k;
                 let sv = sv_call nfd [OnOpen] sv;
                 case se_onOpen env nfd of (out, action) \<Rightarrow>
                   if \<not> action then
                     do {
                       let sv = sv_call nfd [OnClose] sv;
                       (_, w, k, _) \<leftarrow> conn_Close (se_sys env) w k c;
                       Some (None, w, k, sv)
                     }
                   else if length out > 0 then
                     do {
                       (_, _, w, k, c) \<leftarrow> conn_Write (se_sys env) w k c out;
                       Some (None, w, k, sv\<lparr>sv_conns := cm_addConn (sv_conns sv) nfd c\<rparr>)
                     }
                   else Some (None, w, k, sv\<lparr>sv_conns := cm_addConn (sv_conns sv) nfd c\<rparr>)
               }))"

text \<open>The callback the poller runs for every event.\<close>

definition srv_Callback ::
  "'k srv_env \<Rightarrow> int \<Rightarrow> 32 word \<Rightarrow> world \<times> 'k \<times> 'h server \<Rightarrow> (goerror option \<times> world \<times> 'k \<times> 'h server) option" where
  "srv_Callback env fd ev s =
     (case s of (w, k, sv) \<Rightarrow>
        if fd \<noteq> sv_lnfd sv then
          (case cm_getConn (sv_conns sv) fd of
             None \<Rightarrow> Some (None, w, k, sv)
           | Some c \<Rightarrow>
               if and ev OutEvents \<noteq> 0 then srv_eventWrite env w k sv fd c
               else if and ev InEvents \<noteq> 0 then srv_eventRead env w k sv fd c
               else Some (None, w, k, sv))
        else srv_accept env w k sv)"

text \<open>Events in the order the poller hands them over.\<close>

fun srv_events ::
  "'k srv_env \<Rightarrow> (int \<times> 32 word) list \<Rightarrow> world \<times> 'k \<times> 'h server \<Rightarrow> (world \<times> 'k \<times> 'h server) option" where
  "srv_events env [] s = Some s"
| "srv_events env ((fd, ev) # evs) s = do { (_, s) \<leftarrow> srv_Callback env fd ev s; srv_events env evs s }"

section \<open>Starting\<close>

text \<open>
  \<open>Start\<close> opens the listener and the poller and polls until an error; the deferred close
  of the listener runs on every way out after the listener is open. The ticker goroutine only
  prints.
\<close>

record 'k start_env =
  st_net :: "'k net_env"
  st_srv :: "'k srv_env"
  st_epoll_create :: "'k \<Rightarrow> int \<times> goerror option \<times> 'k"
  st_wait :: "'k epoll_wait"

text \<open>The wait on the kernel part of the polled state.\<close>

definition lift_wait :: "'k epoll_wait \<Rightarrow> (world \<times> 'k \<times> 'h server) epoll_wait" where
  "lift_wait wait s fd evs ms =
     (case s of (w, k, sv) \<Rightarrow> case wait k fd evs ms of (n, e, evs, k) \<Rightarrow> (n, e, evs, (w, k, sv)))"

definition srv_Start ::
  "'k start_env \<Rightarrow> string \<Rightarrow> string \<Rightarrow> world \<Rightarrow> 'k \<Rightarrow> 'h server \<Rightarrow> (goerror option \<times> world \<times> 'k \<times> 'h server) option" where
  "srv_Start env network addr w k sv =
     (case initListener (st_net env) network addr (sv_opts sv) k of
        (Some e, ln, k) \<Rightarrow> Some (Some e, w, k, sv\<lparr>sv_lnfd := ln_fd ln\<rparr>)
      | (None, ln, k) \<Rightarrow>
          let sv = sv\<lparr>sv_lnfd := ln_fd ln\<rparr>;
              bye = (\<lambda>err w k sv. Some (err, w, snd (ln_close (st_net env) ln k), sv))
          in
          (case st_epoll_create env k of
             (pfd, Some e, k) \<Rightarrow> bye (Some e) w k (sv\<lparr>sv_PollFd := pfd\<rparr>)
           | (pfd, None, k) \<Rightarrow>
               let sv = sv\<lparr>sv_PollFd := pfd, sv_conns := cm_init\<rparr> in
               (case se_nonblock (st_srv env) k (ln_fd ln) of
                  (Some e, k) \<Rightarrow> bye (NewSyscallError ''fcntl nonblock'' (Some e)) w k sv
                | (None, k) \<Rightarrow>
                    (case AddRead (s_ctl (se_sys (st_srv env))) \<lparr>pa_PollFd = pfd, pa_FD = ln_fd ln\<rparr> k of
                       (Some e, k) \<Rightarrow> bye (Some e) w k sv
                     | (None, k) \<Rightarrow>
                         do {
                           (_, w, k, sv) \<leftarrow> Polling (lift_wait (st_wait env)) (srv_Callback (st_srv env)) pfd (w, k, sv);
                           let (_, k) = ClosePoller (s_close (se_sys (st_srv env))) pfd k;
                           bye (Some (OtherError ''server stop'')) w k sv
                         }))))"

end
