(* ===== verification/EngineCorrect.thy ===== *)
theory EngineCorrect
  imports Engine
begin

text \<open>
  The server as a whole: its table of connections stays consistent, the messages of a
  connection reach the handler in order across readable events, and the events after which
  data that has arrived is never handed over.
\<close>

section \<open>The table\<close>

definition table_ok :: "'h server \<Rightarrow> bool" where
  "table_ok sv \<longleftrightarrow> distinct (map fst (connMap (sv_conns sv))) \<and>
     (\<forall>fd c. cm_getConn (sv_conns sv) fd = Some c \<longrightarrow> c_sysfd c = fd \<and> \<not> c_locked c)"

lemma getConn_simps [simp]:
  "cm_getConn (cm_addConn cm fd c) = (cm_getConn cm)(fd \<mapsto> c)"
  "cm_getConn (cm_delConn cm fd) = (cm_getConn cm)(fd := None)"
  "cm_getConn cm_init = (\<lambda>_. None)"
  by (auto simp: cm_getConn_def cm_addConn_def cm_delConn_def cm_init_def update_conv' delete_conv')

lemma table_ok_call [simp]: "table_ok (sv_call fd cs sv) = table_ok sv"
  by (simp add: table_ok_def sv_call_def)

lemma sv_conns_call [simp]: "sv_conns (sv_call fd cs sv) = sv_conns sv" "sv_lnfd (sv_call fd cs sv) = sv_lnfd sv"
  "sv_dec (sv_call fd cs sv) = sv_dec sv" "sv_calls (sv_call fd cs sv) = sv_calls sv @ map (\<lambda>c. (fd, c)) cs"
  by (simp_all add: sv_call_def)

lemma table_ok_add:
  "table_ok sv \<Longrightarrow> c_sysfd c = fd \<Longrightarrow> \<not> c_locked c \<Longrightarrow> table_ok (sv\<lparr>sv_conns := cm_addConn (sv_conns sv) fd c\<rparr>)"
  by (auto simp: table_ok_def) (simp add: cm_addConn_def distinct_update)

lemma table_ok_del: "table_ok sv \<Longrightarrow> table_ok (sv\<lparr>sv_conns := cm_delConn (sv_conns sv) fd\<rparr>)"
  by (auto simp: table_ok_def) (simp add: cm_delConn_def distinct_delete)

lemma conn_WriteFlush_frame:
  "conn_WriteFlush sys w k c = Some (e, w', k', c') \<Longrightarrow> c_sysfd c' = c_sysfd c \<and> \<not> c_locked c'"
  by (auto simp: conn_WriteFlush_def bind_Some_conv c_lock_def c_unlock_def Let_def split_def split: if_splits)

lemma conn_eventRead_frame:
  "conn_eventRead sys w k c = Some (e, w', k', c') \<Longrightarrow> c_sysfd c' = c_sysfd c \<and> c_locked c' = c_locked c"
  by (auto simp: conn_eventRead_def bind_Some_conv)

lemma conn_Close_locked: "c_locked c \<Longrightarrow> conn_Close sys w k c = None"
  by (simp add: conn_Close_def c_lock_def)

lemma conn_Write_frame:
  "conn_Write sys w k c p = Some (n, e, w', k', c') \<Longrightarrow> c_sysfd c' = c_sysfd c \<and> \<not> c_locked c'"
  by (auto simp: conn_Write_def conn_Write_locked_def bind_Some_conv c_lock_def c_unlock_def Let_def conn_Close_locked
      split_def split: if_splits)

lemma newTCPConn_frame:
  "newTCPConn w pfd fd a cap = Some (c, w') \<Longrightarrow> c_sysfd c = fd \<and> \<not> c_locked c"
  by (auto simp: newTCPConn_def bind_Some_conv Let_def)

lemma srv_drop_table: "srv_drop env w k sv fd c = Some (e, w', k', sv') \<Longrightarrow> table_ok sv \<Longrightarrow> table_ok sv'"
  using table_ok_del [of "sv_call fd [OnClose] sv" "c_sysfd c"]
  by (auto simp: srv_drop_def bind_Some_conv Let_def)

lemma srv_eventWrite_table:
  "srv_eventWrite env w k sv fd c = Some (e, w', k', sv') \<Longrightarrow> table_ok sv \<Longrightarrow> c_sysfd c = fd \<Longrightarrow> table_ok sv'"
  by (auto simp: srv_eventWrite_def bind_Some_conv Let_def dest!: conn_WriteFlush_frame split: if_splits
      intro: srv_drop_table table_ok_add)

lemma srv_eventRead_table:
  "srv_eventRead env w k sv fd c = Some (e, w', k', sv') \<Longrightarrow> table_ok sv \<Longrightarrow> c_sysfd c = fd \<Longrightarrow> \<not> c_locked c \<Longrightarrow> table_ok sv'"
  by (auto simp: srv_eventRead_def bind_Some_conv Let_def table_ok_add dest!: conn_eventRead_frame
      split: if_splits option.splits intro: srv_drop_table)

lemma srv_accept_table:
  assumes "srv_accept env w k sv = Some (e, w', k', sv')" and "table_ok sv"
  shows "table_ok sv'"
proof -
  have a: "table_ok (sv_call fd cs sv\<lparr>sv_conns := cm_addConn (sv_conns sv) fd c\<rparr>)"
    if "c_sysfd c = fd" "\<not> c_locked c" for fd cs c
    using table_ok_add [of "sv_call fd cs sv" c fd] assms(2) that by simp
  show ?thesis using assms a
    by (auto simp: srv_accept_def bind_Some_conv Let_def split_def prod_eq_iff dest!: newTCPConn_frame conn_Write_frame
        split: option.splits if_splits)
qed

lemma srv_Callback_table:
  assumes "srv_Callback env fd ev (w, k, sv) = Some (e, w', k', sv')" and "table_ok sv"
  shows "table_ok sv'"
proof -
  have "c_sysfd c = fd \<and> \<not> c_locked c" if "cm_getConn (sv_conns sv) fd = Some c" for c
    using assms(2) that by (simp add: table_ok_def)
  then show ?thesis using assms
    by (auto simp: srv_Callback_def split: if_splits option.splits
        intro: srv_accept_table srv_eventRead_table srv_eventWrite_table)
qed

lemma srv_events_table:
  "srv_events env evs (w, k, sv) = Some (w', k', sv') \<Longrightarrow> table_ok sv \<Longrightarrow> table_ok sv'"
proof (induction evs arbitrary: w k sv)
  case (Cons x evs)
  obtain fd ev where x: "x = (fd, ev)" by (cases x)
  from Cons.prems(1) obtain e w1 k1 sv1 where s: "srv_Callback env fd ev (w, k, sv) = Some (e, w1, k1, sv1)"
      "srv_events env evs (w1, k1, sv1) = Some (w', k', sv')"
    by (auto simp: x bind_Some_conv)
  then show ?case using Cons.IH [OF s(2)] srv_Callback_table [OF s(1) Cons.prems(2)] by simp
qed simp


text \<open>The witness: a new connection is accepted.\<close>

definition quiet_env :: "kst srv_env" where
  "quiet_env = \<lparr>se_sys = kst_sys, se_accept = (\<lambda>k ln. ((7, SockaddrInet4 9000 [127, 0, 0, 1], None), k)),
     se_nonblock = (\<lambda>k fd. (None, k)), se_ifByIndex = (\<lambda>_. None), se_onOpen = (\<lambda>_. ([], True))\<rparr>"

definition server3 :: "defaultHead server" where
  "server3 = \<lparr>sv_PollFd = 5, sv_dec = Some (default_header, dd_NewHead), sv_opts = new_Options, sv_inShutdown = 0,
     sv_lnfd = 3, sv_conns = cm_init, sv_calls = []\<rparr>"

definition accepted :: conn where
  "accepted = \<lparr>c_sysfd = 7, c_locked = False, c_in = \<lparr>er_rb = None\<rparr>, c_out = zero_ebuf\<lparr>eb_max := 1024\<rparr>,
     c_laddr = None, c_remoteAddr = None, c_pa = \<lparr>pa_PollFd = 5, pa_FD = 7\<rparr>\<rparr>"

lemma newTCPConn_accepted: "newTCPConn empty_world 5 7 a 1024 = Some (accepted, empty_world)"
  by (simp add: newTCPConn_def eb_Reset_def zero_ebuf_def er_Reset_def ll_Reset_def ll_Reset_loop.simps
      ll_pop_def ll_empty_def accepted_def)

lemma accepted_ok: "er_ok (c_in accepted)" "er_contents (c_in accepted) = []" "eb_ok empty_world (c_out accepted)"
  "eb_IsEmpty (c_out accepted)" "\<not> c_locked accepted"
  using newTCPConn_spec [of empty_world 1024 5 7 None] newTCPConn_accepted
  by (auto simp: er_ok_def er_contents_def)

lemma accept_event:
  "srv_events quiet_env [(3, EPOLLIN)] (empty_world, k, server3\<lparr>sv_conns := cm_init\<rparr>) =
    Some (empty_world, k\<lparr>ks_ev := (ks_ev k)(7 \<mapsto> readEvents)\<rparr>,
      sv_call 7 [OnOpen] server3\<lparr>sv_conns := cm_addConn cm_init 7 accepted\<rparr>)"
  by (simp add: srv_Callback_def srv_accept_def quiet_env_def server3_def SockaddrToTCPOrUnixAddr_def
      newTCPConn_accepted AddRead_def kst_ctl_def NewSyscallError_def sv_call_def cm_init_def)
    (simp add: accepted_def)


section \<open>Messages across events\<close>

lemma EPOLLIN_only: "and EPOLLIN OutEvents = 0" "and EPOLLIN InEvents \<noteq> 0"
  by code_simp+

lemma srv_read_event:
  assumes "se_sys env = kst_sys" and "cm_getConn (sv_conns sv) fd = Some c" and "fd \<noteq> sv_lnfd sv"
    and "sv_dec sv = Some (default_header, dd_NewHead)"
    and "w_ok w" and "er_ok (c_in c)" and "Inl [] \<notin> set (ks_in k)" and "sock_result (ks_in k) = None"
    and "list_all (frame_ok default_header) fs"
    and "er_contents (c_in c) @ sock_bytes (ks_in k) @ later = frames_bytes default_header fs"
    and "length (frames_bytes default_header fs) \<le> rb_limit"
  shows "\<exists>ds rest w' k' sv' c'. srv_Callback env fd EPOLLIN (w, k, sv) = Some (None, w', k', sv') \<and> fs = ds @ rest \<and>
    sv_calls sv' = sv_calls sv @ map (\<lambda>f. (fd, traffic default_header f)) ds \<and>
    cm_getConn (sv_conns sv') fd = Some c' \<and> sv_lnfd sv' = sv_lnfd sv \<and> sv_dec sv' = sv_dec sv \<and> w_ok w' \<and>
    er_ok (c_in c') \<and> er_contents (c_in c') @ later = frames_bytes default_header rest \<and>
    starved default_header rest (er_contents (c_in c'))"
proof -
  have "length (er_contents (c_in c)) + length (sock_bytes (ks_in k)) \<le> rb_limit"
    using assms(11) unfolding assms(10) [symmetric] by simp
  from eventRead_loop_spec [OF assms(5,6) _ _ this, of "replicate 1024 0" "c_sysfd c"] assms(7,8) obtain w1 ib where
    r: "conn_eventRead kst_sys w k c = Some (None, w1, k\<lparr>ks_in := sock_left (ks_in k)\<rparr>, c\<lparr>c_in := ib\<rparr>)" "w_ok w1" "er_ok ib"
      "er_contents ib = er_contents (c_in c) @ sock_bytes (ks_in k)"
    by (auto simp: conn_eventRead_def sock_wf_def)
  obtain ds rest w2 ib2 where d: "fs = ds @ rest"
      "decode_loop default_header dd_NewHead w1 ib [] = Some (map (frame_message default_header) ds, w2, ib2)" "w_ok w2" "er_ok ib2"
      "er_contents ib2 @ later = frames_bytes default_header rest" "starved default_header rest (er_contents ib2)"
    using dh.decode_loop_spec [OF r(2,3) assms(9), of later "[]"] assms(10) r(4) by auto
  have "srv_Callback env fd EPOLLIN (w, k, sv) = Some (None, w2, k\<lparr>ks_in := sock_left (ks_in k)\<rparr>,
      sv_call fd (map (traffic default_header) ds) (sv\<lparr>sv_conns := cm_addConn (sv_conns sv) fd (c\<lparr>c_in := ib2\<rparr>)\<rparr>))"
    using assms(1-4) r(1) d(2) EPOLLIN_only traffic_message [of default_header ds]
    by (simp add: srv_Callback_def srv_eventRead_def del: map_map)
  moreover have "sv_calls (sv_call fd (map (traffic default_header) ds) (sv\<lparr>sv_conns := m\<rparr>)) =
      sv_calls sv @ map (\<lambda>f. (fd, traffic default_header f)) ds"
    "sv_conns (sv_call fd (map (traffic default_header) ds) (sv\<lparr>sv_conns := m\<rparr>)) = m"
    "sv_lnfd (sv_call fd (map (traffic default_header) ds) (sv\<lparr>sv_conns := m\<rparr>)) = sv_lnfd sv"
    "sv_dec (sv_call fd (map (traffic default_header) ds) (sv\<lparr>sv_conns := m\<rparr>)) = sv_dec sv" for m
    by (simp_all add: sv_call_def)
  moreover have "cm_getConn (cm_addConn (sv_conns sv) fd (c\<lparr>c_in := ib2\<rparr>)) fd = Some (c\<lparr>c_in := ib2\<rparr>)"
    by (simp add: cm_getConn_def cm_addConn_def update_conv')
  moreover have "c_in (c\<lparr>c_in := ib2\<rparr>) = ib2" by simp
  ultimately show ?thesis using d(1,3-6)
    by (intro exI [where x = ds] exI [where x = rest] exI [where x = w2]
      exI [where x = "k\<lparr>ks_in := sock_left (ks_in k)\<rparr>"]
      exI [where x = "sv_call fd (map (traffic default_header) ds)
        (sv\<lparr>sv_conns := cm_addConn (sv_conns sv) fd (c\<lparr>c_in := ib2\<rparr>)\<rparr>)"]
      exI [where x = "c\<lparr>c_in := ib2\<rparr>"]) simp
qed

text \<open>Readable events one after the other, with what the socket holds at each.\<close>

fun read_events ::
  "kst srv_env \<Rightarrow> int \<Rightarrow> sock list \<Rightarrow> world \<times> kst \<times> 'h server \<Rightarrow> (world \<times> kst \<times> 'h server) option" where
  "read_events env fd [] s = Some s"
| "read_events env fd (x # xs) (w, k, sv) =
     do { (_, s) \<leftarrow> srv_Callback env fd EPOLLIN (w, k\<lparr>ks_in := x\<rparr>, sv); read_events env fd xs s }"

lemma read_events_spec:
  assumes "se_sys env = kst_sys" and "cm_getConn (sv_conns sv) fd = Some c" and "fd \<noteq> sv_lnfd sv"
    and "sv_dec sv = Some (default_header, dd_NewHead)" and "w_ok w" and "er_ok (c_in c)"
    and "\<forall>x \<in> set xs. Inl [] \<notin> set x \<and> sock_result x = None" and "list_all (frame_ok default_header) fs"
    and "er_contents (c_in c) @ concat (map sock_bytes xs) = frames_bytes default_header fs"
    and "length (frames_bytes default_header fs) \<le> rb_limit" and "starved default_header fs (er_contents (c_in c))"
  shows "\<exists>w' k' sv'. read_events env fd xs (w, k, sv) = Some (w', k', sv') \<and>
    sv_calls sv' = sv_calls sv @ map (\<lambda>f. (fd, traffic default_header f)) fs"
  using assms
proof (induction xs arbitrary: w k sv c fs)
  case Nil
  then have "fs = []" using starved_complete [of default_header fs] by simp
  then show ?case by simp
next
  case (Cons x xs)
  obtain ds rest w1 k1 sv1 c1 where e: "srv_Callback env fd EPOLLIN (w, k\<lparr>ks_in := x\<rparr>, sv) = Some (None, w1, k1, sv1)"
      "fs = ds @ rest" "sv_calls sv1 = sv_calls sv @ map (\<lambda>f. (fd, traffic default_header f)) ds"
      "cm_getConn (sv_conns sv1) fd = Some c1" "sv_lnfd sv1 = sv_lnfd sv" "sv_dec sv1 = sv_dec sv" "w_ok w1"
      "er_ok (c_in c1)" "er_contents (c_in c1) @ concat (map sock_bytes xs) = frames_bytes default_header rest"
      "starved default_header rest (er_contents (c_in c1))"
    using srv_read_event [OF Cons.prems(1-6), of "k\<lparr>ks_in := x\<rparr>" fs "concat (map sock_bytes xs)"] Cons.prems(7-10)
    by auto
  have "list_all (frame_ok default_header) rest" "length (frames_bytes default_header rest) \<le> rb_limit"
    using Cons.prems(8,10) e(2) by simp_all
  then show ?case
    using Cons.IH [OF Cons.prems(1) e(4) _ _ e(7,8) _ _ e(9) _ e(10), of k1] e Cons.prems(3,4,7) by simp
qed

text \<open>
  C3: the server delivers the messages. For every sequence of frames with announced, non-empty
  bodies, however the stream is spread over readable events, none of which is its end, and within
  an event over chunks and interruptions: the events return, and the handler has been called once for every frame,
  in order, with its header and its body.
\<close>

theorem server_delivers_every_frame:
  assumes "se_sys env = kst_sys" and "cm_getConn (sv_conns sv) fd = Some c" and "fd \<noteq> sv_lnfd sv"
    and "sv_dec sv = Some (default_header, dd_NewHead)" and "w_ok w" and "er_ok (c_in c)" and "er_contents (c_in c) = []"
    and "\<forall>x \<in> set xs. Inl [] \<notin> set x \<and> sock_result x = None" and "list_all (frame_ok default_header) fs"
    and "concat (map sock_bytes xs) = frames_bytes default_header fs" and "length (concat (map sock_bytes xs)) \<le> rb_limit"
  shows "\<exists>w' k' sv'. read_events env fd xs (w, k, sv) = Some (w', k', sv') \<and>
    sv_calls sv' = sv_calls sv @ map (\<lambda>f. (fd, traffic default_header f)) fs"
proof -
  have "0 < length (frame_bytes default_header f)" for f
    using dh.length_Encode by (simp add: frame_bytes_def)
  then have "starved default_header fs []" by (cases fs) (simp_all add: starved_def)
  then show ?thesis using read_events_spec [OF assms(1-6,8,9)] assms(7,10,11) by simp
qed

definition server7 :: "defaultHead server" where
  "server7 = server3\<lparr>sv_conns := cm_addConn cm_init 7 accepted\<rparr>"

lemma server7_simps [simp]: "sv_lnfd server7 = 3" "sv_dec server7 = Some (default_header, dd_NewHead)"
  "cm_getConn (sv_conns server7) = [7 \<mapsto> accepted]" "sv_calls server7 = []"
  by (simp_all add: server7_def) (simp_all add: server3_def)

theorem server_delivers_every_frame_witness:
  "\<exists>w' k' sv'. read_events quiet_env 7
      [[Inl [1, 0, 0, 0, 9], Inr EAGAIN], [Inl [0, 0, 0, 65, 1, 0], Inr EINTR, Inl [0, 0, 8, 0, 0, 0, 66], Inr EAGAIN]]
      (empty_world, slow_kernel, server7) = Some (w', k', sv') \<and>
    sv_calls sv' = sv_calls server7 @
      map (\<lambda>f. (7, traffic default_header f))
        [(\<lparr>dh_bodyLen = 1, dh_msgId = 9\<rparr>, [65]), (\<lparr>dh_bodyLen = 1, dh_msgId = 8\<rparr>, [66])]"
  by (rule server_delivers_every_frame [where c = accepted])
    (simp_all add: quiet_env_def accepted_ok frame_ok_def default_header_def dh_GetBodyLen_def frames_bytes_def
      frame_bytes_def dh_Encode_def le_put_4 rb_limit_def)

section \<open>Input that is never handed over\<close>

text \<open>A connection with nothing left to send closes, whatever the kernel answers.\<close>

lemma conn_Close_idle:
  assumes "eb_ok w (c_out c)" and "eb_IsEmpty (c_out c)" and "er_ok (c_in c)" and "\<not> c_locked c"
  shows "\<exists>e w' k' c'. conn_Close sys w k c = Some (e, w', k', c')"
proof -
  obtain w1 ib where d: "er_Done w (c_in c) = (w1, ib)" by (cases "er_Done w (c_in c)")
  have "w_ok w1" using er_Done_spec(1) [OF _ assms(3), of w] assms(1) d by (simp add: eb_ok_def)
  then have "eb_ok w1 (c_out c)" using assms(1) by (simp add: eb_ok_def)
  from eb_Release_spec [OF this] obtain w2 ob where "eb_Release w1 (c_out c) = Some (w2, ob)" by blast
  moreover have "conn_drain sys w k fd (c_out c) = Some (w, k, c_out c)" for fd
    using assms(2) by (subst conn_drain.simps) simp
  ultimately show ?thesis using assms(4) d
    by (simp add: conn_Close_def c_lock_def conn_release_def c_unlock_def Let_def split_def)
qed

lemma srv_drop_idle:
  assumes "eb_ok w (c_out c)" and "eb_IsEmpty (c_out c)" and "er_ok (c_in c)" and "\<not> c_locked c"
  shows "\<exists>w' k'. srv_drop env w k sv fd c =
    Some (None, w', k', (sv_call fd [OnClose] sv)\<lparr>sv_conns := cm_delConn (sv_conns sv) (c_sysfd c)\<rparr>)"
  using conn_Close_idle [OF assms, of "se_sys env" k] by (auto simp: srv_drop_def Let_def)

text \<open>
  C31: the last messages of a peer that closes are lost. When, on a connection with
  nothing left to send, the bytes that have arrived and the end of the stream (or an error) meet
  in one readable event, whatever complete frames these
  bytes and the inbound buffer hold, the handler is called once, with \<open>OnClose\<close>: no frame
  is handed over and the connection leaves the table.
\<close>

theorem end_of_stream_drops_input:
  assumes "se_sys env = kst_sys" and "cm_getConn (sv_conns sv) fd = Some c" and "fd \<noteq> sv_lnfd sv"
    and "c_sysfd c = fd \<and> \<not> c_locked c" and "er_ok (c_in c)" and "eb_ok w (c_out c)" and "eb_IsEmpty (c_out c)"
    and "Inl [] \<notin> set (ks_in k)" and "sock_result (ks_in k) \<noteq> None"
    and "length (er_contents (c_in c)) + length (sock_bytes (ks_in k)) \<le> rb_limit"
  shows "\<exists>w' k' sv'. srv_Callback env fd EPOLLIN (w, k, sv) = Some (None, w', k', sv') \<and>
    sv_calls sv' = sv_calls sv @ [(fd, OnClose)] \<and> cm_getConn (sv_conns sv') fd = None"
proof -
  have "w_ok w" using assms(6) by (simp add: eb_ok_def)
  from eventRead_loop_spec [OF this assms(5) _ _ assms(10), of "replicate 1024 0" "c_sysfd c"] assms(8) obtain w1 ib where
    r: "conn_eventRead kst_sys w k c = Some (sock_result (ks_in k), w1, k\<lparr>ks_in := sock_left (ks_in k)\<rparr>, c\<lparr>c_in := ib\<rparr>)"
      "w_ok w1" "er_ok ib"
    by (auto simp: conn_eventRead_def sock_wf_def)
  have "eb_ok w1 (c_out (c\<lparr>c_in := ib\<rparr>))" using r(2) assms(6) by (simp add: eb_ok_def)
  from srv_drop_idle [OF this, of env "k\<lparr>ks_in := sock_left (ks_in k)\<rparr>" sv fd] assms(4,7) r(3) obtain w2 k2 where
    "srv_drop env w1 (k\<lparr>ks_in := sock_left (ks_in k)\<rparr>) sv fd (c\<lparr>c_in := ib\<rparr>) =
      Some (None, w2, k2, (sv_call fd [OnClose] sv)\<lparr>sv_conns := cm_delConn (sv_conns sv) fd\<rparr>)" by auto
  then have "srv_Callback env fd EPOLLIN (w, k, sv) =
      Some (None, w2, k2, (sv_call fd [OnClose] sv)\<lparr>sv_conns := cm_delConn (sv_conns sv) fd\<rparr>)"
    using assms(1-3,9) r(1) EPOLLIN_only by (simp add: srv_Callback_def srv_eventRead_def)
  then show ?thesis by (simp add: sv_call_def)
qed

theorem end_of_stream_drops_input_witness:
  "\<exists>w' k' sv'. srv_Callback quiet_env 7 EPOLLIN
      (empty_world, slow_kernel\<lparr>ks_in := [Inl [1, 0, 0, 0, 9, 0, 0, 0, 65]]\<rparr>, server7) = Some (None, w', k', sv') \<and>
    sv_calls sv' = [(7, OnClose)] \<and> cm_getConn (sv_conns sv') 7 = None"
  using end_of_stream_drops_input [of quiet_env server7 7 accepted empty_world
      "slow_kernel\<lparr>ks_in := [Inl [1, 0, 0, 0, 9, 0, 0, 0, 65]]\<rparr>"] accepted_ok
  by (simp add: quiet_env_def rb_limit_def accepted_def)

text \<open>
  C32: a hang-up discards what has arrived. An event with an output or error bit is served
  before its input bit: with nothing to send, \<open>WriteFlush\<close> writes an empty slice, takes the
  count 0 for a reset, and the connection is closed with its input unread.
\<close>

theorem hangup_discards_input:
  assumes "se_sys env = kst_sys" and "cm_getConn (sv_conns sv) fd = Some c" and "fd \<noteq> sv_lnfd sv"
    and "c_sysfd c = fd \<and> \<not> c_locked c" and "er_ok (c_in c)" and "eb_ok w (c_out c)" and "eb_IsEmpty (c_out c)"
    and "ks_wr k = []" and "and ev OutEvents \<noteq> 0"
  shows "\<exists>w' k' sv'. srv_Callback env fd ev (w, k, sv) = Some (None, w', k', sv') \<and>
    sv_calls sv' = sv_calls sv @ [(fd, OnClose)] \<and> cm_getConn (sv_conns sv') fd = None"
proof -
  obtain iov ob where p: "eb_Peek (c_out c) (-1) = Some (iov, ob)" "eb_ok w ob"
      "eb_contents ob = eb_contents (c_out c)" "concat iov = take (length (concat iov)) (eb_contents (c_out c))"
    using eb_Peek_spec [OF assms(6), of "-1"] by blast
  have "eb_contents (c_out c) = []" using eb_obs(2) [OF assms(6)] assms(7) by simp
  then have "concat (take iovMax iov) = []" using concat_take_take [OF p(4), of iovMax] by simp
  then have w0: "kst_write k (c_sysfd c) (concat (take iovMax iov)) = (0, None, k)"
    using assms(8) by (simp add: kst_write_def)
  have f: "conn_WriteFlush kst_sys w k c = Some (Some ECONNRESET, w, k, c\<lparr>c_out := ob\<rparr>)"
    using conn_WriteFlush_call [OF _ p(1) w0, of w] assms(4) by (simp add: Let_def c_unlock_def)
  have "eb_IsEmpty ob" using eb_Peek_empty [OF assms(6) p(1)] assms(7) by simp
  from srv_drop_idle [of w "c\<lparr>c_out := ob\<rparr>" env k sv fd] this p(2) assms(4,5) obtain w2 k2 where
    "srv_drop env w k sv fd (c\<lparr>c_out := ob\<rparr>) =
      Some (None, w2, k2, (sv_call fd [OnClose] sv)\<lparr>sv_conns := cm_delConn (sv_conns sv) fd\<rparr>)" by auto
  then have "srv_Callback env fd ev (w, k, sv) =
      Some (None, w2, k2, (sv_call fd [OnClose] sv)\<lparr>sv_conns := cm_delConn (sv_conns sv) fd\<rparr>)"
    using assms(1-3,9) f by (simp add: srv_Callback_def srv_eventWrite_def)
  then show ?thesis by (simp add: sv_call_def)
qed

theorem hangup_discards_input_witness:
  "\<exists>w' k' sv'. srv_Callback quiet_env 7 (or EPOLLIN EPOLLHUP)
      (empty_world, slow_kernel\<lparr>ks_wr := []\<rparr>, server7) = Some (None, w', k', sv') \<and>
    sv_calls sv' = [(7, OnClose)] \<and> cm_getConn (sv_conns sv') 7 = None"
proof -
  have "and (or EPOLLIN EPOLLHUP) OutEvents \<noteq> (0 :: 32 word)" by code_simp
  then show ?thesis
    using hangup_discards_input [of quiet_env server7 7 accepted empty_world "slow_kernel\<lparr>ks_wr := []\<rparr>" "or EPOLLIN EPOLLHUP"] accepted_ok
    by (simp add: quiet_env_def accepted_def)
qed

end
