(* ===== verification/FdUnix.thy ===== *)
theory FdUnix
  imports ConnWrite
begin

text \<open>
  \<open>internal/netpoll/fd_unix.go\<close>: the descriptor type \<open>NetFD\<close>, whose operations repeat
  interrupted system calls, and the duplication of descriptors. The system calls are the
  functions of the record \<open>fd_sys\<close> on a kernel state; each answers its error, its other
  results (a buffer it fills among them) and the kernel afterwards.
\<close>

section \<open>System calls\<close>

type_synonym ('a, 'k) answer = "goerror option \<times> 'a \<times> 'k"

record ('st, 'k) fd_sys =
  fs_fcntl_dup :: "'k \<Rightarrow> int \<Rightarrow> (int, 'k) answer"
  fs_dup :: "'k \<Rightarrow> int \<Rightarrow> (int, 'k) answer"
  fs_cloexec :: "'k \<Rightarrow> int \<Rightarrow> 'k"
  fs_close :: "'k \<Rightarrow> int \<Rightarrow> (unit, 'k) answer"
  fs_nonblock :: "'k \<Rightarrow> int \<Rightarrow> bool \<Rightarrow> (unit, 'k) answer"
  fs_read :: "'k \<Rightarrow> int \<Rightarrow> byte list \<Rightarrow> (int \<times> byte list, 'k) answer"
  fs_pread :: "'k \<Rightarrow> int \<Rightarrow> byte list \<Rightarrow> int \<Rightarrow> (int \<times> byte list, 'k) answer"
  fs_readv :: "'k \<Rightarrow> int \<Rightarrow> byte list list \<Rightarrow> (int \<times> byte list list, 'k) answer"
  fs_recvfrom :: "'k \<Rightarrow> int \<Rightarrow> byte list \<Rightarrow> (int \<times> sockaddr option \<times> byte list, 'k) answer"
  fs_recvmsg :: "'k \<Rightarrow> int \<Rightarrow> byte list \<Rightarrow> byte list \<Rightarrow> int \<Rightarrow>
    (int \<times> int \<times> int \<times> sockaddr option \<times> byte list \<times> byte list, 'k) answer"
  fs_write :: "'k \<Rightarrow> int \<Rightarrow> byte list \<Rightarrow> (int, 'k) answer"
  fs_pwrite :: "'k \<Rightarrow> int \<Rightarrow> byte list \<Rightarrow> int \<Rightarrow> (int, 'k) answer"
  fs_writev :: "'k \<Rightarrow> int \<Rightarrow> byte list list \<Rightarrow> (int, 'k) answer"
  fs_sendto :: "'k \<Rightarrow> int \<Rightarrow> byte list \<Rightarrow> sockaddr \<Rightarrow> (unit, 'k) answer"
  fs_sendmsg :: "'k \<Rightarrow> int \<Rightarrow> byte list \<Rightarrow> byte list \<Rightarrow> sockaddr \<Rightarrow> (int, 'k) answer"
  fs_seek :: "'k \<Rightarrow> int \<Rightarrow> int \<Rightarrow> int \<Rightarrow> (int, 'k) answer"
  fs_readdirent :: "'k \<Rightarrow> int \<Rightarrow> byte list \<Rightarrow> (int \<times> byte list, 'k) answer"
  fs_fchmod :: "'k \<Rightarrow> int \<Rightarrow> 32 word \<Rightarrow> (unit, 'k) answer"
  fs_fchdir :: "'k \<Rightarrow> int \<Rightarrow> (unit, 'k) answer"
  fs_fstat :: "'k \<Rightarrow> int \<Rightarrow> ('st, 'k) answer"
  fs_shutdown :: "'k \<Rightarrow> int \<Rightarrow> int \<Rightarrow> (unit, 'k) answer"
  fs_fchown :: "'k \<Rightarrow> int \<Rightarrow> int \<Rightarrow> int \<Rightarrow> (unit, 'k) answer"
  fs_ftruncate :: "'k \<Rightarrow> int \<Rightarrow> int \<Rightarrow> (unit, 'k) answer"

text \<open>
  \<open>ignoringEINTR\<close> and \<open>ignoringEINTRIO\<close>: a call is repeated while it is interrupted.
  An interrupted call leaves the buffers it was given as they were. The loops that the
  source writes out in \<open>Pread\<close>, \<open>ReadFrom\<close>, \<open>ReadMsg\<close>, \<open>WriteTo\<close> and \<open>WriteMsg\<close> are
  this one.
\<close>

partial_function (option) ignoringEINTR :: "('k \<Rightarrow> ('a, 'k) answer) \<Rightarrow> 'k \<Rightarrow> ('a, 'k) answer option" where
  "ignoringEINTR fn k =
     (case fn k of (err, r, k) \<Rightarrow>
        if err \<noteq> Some EINTR then Some (err, r, k) else ignoringEINTR fn k)"

definition ignoringEINTRIO ::
  "('k \<Rightarrow> int \<Rightarrow> byte list \<Rightarrow> (int \<times> byte list, 'k) answer) \<Rightarrow> 'k \<Rightarrow> int \<Rightarrow> byte list \<Rightarrow> (int \<times> byte list, 'k) answer option" where
  "ignoringEINTRIO fn k fd p = ignoringEINTR (\<lambda>k. fn k fd p) k"

section \<open>Errors and helpers\<close>

definition ErrFileClosing :: goerror where
  "ErrFileClosing = OtherError ''use of closed file''"

definition ErrNetClosing :: goerror where
  "ErrNetClosing = OtherError ''use of closed network connection''"

definition errClosing :: "bool \<Rightarrow> goerror" where
  "errClosing isFile = (if isFile then ErrFileClosing else ErrNetClosing)"

fun consume :: "byte list list \<Rightarrow> int \<Rightarrow> byte list list" where
  "consume [] n = []"
| "consume (b # v) n =
     (if int (length b) > n then drop (nat n) b # v else consume v (n - int (length b)))"

section \<open>Duplicating a descriptor\<close>

definition dupCloseOnExecOld :: "('st, 'k) fd_sys \<Rightarrow> 'k \<Rightarrow> int \<Rightarrow> int \<times> string \<times> goerror option \<times> 'k" where
  "dupCloseOnExecOld sys k fd =
     (case fs_dup sys k fd of
        (Some e, newfd, k) \<Rightarrow> (-1, ''dup'', Some e, k)
      | (None, newfd, k) \<Rightarrow> (newfd, '''', None, fs_cloexec sys k newfd))"

text \<open>The flag \<open>tryDupCloexec\<close> goes in and comes out.\<close>

definition DupCloseOnExec ::
  "('st, 'k) fd_sys \<Rightarrow> 'k \<Rightarrow> int \<Rightarrow> int \<Rightarrow> int \<times> string \<times> goerror option \<times> int \<times> 'k" where
  "DupCloseOnExec sys k tryDupCloexec fd =
     (if tryDupCloexec = 1 then
        (case fs_fcntl_dup sys k fd of
           (None, r0, k) \<Rightarrow> (r0, '''', None, tryDupCloexec, k)
         | (Some e1, r0, k) \<Rightarrow>
             if e1 = EINVAL \<or> e1 = ENOSYS then
               (case dupCloseOnExecOld sys k fd of (r, m, e, k) \<Rightarrow> (r, m, e, 0, k))
             else (-1, ''fcntl'', Some e1, tryDupCloexec, k))
      else case dupCloseOnExecOld sys k fd of (r, m, e, k) \<Rightarrow> (r, m, e, tryDupCloexec, k))"

section \<open>NetFD\<close>

record net_fd =
  Sysfd :: int

definition NewNetFD :: "int \<Rightarrow> net_fd" where
  "NewNetFD sysfd = \<lparr>Sysfd = sysfd\<rparr>"

definition fd_Dup :: "('st, 'k) fd_sys \<Rightarrow> 'k \<Rightarrow> int \<Rightarrow> net_fd \<Rightarrow> int \<times> string \<times> goerror option \<times> int \<times> 'k" where
  "fd_Dup sys k tryDupCloexec fd = DupCloseOnExec sys k tryDupCloexec (Sysfd fd)"

definition fd_destroy :: "('st, 'k) fd_sys \<Rightarrow> 'k \<Rightarrow> net_fd \<Rightarrow> goerror option \<times> net_fd \<times> 'k" where
  "fd_destroy sys k fd = (case fs_close sys k (Sysfd fd) of (err, _, k) \<Rightarrow> (err, fd\<lparr>Sysfd := -1\<rparr>, k))"

definition fd_Close :: "('st, 'k) fd_sys \<Rightarrow> 'k \<Rightarrow> net_fd \<Rightarrow> goerror option \<times> net_fd \<times> 'k" where
  "fd_Close sys k fd = (case fs_close sys k (Sysfd fd) of (err, _, k) \<Rightarrow> (err, fd\<lparr>Sysfd := -1\<rparr>, k))"

definition fd_SetBlocking :: "('st, 'k) fd_sys \<Rightarrow> 'k \<Rightarrow> net_fd \<Rightarrow> (unit, 'k) answer" where
  "fd_SetBlocking sys k fd = fs_nonblock sys k (Sysfd fd) False"

definition maxRW :: int where
  "maxRW = 2 ^ 30"

text \<open>The part of the buffer a call is given; what is behind it stays.\<close>

definition rw_part :: "byte list \<Rightarrow> byte list \<times> byte list" where
  "rw_part p = (if int (length p) > maxRW then (take (nat maxRW) p, drop (nat maxRW) p) else (p, []))"

definition fd_Read :: "('st, 'k) fd_sys \<Rightarrow> 'k \<Rightarrow> net_fd \<Rightarrow> byte list \<Rightarrow> (int \<times> byte list, 'k) answer option" where
  "fd_Read sys k fd p =
     (if length p = 0 then Some (None, (0, p), k)
      else case rw_part p of (p, rest) \<Rightarrow>
        do {
          (err, (n, p), k) \<leftarrow> ignoringEINTRIO (fs_read sys) k (Sysfd fd) p;
          Some (err, (if err \<noteq> None then 0 else n, p @ rest), k)
        })"

definition fd_Pread ::
  "('st, 'k) fd_sys \<Rightarrow> 'k \<Rightarrow> net_fd \<Rightarrow> byte list \<Rightarrow> int \<Rightarrow> (int \<times> byte list, 'k) answer option" where
  "fd_Pread sys k fd p off =
     (case rw_part p of (p, rest) \<Rightarrow>
        do {
          (err, (n, p), k) \<leftarrow> ignoringEINTR (\<lambda>k. fs_pread sys k (Sysfd fd) p off) k;
          Some (err, (if err \<noteq> None then 0 else n, p @ rest), k)
        })"

definition fd_ReadFrom ::
  "('st, 'k) fd_sys \<Rightarrow> 'k \<Rightarrow> net_fd \<Rightarrow> byte list \<Rightarrow> (int \<times> sockaddr option \<times> byte list, 'k) answer option" where
  "fd_ReadFrom sys k fd p = ignoringEINTR (\<lambda>k. fs_recvfrom sys k (Sysfd fd) p) k"

definition fd_ReadMsg ::
  "('st, 'k) fd_sys \<Rightarrow> 'k \<Rightarrow> net_fd \<Rightarrow> byte list \<Rightarrow> byte list \<Rightarrow> int \<Rightarrow>
   (int \<times> int \<times> int \<times> sockaddr option \<times> byte list \<times> byte list, 'k) answer option" where
  "fd_ReadMsg sys k fd p oob flags = ignoringEINTR (\<lambda>k. fs_recvmsg sys k (Sysfd fd) p oob flags) k"

definition fd_Writev :: "('st, 'k) fd_sys \<Rightarrow> 'k \<Rightarrow> net_fd \<Rightarrow> byte list list \<Rightarrow> (int, 'k) answer" where
  "fd_Writev sys k fd iov = (if length iov = 0 then (None, 0, k) else fs_writev sys k (Sysfd fd) iov)"

definition fd_Readv :: "('st, 'k) fd_sys \<Rightarrow> 'k \<Rightarrow> net_fd \<Rightarrow> byte list list \<Rightarrow> (int \<times> byte list list, 'k) answer" where
  "fd_Readv sys k fd iov = (if length iov = 0 then (None, (0, iov), k) else fs_readv sys k (Sysfd fd) iov)"

text \<open>The end of the slice of one round of \<open>Write\<close>, and what \<open>Write\<close> does with the answer.\<close>

definition rw_max :: "byte list \<Rightarrow> int \<Rightarrow> int" where
  "rw_max p nn = (if int (length p) - nn > maxRW then nn + maxRW else int (length p))"

partial_function (option) fd_Write_loop ::
  "('st, 'k) fd_sys \<Rightarrow> 'k \<Rightarrow> int \<Rightarrow> byte list \<Rightarrow> int \<Rightarrow> (int, 'k) answer option" where
  "fd_Write_loop sys k fd p nn =
     do {
       v \<leftarrow> lview p nn (rw_max p nn);
       (err, n, k) \<leftarrow> ignoringEINTR (\<lambda>k. fs_write sys k fd v) k;
       let nn = (if n > 0 then nn + n else nn);
       if nn = int (length p) then Some (err, nn, k)
       else if err \<noteq> None then Some (err, nn, k)
       else if n = 0 then Some (Some ErrUnexpectedEOF, nn, k)
       else fd_Write_loop sys k fd p nn
     }"

definition fd_Write :: "('st, 'k) fd_sys \<Rightarrow> 'k \<Rightarrow> net_fd \<Rightarrow> byte list \<Rightarrow> (int, 'k) answer option" where
  "fd_Write sys k fd p = fd_Write_loop sys k (Sysfd fd) p 0"

partial_function (option) fd_Pwrite_loop ::
  "('st, 'k) fd_sys \<Rightarrow> 'k \<Rightarrow> int \<Rightarrow> byte list \<Rightarrow> int \<Rightarrow> int \<Rightarrow> (int, 'k) answer option" where
  "fd_Pwrite_loop sys k fd p off nn =
     do {
       v \<leftarrow> lview p nn (rw_max p nn);
       (case fs_pwrite sys k fd v (off + nn) of
          (err, n, k) \<Rightarrow>
            if err = Some EINTR then fd_Pwrite_loop sys k fd p off nn
            else do {
              let nn = (if n > 0 then nn + n else nn);
              if nn = int (length p) then Some (err, nn, k)
              else if err \<noteq> None then Some (err, nn, k)
              else if n = 0 then Some (Some ErrUnexpectedEOF, nn, k)
              else fd_Pwrite_loop sys k fd p off nn
            })
     }"

definition fd_Pwrite :: "('st, 'k) fd_sys \<Rightarrow> 'k \<Rightarrow> net_fd \<Rightarrow> byte list \<Rightarrow> int \<Rightarrow> (int, 'k) answer option" where
  "fd_Pwrite sys k fd p off = fd_Pwrite_loop sys k (Sysfd fd) p off 0"

definition fd_WriteTo :: "('st, 'k) fd_sys \<Rightarrow> 'k \<Rightarrow> net_fd \<Rightarrow> byte list \<Rightarrow> sockaddr \<Rightarrow> (int, 'k) answer option" where
  "fd_WriteTo sys k fd p sa =
     do {
       (err, _, k) \<leftarrow> ignoringEINTR (\<lambda>k. fs_sendto sys k (Sysfd fd) p sa) k;
       Some (err, if err \<noteq> None then 0 else int (length p), k)
     }"

definition fd_WriteMsg ::
  "('st, 'k) fd_sys \<Rightarrow> 'k \<Rightarrow> net_fd \<Rightarrow> byte list \<Rightarrow> byte list \<Rightarrow> sockaddr \<Rightarrow> (int \<times> int, 'k) answer option" where
  "fd_WriteMsg sys k fd p oob sa =
     do {
       (err, n, k) \<leftarrow> ignoringEINTR (\<lambda>k. fs_sendmsg sys k (Sysfd fd) p oob sa) k;
       Some (err, (n, if err \<noteq> None then 0 else int (length oob)), k)
     }"

definition fd_Seek :: "('st, 'k) fd_sys \<Rightarrow> 'k \<Rightarrow> net_fd \<Rightarrow> int \<Rightarrow> int \<Rightarrow> (int, 'k) answer" where
  "fd_Seek sys k fd offset whence = fs_seek sys k (Sysfd fd) offset whence"

definition fd_ReadDirent :: "('st, 'k) fd_sys \<Rightarrow> 'k \<Rightarrow> net_fd \<Rightarrow> byte list \<Rightarrow> (int \<times> byte list, 'k) answer option" where
  "fd_ReadDirent sys k fd buf =
     do {
       (err, (n, buf), k) \<leftarrow> ignoringEINTRIO (fs_readdirent sys) k (Sysfd fd) buf;
       Some (err, (if err \<noteq> None then 0 else n, buf), k)
     }"

definition fd_Fchmod :: "('st, 'k) fd_sys \<Rightarrow> 'k \<Rightarrow> net_fd \<Rightarrow> 32 word \<Rightarrow> (unit, 'k) answer option" where
  "fd_Fchmod sys k fd mode = ignoringEINTR (\<lambda>k. fs_fchmod sys k (Sysfd fd) mode) k"

definition fd_Fchdir :: "('st, 'k) fd_sys \<Rightarrow> 'k \<Rightarrow> net_fd \<Rightarrow> (unit, 'k) answer" where
  "fd_Fchdir sys k fd = fs_fchdir sys k (Sysfd fd)"

definition fd_Fstat :: "('st, 'k) fd_sys \<Rightarrow> 'k \<Rightarrow> net_fd \<Rightarrow> ('st, 'k) answer option" where
  "fd_Fstat sys k fd = ignoringEINTR (\<lambda>k. fs_fstat sys k (Sysfd fd)) k"

definition fd_WriteOnce :: "('st, 'k) fd_sys \<Rightarrow> 'k \<Rightarrow> net_fd \<Rightarrow> byte list \<Rightarrow> (int, 'k) answer option" where
  "fd_WriteOnce sys k fd p = ignoringEINTR (\<lambda>k. fs_write sys k (Sysfd fd) p) k"

text \<open>\<open>RawRead\<close> and \<open>RawWrite\<close> call the function until it answers true.\<close>

partial_function (option) fd_RawRead :: "('k \<Rightarrow> int \<Rightarrow> bool \<times> 'k) \<Rightarrow> 'k \<Rightarrow> net_fd \<Rightarrow> (goerror option \<times> 'k) option" where
  "fd_RawRead f k fd =
     (case f k (Sysfd fd) of (done, k) \<Rightarrow> if done then Some (None, k) else fd_RawRead f k fd)"

partial_function (option) fd_RawWrite :: "('k \<Rightarrow> int \<Rightarrow> bool \<times> 'k) \<Rightarrow> 'k \<Rightarrow> net_fd \<Rightarrow> (goerror option \<times> 'k) option" where
  "fd_RawWrite f k fd =
     (case f k (Sysfd fd) of (done, k) \<Rightarrow> if done then Some (None, k) else fd_RawWrite f k fd)"

definition fd_Shutdown :: "('st, 'k) fd_sys \<Rightarrow> 'k \<Rightarrow> net_fd \<Rightarrow> int \<Rightarrow> (unit, 'k) answer" where
  "fd_Shutdown sys k fd how = fs_shutdown sys k (Sysfd fd) how"

definition fd_Fchown :: "('st, 'k) fd_sys \<Rightarrow> 'k \<Rightarrow> net_fd \<Rightarrow> int \<Rightarrow> int \<Rightarrow> (unit, 'k) answer option" where
  "fd_Fchown sys k fd uid gid = ignoringEINTR (\<lambda>k. fs_fchown sys k (Sysfd fd) uid gid) k"

definition fd_Ftruncate :: "('st, 'k) fd_sys \<Rightarrow> 'k \<Rightarrow> net_fd \<Rightarrow> int \<Rightarrow> (unit, 'k) answer option" where
  "fd_Ftruncate sys k fd len = ignoringEINTR (\<lambda>k. fs_ftruncate sys k (Sysfd fd) len) k"

definition fd_RawControl :: "('k \<Rightarrow> int \<Rightarrow> 'k) \<Rightarrow> 'k \<Rightarrow> net_fd \<Rightarrow> goerror option \<times> 'k" where
  "fd_RawControl f k fd = (None, f k (Sysfd fd))"

end
