(* ===== verification/FdUnixCorrect.thy ===== *)
theory FdUnixCorrect
  imports FdUnix ScriptIO
begin

text \<open>
  What \<open>NetFD\<close> promises, against a kernel given by a script: \<open>Write\<close> writes everything or
  reports an error together with the count written, \<open>Pwrite\<close> and \<open>Pread\<close> agree on a
  file, \<open>consume\<close> drops a number of bytes, a duplicate is closed on exec.
\<close>

section \<open>A scripted kernel\<close>

text \<open>
  The script says how many bytes the successive calls transfer or which error they report;
  past it every call transfers all it is given. The kernel has an output stream and one file.
\<close>

record fkst =
  fk_script :: "(nat + goerror) list"
  fk_out :: "byte list"
  fk_file :: "byte list"

definition fk_count :: "fkst \<Rightarrow> nat \<Rightarrow> (int, fkst) answer" where
  "fk_count k n =
     (case fk_script k of
        [] \<Rightarrow> (None, int n, k)
      | Inl m # xs \<Rightarrow> (None, int (min m n), k\<lparr>fk_script := xs\<rparr>)
      | Inr e # xs \<Rightarrow> (Some e, -1, k\<lparr>fk_script := xs\<rparr>))"

definition fk_write :: "fkst \<Rightarrow> int \<Rightarrow> byte list \<Rightarrow> (int, fkst) answer" where
  "fk_write k fd p =
     (case fk_count k (length p) of (err, n, k) \<Rightarrow> (err, n, k\<lparr>fk_out := fk_out k @ take (nat n) p\<rparr>))"

definition file_put :: "byte list \<Rightarrow> nat \<Rightarrow> byte list \<Rightarrow> byte list" where
  "file_put d off p =
     (if p = [] then d else take off (d @ replicate (off - length d) 0) @ p @ drop (off + length p) d)"

definition fk_pwrite :: "fkst \<Rightarrow> int \<Rightarrow> byte list \<Rightarrow> int \<Rightarrow> (int, fkst) answer" where
  "fk_pwrite k fd p off =
     (if off < 0 then (Some EINVAL, -1, k)
      else case fk_count k (length p) of
        (err, n, k) \<Rightarrow> (err, n, k\<lparr>fk_file := file_put (fk_file k) (nat off) (take (nat n) p)\<rparr>))"

definition fk_pread :: "fkst \<Rightarrow> int \<Rightarrow> byte list \<Rightarrow> int \<Rightarrow> (int \<times> byte list, fkst) answer" where
  "fk_pread k fd p off =
     (if off < 0 then (Some EINVAL, (-1, p), k)
      else case fk_count k (min (length p) (length (fk_file k) - nat off)) of
        (err, n, k) \<Rightarrow> (err, (n, take (nat n) (drop (nat off) (fk_file k)) @ drop (nat n) p), k))"

text \<open>A script without errors: interruptions and transfers of at least one byte.\<close>

definition fk_calm :: "fkst \<Rightarrow> bool" where
  "fk_calm k \<longleftrightarrow> (\<forall>x \<in> set (fk_script k). x = Inr EINTR \<or> (\<exists>m > 0. x = Inl m))"

lemma fk_count_cases:
  obtains (moved) m xs where "fk_count k n = (None, int m, k\<lparr>fk_script := xs\<rparr>)" "m \<le> n"
      "set xs \<subseteq> set (fk_script k)" "length xs \<le> length (fk_script k)" "fk_calm k \<Longrightarrow> 0 < n \<Longrightarrow> 0 < m"
    | (failed) e xs where "fk_script k = Inr e # xs" "fk_count k n = (Some e, -1, k\<lparr>fk_script := xs\<rparr>)"
proof (cases "fk_script k")
  case Nil
  then show ?thesis using moved [of n "[]"] by (cases k) (simp add: fk_count_def)
next
  case (Cons x xs)
  then show ?thesis using moved [of "min (projl x) n" xs] failed
    by (cases x) (auto simp: fk_count_def fk_calm_def)
qed

lemma fk_calm_mono: "fk_calm k \<Longrightarrow> set (fk_script k') \<subseteq> set (fk_script k) \<Longrightarrow> fk_calm k'"
  by (auto simp: fk_calm_def)

section \<open>The writing loops\<close>

text \<open>
  What the loops of \<open>Write\<close> and \<open>Pwrite\<close> share: they call the kernel with at most
  \<open>maxRW\<close> of the bytes that are left, repeat an interrupted call, and go on after a short one.
  \<open>eff nn a\<close> is what storing the bytes \<open>a\<close> as the bytes from \<open>nn\<close> on does to the kernel.
\<close>

locale chunk_writer =
  fixes p :: "byte list" and call :: "fkst \<Rightarrow> byte list \<Rightarrow> nat \<Rightarrow> (int, fkst) answer"
    and eff :: "nat \<Rightarrow> byte list \<Rightarrow> fkst \<Rightarrow> fkst" and loop :: "fkst \<Rightarrow> int \<Rightarrow> (int, fkst) answer option"
  assumes call_eff: "call k v nn = (case fk_count k (length v) of (err, n, k) \<Rightarrow> (err, n, eff nn (take (nat n) v) k))"
    and eff_nil: "eff nn [] k = k"
    and eff_append: "eff (nn + length a) b (eff nn a k) = eff nn (a @ b) k"
    and eff_script: "eff nn a (k\<lparr>fk_script := s\<rparr>) = (eff nn a k)\<lparr>fk_script := s\<rparr>"
    and fk_script_eff: "fk_script (eff nn a k) = fk_script k"
    and step: "nn \<le> length p \<Longrightarrow> call k (take (nat maxRW) (drop nn p)) nn = (err, n, k') \<Longrightarrow>
      loop k (int nn) =
        (if err = Some EINTR then loop k' (int nn)
         else
           let nn' = (if n > 0 then int nn + n else int nn) in
           if nn' = int (length p) then Some (err, nn', k')
           else if err \<noteq> None then Some (err, nn', k')
           else if n = 0 then Some (Some ErrUnexpectedEOF, nn', k')
           else loop k' nn')"
begin

lemma loop_spec:
  assumes "nn \<le> length p"
  shows "\<exists>m err s. loop k (int nn) = Some (err, int m, (eff nn (take (m - nn) (drop nn p)) k)\<lparr>fk_script := s\<rparr>) \<and>
    nn \<le> m \<and> m \<le> length p \<and> (err = None \<longrightarrow> m = length p) \<and>
    (\<forall>e. err = Some e \<longrightarrow> e = ErrUnexpectedEOF \<or> e \<noteq> EINTR \<and> Inr e \<in> set (fk_script k)) \<and>
    (fk_calm k \<longrightarrow> err = None) \<and> set s \<subseteq> set (fk_script k)"
  using assms
proof (induction "length (fk_script k) + (length p - nn)" arbitrary: k nn rule: less_induct)
  case less
  let ?v = "take (nat maxRW) (drop nn p)"
  show ?case
  proof (cases rule: fk_count_cases [of k "length ?v", case_names moved failed])
    case (failed e xs)
    then have w: "call k ?v nn = (Some e, -1, k\<lparr>fk_script := xs\<rparr>)" by (simp add: call_eff eff_nil)
    have sub: "set xs \<subseteq> set (fk_script k)" using failed(1) by auto
    show ?thesis
    proof (cases "e = EINTR")
      case True
      have "loop k (int nn) = loop (k\<lparr>fk_script := xs\<rparr>) (int nn)" using step [OF less.prems w] True by simp
      then show ?thesis using less.hyps [of "k\<lparr>fk_script := xs\<rparr>" nn] less.prems failed(1) sub
          fk_calm_mono [of k "k\<lparr>fk_script := xs\<rparr>"] by (fastforce simp: eff_script)
    next
      case False
      then have "\<not> fk_calm k" using failed(1) by (auto simp: fk_calm_def)
      then show ?thesis using False less.prems failed(1) step [OF less.prems w] sub
        by (intro exI [of _ nn] exI [of _ "Some e"] exI [of _ xs]) (auto simp: eff_nil Let_def)
    qed
  next
    case (moved m xs)
    let ?k = "(eff nn (take m (drop nn p)) k)\<lparr>fk_script := xs\<rparr>"
    have tk: "take m ?v = take m (drop nn p)" using moved(2) by (simp add: min_absorb1)
    then have w: "call k ?v nn = (None, int m, ?k)" using moved(1) by (simp add: call_eff eff_script)
    have le: "nn + m \<le> length p" using moved(2) less.prems by simp linarith
    consider "nn + m = length p" | "m = 0" "nn < length p" | "0 < m" "nn + m < length p" using le by linarith
    then show ?thesis
    proof cases
      case 1
      then show ?thesis using step [OF less.prems w] moved(3)
        by (intro exI [of _ "nn + m"] exI [of _ None] exI [of _ xs]) (auto simp: Let_def)
    next
      case 2
      then have "\<not> fk_calm k" using moved(5) by (auto simp: maxRW_def)
      then show ?thesis using 2 step [OF less.prems w] moved(3)
        by (intro exI [of _ nn] exI [of _ "Some ErrUnexpectedEOF"] exI [of _ xs]) (auto simp: Let_def)
    next
      case 3
      have "length (fk_script ?k) = length xs" by simp
      moreover have "length p - (nn + m) < length p - nn" using 3 by linarith
      ultimately have ms: "length (fk_script ?k) + (length p - (nn + m)) < length (fk_script k) + (length p - nn)"
        using moved(4) by linarith
      have "loop k (int nn) = loop ?k (int (nn + m))" using 3 step [OF less.prems w] by (simp add: Let_def)
      moreover obtain i err s where i: "loop ?k (int (nn + m)) =
            Some (err, int i, (eff (nn + m) (take (i - (nn + m)) (drop (nn + m) p)) ?k)\<lparr>fk_script := s\<rparr>)"
          "nn + m \<le> i" "i \<le> length p" "err = None \<longrightarrow> i = length p"
          "\<forall>e. err = Some e \<longrightarrow> e = ErrUnexpectedEOF \<or> e \<noteq> EINTR \<and> Inr e \<in> set xs" "fk_calm ?k \<longrightarrow> err = None"
          "set s \<subseteq> set xs"
        using less.hyps [OF ms] 3 by auto
      moreover have "take (i - nn) (drop nn p) = take m (drop nn p) @ take (i - (nn + m)) (drop (nn + m) p)"
        using take_add [of m "i - (nn + m)" "drop nn p"] i(2) by (simp add: add.commute)
      moreover have "eff (nn + m) b (eff nn (take m (drop nn p)) k) = eff nn (take m (drop nn p) @ b) k" for b
        using eff_append [of nn "take m (drop nn p)" b k] le by (simp add: min_absorb2)
      moreover have "fk_calm k \<longrightarrow> fk_calm ?k" using moved(3) fk_calm_mono [of k ?k] by simp
      ultimately show ?thesis using moved(3)
        by (intro exI [of _ i] exI [of _ err] exI [of _ s]) (auto simp: eff_script)
    qed
  qed
qed

end

lemma lview_rw:
  assumes "nn \<le> length p"
  shows "lview p (int nn) (rw_max p (int nn)) = Some (take (nat maxRW) (drop nn p))"
  using assms by (auto simp: lview_def rw_max_def maxRW_def)

lemma fd_Write_step:
  assumes "nn \<le> length p" and "fs_write sys k fd (take (nat maxRW) (drop nn p)) = (err, n, k')"
  shows "fd_Write_loop sys k fd p (int nn) =
    (if err = Some EINTR then fd_Write_loop sys k' fd p (int nn)
     else
       let nn' = (if n > 0 then int nn + n else int nn) in
       if nn' = int (length p) then Some (err, nn', k')
       else if err \<noteq> None then Some (err, nn', k')
       else if n = 0 then Some (Some ErrUnexpectedEOF, nn', k')
       else fd_Write_loop sys k' fd p nn')"
proof (cases "err = Some EINTR")
  case True
  then show ?thesis using assms lview_rw [OF assms(1)]
    by (subst (1 2) fd_Write_loop.simps, subst ignoringEINTR.simps) simp
next
  case False
  then show ?thesis using assms lview_rw [OF assms(1)]
    by (subst fd_Write_loop.simps, subst ignoringEINTR.simps) (simp add: Let_def)
qed

lemma fd_Pwrite_step:
  assumes "nn \<le> length p" and "fs_pwrite sys k fd (take (nat maxRW) (drop nn p)) (off + int nn) = (err, n, k')"
  shows "fd_Pwrite_loop sys k fd p off (int nn) =
    (if err = Some EINTR then fd_Pwrite_loop sys k' fd p off (int nn)
     else
       let nn' = (if n > 0 then int nn + n else int nn) in
       if nn' = int (length p) then Some (err, nn', k')
       else if err \<noteq> None then Some (err, nn', k')
       else if n = 0 then Some (Some ErrUnexpectedEOF, nn', k')
       else fd_Pwrite_loop sys k' fd p off nn')"
  using assms lview_rw [OF assms(1)] by (subst fd_Pwrite_loop.simps) (simp add: Let_def)

lemma file_put_append: "file_put (file_put d off a) (off + length a) b = file_put d off (a @ b)"
proof (cases "a = [] \<or> b = []")
  case False
  define d1 where "d1 = take off (d @ replicate (off - length d) 0)"
  have l: "length d1 = off" by (simp add: d1_def)
  define d2 where "d2 = d1 @ a @ drop (off + length a) d"
  have d2: "file_put d off a = d2" using False by (simp add: file_put_def d2_def d1_def)
  have "take (off + length a) (d2 @ replicate (off + length a - length d2) 0) = d1 @ a" using l by (simp add: d2_def)
  moreover have "drop (off + length a + length b) d2 = drop (off + length a + length b) d"
    using l by (simp add: d2_def add.commute)
  ultimately show ?thesis using False by (simp add: d2) (simp add: file_put_def d1_def add.assoc)
qed (auto simp: file_put_def)

text \<open>A kernel whose calls are those of the script; the calls the loops do not make answer nothing.\<close>

definition file_sys :: "(unit, fkst) fd_sys" where
  "file_sys =
     \<lparr>fs_fcntl_dup = (\<lambda>k fd. (Some EINVAL, -1, k)), fs_dup = (\<lambda>k fd. (None, fd + 100, k)), fs_cloexec = (\<lambda>k fd. k),
      fs_close = (\<lambda>k fd. (None, (), k)), fs_nonblock = (\<lambda>k fd b. (None, (), k)),
      fs_read = (\<lambda>k fd p. (None, (0, p), k)), fs_pread = fk_pread, fs_readv = (\<lambda>k fd v. (None, (0, v), k)),
      fs_recvfrom = (\<lambda>k fd p. (None, (0, None, p), k)), fs_recvmsg = (\<lambda>k fd p ob fl. (None, (0, 0, 0, None, p, ob), k)),
      fs_write = fk_write, fs_pwrite = fk_pwrite, fs_writev = (\<lambda>k fd v. fk_write k fd (concat v)),
      fs_sendto = (\<lambda>k fd p sa. (None, (), k)), fs_sendmsg = (\<lambda>k fd p ob sa. (None, 0, k)),
      fs_seek = (\<lambda>k fd off wh. (None, off, k)), fs_readdirent = (\<lambda>k fd p. (None, (0, p), k)),
      fs_fchmod = (\<lambda>k fd m. (None, (), k)), fs_fchdir = (\<lambda>k fd. (None, (), k)), fs_fstat = (\<lambda>k fd. (None, (), k)),
      fs_shutdown = (\<lambda>k fd h. (None, (), k)), fs_fchown = (\<lambda>k fd u g. (None, (), k)),
      fs_ftruncate = (\<lambda>k fd n. (None, (), k\<lparr>fk_file := take (nat n) (fk_file k)\<rparr>))\<rparr>"

lemma file_sys_simps [simp]: "fs_write file_sys = fk_write" "fs_pwrite file_sys = fk_pwrite" "fs_pread file_sys = fk_pread"
  by (simp_all add: file_sys_def)

interpretation stream_writer: chunk_writer p "\<lambda>k v nn. fk_write k fd v" "\<lambda>nn a k. k\<lparr>fk_out := fk_out k @ a\<rparr>"
  "\<lambda>k nn. fd_Write_loop file_sys k fd p nn" for p fd
proof
  fix k k' :: fkst and v :: "byte list" and nn :: nat and err n
  show "fk_write k fd v = (case fk_count k (length v) of (err, n, k) \<Rightarrow> (err, n, k\<lparr>fk_out := fk_out k @ take (nat n) v\<rparr>))"
    by (simp add: fk_write_def)
next
  fix nn :: nat and k k' :: fkst and err n
  assume "nn \<le> length p" "fk_write k fd (take (nat maxRW) (drop nn p)) = (err, n, k')"
  then show "fd_Write_loop file_sys k fd p (int nn) =
        (if err = Some EINTR then fd_Write_loop file_sys k' fd p (int nn)
         else
           let nn' = (if n > 0 then int nn + n else int nn) in
           if nn' = int (length p) then Some (err, nn', k')
           else if err \<noteq> None then Some (err, nn', k')
           else if n = 0 then Some (Some ErrUnexpectedEOF, nn', k')
           else fd_Write_loop file_sys k' fd p nn')"
    by (intro fd_Write_step) simp_all
qed simp_all

interpretation file_writer: chunk_writer p "\<lambda>k v nn. fk_pwrite k fd v (int off + int nn)"
  "\<lambda>nn a k. k\<lparr>fk_file := file_put (fk_file k) (off + nn) a\<rparr>" "\<lambda>k nn. fd_Pwrite_loop file_sys k fd p (int off) nn" for p fd off
proof
  fix k :: fkst and v :: "byte list" and nn :: nat
  show "fk_pwrite k fd v (int off + int nn) = (case fk_count k (length v) of
      (err, n, k) \<Rightarrow> (err, n, k\<lparr>fk_file := file_put (fk_file k) (off + nn) (take (nat n) v)\<rparr>))"
    by (simp add: fk_pwrite_def nat_add_distrib)
next
  fix nn :: nat and k :: fkst
  show "k\<lparr>fk_file := file_put (fk_file k) (off + nn) []\<rparr> = k" by (simp add: file_put_def)
next
  fix nn :: nat and a b :: "byte list" and k :: fkst
  show "(k\<lparr>fk_file := file_put (fk_file k) (off + nn) a\<rparr>)
      \<lparr>fk_file := file_put (fk_file (k\<lparr>fk_file := file_put (fk_file k) (off + nn) a\<rparr>)) (off + (nn + length a)) b\<rparr> =
    k\<lparr>fk_file := file_put (fk_file k) (off + nn) (a @ b)\<rparr>"
    using file_put_append [of "fk_file k" "off + nn" a b] by (simp add: add.assoc)
next
  fix nn :: nat and k k' :: fkst and err n
  assume "nn \<le> length p" "fk_pwrite k fd (take (nat maxRW) (drop nn p)) (int off + int nn) = (err, n, k')"
  then show "fd_Pwrite_loop file_sys k fd p (int off) (int nn) =
        (if err = Some EINTR then fd_Pwrite_loop file_sys k' fd p (int off) (int nn)
         else
           let nn' = (if n > 0 then int nn + n else int nn) in
           if nn' = int (length p) then Some (err, nn', k')
           else if err \<noteq> None then Some (err, nn', k')
           else if n = 0 then Some (Some ErrUnexpectedEOF, nn', k')
           else fd_Pwrite_loop file_sys k' fd p (int off) nn')"
    by (intro fd_Pwrite_step) simp_all
qed simp_all

section \<open>Write\<close>

text \<open>
  C22: \<open>Write\<close> of a descriptor. Whatever the kernel does, the call returns, what reached the
  kernel is a prefix of the data as long as the count returned, an error is reported whenever
  the count is short, and it is never an interruption; a kernel that only interrupts and
  shortens the transfers gets all of the data without an error.
\<close>

theorem fd_Write_all_or_error:
  "\<exists>m err k'. fd_Write file_sys k fd p = Some (err, int m, k') \<and> m \<le> length p \<and>
    fk_out k' = fk_out k @ take m p \<and> (err = None \<longrightarrow> m = length p) \<and>
    (\<forall>e. err = Some e \<longrightarrow> e = ErrUnexpectedEOF \<or> e \<noteq> EINTR \<and> Inr e \<in> set (fk_script k)) \<and>
    (fk_calm k \<longrightarrow> err = None)"
proof -
  from stream_writer.loop_spec [of 0 p k "Sysfd fd"] obtain m err s where
    "fd_Write_loop file_sys k (Sysfd fd) p (int 0) =
        Some (err, int m, (k\<lparr>fk_out := fk_out k @ take (m - 0) (drop 0 p)\<rparr>)\<lparr>fk_script := s\<rparr>)"
      "m \<le> length p" "err = None \<longrightarrow> m = length p" "fk_calm k \<longrightarrow> err = None"
      "\<forall>e. err = Some e \<longrightarrow> e = ErrUnexpectedEOF \<or> e \<noteq> EINTR \<and> Inr e \<in> set (fk_script k)"
    by blast
  then show ?thesis unfolding fd_Write_def
    by (intro exI [of _ m] exI [of _ err] exI [of _ "k\<lparr>fk_out := fk_out k @ take m p, fk_script := s\<rparr>"]) simp
qed

definition slow_file :: fkst where
  "slow_file = \<lparr>fk_script = [Inl 2, Inr EINTR, Inl 1], fk_out = [], fk_file = [9]\<rparr>"

lemma slow_file_calm: "fk_calm slow_file"
  by (simp add: fk_calm_def slow_file_def)

theorem fd_Write_all_or_error_witness:
  "\<exists>k'. fd_Write file_sys slow_file (NewNetFD 4) [1, 2, 3, 4, 5] = Some (None, 5, k') \<and> fk_out k' = [1, 2, 3, 4, 5]"
  using fd_Write_all_or_error [of slow_file "NewNetFD 4" "[1, 2, 3, 4, 5]"] slow_file_calm
  by (auto simp: slow_file_def)

section \<open>Pwrite and Pread\<close>

lemma Pread_fk:
  assumes "fk_calm k" and "int (length q) \<le> maxRW" and "0 < length q" and "off + length q \<le> length (fk_file k)"
  shows "\<exists>m k'. fd_Pread file_sys k fd q (int off) =
      Some (None, (int m, take m (drop off (fk_file k)) @ drop m q), k') \<and> 0 < m \<and> m \<le> length q"
  using assms
proof (induction "length (fk_script k)" arbitrary: k rule: less_induct)
  case less
  have rw: "rw_part q = (q, [])" using less.prems(2) by (simp add: rw_part_def)
  have lq: "min (length q) (length (fk_file k) - off) = length q" using less.prems(4) by simp
  show ?case
  proof (cases rule: fk_count_cases [of k "length q", case_names moved failed])
    case (moved m xs)
    then have "0 < m" using less.prems(1,3) by simp
    moreover have "fd_Pread file_sys k fd q (int off) =
        Some (None, (int m, take m (drop off (fk_file k)) @ drop m q), k\<lparr>fk_script := xs\<rparr>)"
      using moved(1) rw lq by (simp add: fd_Pread_def ignoringEINTR.simps [of _ k] fk_pread_def)
    ultimately show ?thesis using moved(2) by blast
  next
    case (failed e xs)
    then have e: "e = EINTR" "fk_calm (k\<lparr>fk_script := xs\<rparr>)" using less.prems(1) by (auto simp: fk_calm_def)
    have "fd_Pread file_sys k fd q (int off) = fd_Pread file_sys (k\<lparr>fk_script := xs\<rparr>) fd q (int off)"
      using failed(2) rw lq e(1) by (simp add: fd_Pread_def ignoringEINTR.simps [of _ k] fk_pread_def)
    then show ?thesis using less.hyps [OF _ e(2)] failed(1) less.prems(2-4) by simp
  qed
qed

text \<open>
  C24: \<open>Pwrite\<close> and \<open>Pread\<close> agree. Over a kernel that only interrupts and shortens its
  transfers, \<open>Pwrite\<close> at any offset stores all of the data there (with the gap behind the old
  end filled with zeros and the rest of the file unchanged), and a \<open>Pread\<close> of that place then
  returns a prefix of the data, of the count it reports, which is not 0.
\<close>

theorem fd_Pwrite_Pread_roundtrip:
  assumes "fk_calm k" and "p \<noteq> []" and "length q = length p" and "int (length p) \<le> maxRW"
  shows "\<exists>k'. fd_Pwrite file_sys k fd p (int off) = Some (None, int (length p), k') \<and>
    fk_file k' = file_put (fk_file k) off p \<and>
    (\<exists>m k''. fd_Pread file_sys k' fd q (int off) = Some (None, (int m, take m p @ drop m q), k'') \<and> 0 < m \<and> m \<le> length p)"
proof -
  from file_writer.loop_spec [of 0 p k "Sysfd fd" off] obtain m err s where
    w: "fd_Pwrite_loop file_sys k (Sysfd fd) p (int off) (int 0) =
        Some (err, int m, (k\<lparr>fk_file := file_put (fk_file k) (off + 0) (take (m - 0) (drop 0 p))\<rparr>)\<lparr>fk_script := s\<rparr>)"
      "err = None \<longrightarrow> m = length p" "fk_calm k \<longrightarrow> err = None" "set s \<subseteq> set (fk_script k)"
    by blast
  define k' where "k' = k\<lparr>fk_file := file_put (fk_file k) off p, fk_script := s\<rparr>"
  have 1: "fd_Pwrite file_sys k fd p (int off) = Some (None, int (length p), k')"
    using w assms(1) by (simp add: fd_Pwrite_def k'_def)
  have f: "fk_file k' = take off (fk_file k @ replicate (off - length (fk_file k)) 0) @ p @ drop (off + length p) (fk_file k)"
    using assms(2) by (simp add: k'_def file_put_def)
  have t: "take m (drop off (fk_file k')) = take m p" if "m \<le> length p" for m using f that by simp
  have "fk_calm k'" using fk_calm_mono [OF assms(1), of k'] w(4) by (simp add: k'_def)
  moreover have "off + length q \<le> length (fk_file k')" using f assms(3) by simp
  ultimately obtain i k2 where "fd_Pread file_sys k' fd q (int off) =
      Some (None, (int i, take i (drop off (fk_file k')) @ drop i q), k2)" "0 < i" "i \<le> length q"
    using Pread_fk [of k' q off fd] assms by auto
  then show ?thesis using 1 t assms(3) by (intro exI [of _ k'] conjI exI [of _ i] exI [of _ k2]) (simp_all add: k'_def)
qed

theorem fd_Pwrite_Pread_roundtrip_witness:
  "\<exists>k'. fd_Pwrite file_sys slow_file (NewNetFD 4) [1, 2, 3] (int 2) = Some (None, 3, k') \<and>
    fk_file k' = [9, 0, 1, 2, 3]"
  using fd_Pwrite_Pread_roundtrip [OF slow_file_calm, of "[1, 2, 3]" "[0, 0, 0]" "NewNetFD 4" 2]
  by (auto simp: slow_file_def file_put_def maxRW_def)

section \<open>consume\<close>

text \<open>
  \<open>consume\<close> drops bytes. It removes exactly \<open>n\<close> bytes from the front of a vector of
  slices, and leaves no used-up slice at the front.
\<close>

theorem consume_drops:
  assumes "0 \<le> n"
  shows "concat (consume v n) = drop (nat n) (concat v) \<and> (consume v n \<noteq> [] \<longrightarrow> hd (consume v n) \<noteq> [])"
  using assms
proof (induction v n rule: consume.induct)
  case (2 b v n)
  then show ?case by (cases "int (length b) > n") (auto simp: nat_diff_distrib)
qed simp

theorem consume_drops_witness: "consume [[1, 2], [], [3]] 2 = [[3]] \<and> concat (consume [[1, 2], [], [3]] 2) = [3]"
  using consume_drops [of 2 "[[1, 2], [], [3]]"] by simp

section \<open>Duplicates\<close>

text \<open>
  Duplicates are closed on exec. When \<open>F_DUPFD_CLOEXEC\<close> and \<open>CloseOnExec\<close> mark the
  descriptor, every descriptor that \<open>DupCloseOnExec\<close> returns without an error is marked, and
  after a kernel that does not know the call it is not tried again.
\<close>

theorem DupCloseOnExec_marks:
  assumes "\<And>k fd r k'. fs_fcntl_dup sys k fd = (None, r, k') \<Longrightarrow> r \<in> marked k'"
    and "\<And>k fd. fd \<in> marked (fs_cloexec sys k fd)"
    and "DupCloseOnExec sys k try fd = (r, msg, None, try', k')"
  shows "r \<in> marked k' \<and> (try' = try \<or> try' = 0)"
  using assms by (auto simp: DupCloseOnExec_def dupCloseOnExecOld_def split: prod.splits option.splits if_splits)

text \<open>The witness: an old kernel, whose descriptors are marked by their low byte.\<close>

definition marking_sys :: "(unit, fkst) fd_sys" where
  "marking_sys = file_sys\<lparr>fs_cloexec := (\<lambda>k fd. k\<lparr>fk_out := word_of_int fd # fk_out k\<rparr>)\<rparr>"

theorem DupCloseOnExec_marks_witness:
  "DupCloseOnExec marking_sys slow_file 1 4 = (104, [], None, 0, slow_file\<lparr>fk_out := [104]\<rparr>) \<and>
    word_of_int 104 \<in> set (fk_out (slow_file\<lparr>fk_out := [104]\<rparr>))"
proof -
  have d: "DupCloseOnExec marking_sys slow_file 1 4 = (104, [], None, 0, slow_file\<lparr>fk_out := [104]\<rparr>)"
    by (simp add: DupCloseOnExec_def dupCloseOnExecOld_def marking_sys_def file_sys_def slow_file_def)
  then show ?thesis using DupCloseOnExec_marks [OF _ _ d, of "\<lambda>k. {x. word_of_int x \<in> set (fk_out k)}"]
    by (simp add: marking_sys_def file_sys_def)
qed

end
