(* ===== verification/Queue.thy ===== *)
theory Queue
  imports Prelude
begin

text \<open>
  \<open>internal/queue\<close>: the lock-free task queue of Michael and Scott, and the pool of tasks. The
  queue is shared by goroutines that interleave at every atomic access, so an operation is a
  step function on a program counter: one equation per load, compare-and-swap or atomic add of
  the source, with the local branches folded into the access before them. A node is named by
  its address in a heap that only grows: a collected node is never reached again, so the
  addresses of live nodes are never reused, which is what the absence of counters relies on.
\<close>

section \<open>Data\<close>

type_synonym addr = nat

record 'a qnode =
  nd_value :: "'a option"
  nd_next :: "addr option"

record 'a lockFreeQueue =
  q_head :: addr
  q_tail :: addr
  q_length :: "32 word"
  q_heap :: "'a qnode list"

definition NewLockFreeQueue :: "'a lockFreeQueue" where
  "NewLockFreeQueue = \<lparr>q_head = 0, q_tail = 0, q_length = 0, q_heap = [\<lparr>nd_value = None, nd_next = None\<rparr>]\<rparr>"

text \<open>The node behind a pointer; following a pointer to no node panics.\<close>

definition q_node :: "'a lockFreeQueue \<Rightarrow> addr \<Rightarrow> 'a qnode option" where
  "q_node q a = (if a < length (q_heap q) then Some (q_heap q ! a) else None)"

definition q_IsEmpty :: "'a lockFreeQueue \<Rightarrow> bool" where
  "q_IsEmpty q \<longleftrightarrow> q_length q = 0"

text \<open>\<open>cas\<close> on the head, the tail, and the successor field of a node.\<close>

definition cas_head :: "'a lockFreeQueue \<Rightarrow> addr \<Rightarrow> addr \<Rightarrow> bool \<times> 'a lockFreeQueue" where
  "cas_head q old new = (if q_head q = old then (True, q\<lparr>q_head := new\<rparr>) else (False, q))"

definition cas_tail :: "'a lockFreeQueue \<Rightarrow> addr \<Rightarrow> addr \<Rightarrow> bool \<times> 'a lockFreeQueue" where
  "cas_tail q old new = (if q_tail q = old then (True, q\<lparr>q_tail := new\<rparr>) else (False, q))"

definition cas_next :: "'a lockFreeQueue \<Rightarrow> addr \<Rightarrow> addr option \<Rightarrow> addr \<Rightarrow> (bool \<times> 'a lockFreeQueue) option" where
  "cas_next q a old new =
     do {
       x \<leftarrow> q_node q a;
       Some (if nd_next x = old then (True, q\<lparr>q_heap := (q_heap q)[a := x\<lparr>nd_next := Some new\<rparr>]\<rparr>) else (False, q))
     }"

section \<open>Enqueue and Dequeue\<close>

text \<open>
  Where a goroutine is: between calls, at one of the accesses of \<open>Enqueue\<close> or of
  \<open>Dequeue\<close> with the local variables that are still needed, or about to return.
\<close>

datatype 'a pc =
    Idle
  | EnqNew "'a option" | EnqTail addr | EnqNext addr addr | EnqCheck addr addr "addr option"
  | EnqLink addr addr | EnqHelp addr addr addr | EnqSwing addr addr | EnqCount | EnqDone
  | DeqHead | DeqTail addr | DeqNext addr addr | DeqCheck addr addr "addr option"
  | DeqHelp addr addr | DeqValue addr "addr option" | DeqSwing addr addr "'a option"
  | DeqCount "'a option" | DeqDone "'a option" | DeqNil

fun Enqueue_step :: "'a lockFreeQueue \<Rightarrow> 'a pc \<Rightarrow> ('a lockFreeQueue \<times> 'a pc) option" where
  "Enqueue_step q (EnqNew task) =
     Some (q\<lparr>q_heap := q_heap q @ [\<lparr>nd_value = task, nd_next = None\<rparr>]\<rparr>, EnqTail (length (q_heap q)))"
| "Enqueue_step q (EnqTail n) = Some (q, EnqNext n (q_tail q))"
| "Enqueue_step q (EnqNext n tail) = do { x \<leftarrow> q_node q tail; Some (q, EnqCheck n tail (nd_next x)) }"
| "Enqueue_step q (EnqCheck n tail next) =
     Some (q, if tail = q_tail q
              then (case next of None \<Rightarrow> EnqLink n tail | Some m \<Rightarrow> EnqHelp n tail m)
              else EnqTail n)"
| "Enqueue_step q (EnqLink n tail) =
     do {
       (ok, q) \<leftarrow> cas_next q tail None n;
       Some (q, if ok then EnqSwing n tail else EnqTail n)
     }"
| "Enqueue_step q (EnqHelp n tail next) = Some (snd (cas_tail q tail next), EnqTail n)"
| "Enqueue_step q (EnqSwing n tail) = Some (snd (cas_tail q tail n), EnqCount)"
| "Enqueue_step q EnqCount = Some (q\<lparr>q_length := q_length q + 1\<rparr>, EnqDone)"
| "Enqueue_step q _ = None"

fun Dequeue_step :: "'a lockFreeQueue \<Rightarrow> 'a pc \<Rightarrow> ('a lockFreeQueue \<times> 'a pc) option" where
  "Dequeue_step q DeqHead = Some (q, DeqTail (q_head q))"
| "Dequeue_step q (DeqTail head) = Some (q, DeqNext head (q_tail q))"
| "Dequeue_step q (DeqNext head tail) = do { x \<leftarrow> q_node q head; Some (q, DeqCheck head tail (nd_next x)) }"
| "Dequeue_step q (DeqCheck head tail next) =
     Some (q, if head = q_head q
              then if head = tail then (case next of None \<Rightarrow> DeqNil | Some m \<Rightarrow> DeqHelp tail m)
                   else DeqValue head next
              else DeqHead)"
| "Dequeue_step q (DeqHelp tail next) = Some (snd (cas_tail q tail next), DeqHead)"
| "Dequeue_step q (DeqValue head next) =
     do { n \<leftarrow> next; x \<leftarrow> q_node q n; Some (q, DeqSwing head n (nd_value x)) }"
| "Dequeue_step q (DeqSwing head next task) =
     Some (case cas_head q head next of (ok, q) \<Rightarrow> (q, if ok then DeqCount task else DeqHead))"
| "Dequeue_step q (DeqCount task) = Some (q\<lparr>q_length := q_length q - 1\<rparr>, DeqDone task)"
| "Dequeue_step q _ = None"

text \<open>Whether a goroutine is inside \<open>Enqueue\<close> or inside \<open>Dequeue\<close>.\<close>

fun in_Enqueue :: "'a pc \<Rightarrow> bool" where
  "in_Enqueue (EnqNew _) = True" | "in_Enqueue (EnqTail _) = True" | "in_Enqueue (EnqNext _ _) = True"
| "in_Enqueue (EnqCheck _ _ _) = True" | "in_Enqueue (EnqLink _ _) = True" | "in_Enqueue (EnqHelp _ _ _) = True"
| "in_Enqueue (EnqSwing _ _) = True" | "in_Enqueue EnqCount = True" | "in_Enqueue _ = False"

fun in_Dequeue :: "'a pc \<Rightarrow> bool" where
  "in_Dequeue DeqHead = True" | "in_Dequeue (DeqTail _) = True" | "in_Dequeue (DeqNext _ _) = True"
| "in_Dequeue (DeqCheck _ _ _) = True" | "in_Dequeue (DeqHelp _ _) = True" | "in_Dequeue (DeqValue _ _) = True"
| "in_Dequeue (DeqSwing _ _ _) = True" | "in_Dequeue (DeqCount _) = True" | "in_Dequeue _ = False"

text \<open>The tasks in the queue: the values of the nodes behind the head.\<close>

fun q_walk :: "'a qnode list \<Rightarrow> nat \<Rightarrow> addr \<Rightarrow> 'a option list" where
  "q_walk hp 0 a = []"
| "q_walk hp (Suc k) a =
     (case nd_next (hp ! a) of None \<Rightarrow> [] | Some b \<Rightarrow> nd_value (hp ! b) # q_walk hp k b)"

definition q_contents :: "'a lockFreeQueue \<Rightarrow> 'a option list" where
  "q_contents q = q_walk (q_heap q) (length (q_heap q)) (q_head q)"

section \<open>Goroutines\<close>

text \<open>
  A system of goroutines on one queue. The last three fields are history: the tasks linked and
  the tasks taken so far, in order, and for every goroutine whether the queue has been empty at
  some moment since its last call of \<open>Dequeue\<close>.
\<close>

record 'a qsys =
  qs_q :: "'a lockFreeQueue"
  qs_pcs :: "'a pc list"
  qs_enqd :: "'a option list"
  qs_deqd :: "'a option list"
  qs_saw :: "bool list"

fun log_enq :: "'a lockFreeQueue \<Rightarrow> 'a pc \<Rightarrow> 'a pc \<Rightarrow> 'a option list" where
  "log_enq q (EnqLink n tail) (EnqSwing _ _) = [nd_value (q_heap q ! n)]"
| "log_enq q _ _ = []"

fun log_deq :: "'a pc \<Rightarrow> 'a pc \<Rightarrow> 'a option list" where
  "log_deq (DeqSwing head next task) (DeqCount _) = [task]"
| "log_deq _ _ = []"

definition q_advance :: "'a qsys \<Rightarrow> nat \<Rightarrow> 'a lockFreeQueue \<Rightarrow> 'a pc \<Rightarrow> 'a qsys" where
  "q_advance s i q pc =
     \<lparr>qs_q = q, qs_pcs = (qs_pcs s)[i := pc],
      qs_enqd = qs_enqd s @ log_enq (qs_q s) (qs_pcs s ! i) pc,
      qs_deqd = qs_deqd s @ log_deq (qs_pcs s ! i) pc,
      qs_saw = map (\<lambda>b. b \<or> q_contents q = []) (qs_saw s)\<rparr>"

definition q_start :: "nat \<Rightarrow> 'a qsys" where
  "q_start n =
     \<lparr>qs_q = NewLockFreeQueue, qs_pcs = replicate n Idle, qs_enqd = [], qs_deqd = [], qs_saw = replicate n True\<rparr>"

inductive q_sys_step :: "'a qsys \<Rightarrow> 'a qsys \<Rightarrow> bool" where
  call_Enqueue: "i < length (qs_pcs s) \<Longrightarrow> qs_pcs s ! i = Idle \<Longrightarrow>
    q_sys_step s (s\<lparr>qs_pcs := (qs_pcs s)[i := EnqNew task]\<rparr>)"
| call_Dequeue: "i < length (qs_pcs s) \<Longrightarrow> qs_pcs s ! i = Idle \<Longrightarrow>
    q_sys_step s (s\<lparr>qs_pcs := (qs_pcs s)[i := DeqHead], qs_saw := (qs_saw s)[i := q_contents (qs_q s) = []]\<rparr>)"
| step_Enqueue: "i < length (qs_pcs s) \<Longrightarrow> Enqueue_step (qs_q s) (qs_pcs s ! i) = Some (q, pc) \<Longrightarrow>
    q_sys_step s (q_advance s i q pc)"
| step_Dequeue: "i < length (qs_pcs s) \<Longrightarrow> Dequeue_step (qs_q s) (qs_pcs s ! i) = Some (q, pc) \<Longrightarrow>
    q_sys_step s (q_advance s i q pc)"
| return: "i < length (qs_pcs s) \<Longrightarrow> qs_pcs s ! i \<in> {EnqDone, DeqNil} \<union> range DeqDone \<Longrightarrow>
    q_sys_step s (s\<lparr>qs_pcs := (qs_pcs s)[i := Idle]\<rparr>)"

inductive q_reach :: "nat \<Rightarrow> 'a qsys \<Rightarrow> bool" for n where
  start: "q_reach n (q_start n)"
| more: "q_reach n s \<Longrightarrow> q_sys_step s s' \<Longrightarrow> q_reach n s'"

section \<open>The task pool\<close>

text \<open>
  A task is a function and its argument, both possibly nil. \<open>sync.Pool\<close> gives back one of
  the tasks put into it, here the first, or a new one.
\<close>

record ('f, 'x) task =
  tk_Run :: "'f option"
  tk_Arg :: "'x option"

definition GetTask :: "('f, 'x) task list \<Rightarrow> ('f, 'x) task \<times> ('f, 'x) task list" where
  "GetTask pool = (case pool of [] \<Rightarrow> (\<lparr>tk_Run = None, tk_Arg = None\<rparr>, []) | t # ts \<Rightarrow> (t, ts))"

definition PutTask :: "('f, 'x) task \<Rightarrow> ('f, 'x) task list \<Rightarrow> ('f, 'x) task list" where
  "PutTask t pool = t\<lparr>tk_Run := None, tk_Arg := None\<rparr> # pool"

end
