(* ===== verification/QueueCorrect.thy ===== *)
theory QueueCorrect
  imports Queue
begin

text \<open>
  The lock-free queue under every interleaving: an inductive invariant over the chain of nodes
  that have ever been linked, from which follow that the tasks come out in the order they went
  in, each once, that no access follows a nil pointer, and what the length counter means.
\<close>

section \<open>The chain\<close>

text \<open>
  \<open>ch\<close> lists all nodes ever linked, in order. The head is its element \<open>h\<close>, the tail its
  element \<open>t\<close>, which is the last or the last but one.
\<close>

definition chain_ok :: "addr list \<Rightarrow> nat \<Rightarrow> nat \<Rightarrow> 'a lockFreeQueue \<Rightarrow> bool" where
  "chain_ok ch h t q \<longleftrightarrow> distinct ch \<and> (\<forall>a \<in> set ch. a < length (q_heap q)) \<and>
     (\<forall>i < length ch. nd_next (q_heap q ! (ch ! i)) = (if Suc i < length ch then Some (ch ! Suc i) else None)) \<and>
     h \<le> t \<and> t < length ch \<and> length ch \<le> t + 2 \<and> q_head q = ch ! h \<and> q_tail q = ch ! t"

definition vals :: "'a lockFreeQueue \<Rightarrow> addr list \<Rightarrow> 'a option list" where
  "vals q as = map (\<lambda>a. nd_value (q_heap q ! a)) as"

lemma q_walk_chain:
  assumes "\<forall>i < length ch. nd_next (hp ! (ch ! i)) = (if Suc i < length ch then Some (ch ! Suc i) else None)"
    and "i < length ch"
  shows "q_walk hp k (ch ! i) = map (\<lambda>a. nd_value (hp ! a)) (take k (drop (Suc i) ch))"
  using assms(2)
proof (induction k arbitrary: i)
  case (Suc k)
  show ?case
  proof (cases "Suc i < length ch")
    case True
    then have "drop (Suc i) ch = ch ! Suc i # drop (Suc (Suc i)) ch" by (simp add: Cons_nth_drop_Suc)
    then show ?thesis using True Suc assms(1) by simp
  next
    case False
    then show ?thesis using Suc.prems assms(1) by simp
  qed
qed simp

lemma q_contents_chain:
  assumes "chain_ok ch h t q"
  shows "q_contents q = vals q (drop (Suc h) ch)"
proof -
  have c: "distinct ch" "\<forall>a \<in> set ch. a < length (q_heap q)" "h < length ch" "q_head q = ch ! h"
      "\<forall>i < length ch. nd_next (q_heap q ! (ch ! i)) = (if Suc i < length ch then Some (ch ! Suc i) else None)"
    using assms by (simp_all add: chain_ok_def)
  have "card (set ch) \<le> card {..<length (q_heap q)}" using c(2) by (intro card_mono) auto
  then have "length ch \<le> length (q_heap q)" using distinct_card [OF c(1)] by simp
  then show ?thesis using q_walk_chain [OF c(5,3), of "length (q_heap q)"] c(4) by (simp add: q_contents_def vals_def)
qed

lemma chain_empty_iff:
  assumes "chain_ok ch h t q"
  shows "q_contents q = [] \<longleftrightarrow> Suc h = length ch"
proof -
  have "h < length ch" using assms by (simp add: chain_ok_def)
  then show ?thesis by (auto simp: q_contents_chain [OF assms] vals_def)
qed

section \<open>Where the goroutines can be\<close>

text \<open>The node a goroutine has made and not yet linked.\<close>

fun own_node :: "'a pc \<Rightarrow> addr option" where
  "own_node (EnqTail n) = Some n" | "own_node (EnqNext n _) = Some n" | "own_node (EnqCheck n _ _) = Some n"
| "own_node (EnqLink n _) = Some n" | "own_node (EnqHelp n _ _) = Some n" | "own_node _ = None"

text \<open>Node \<open>m\<close> comes right behind node \<open>a\<close>, which is at most the \<open>k\<close>-th.\<close>

definition at_most :: "addr list \<Rightarrow> nat \<Rightarrow> addr \<Rightarrow> bool" where
  "at_most ch k a \<longleftrightarrow> (\<exists>i \<le> k. i < length ch \<and> a = ch ! i)"

definition behind :: "addr list \<Rightarrow> nat \<Rightarrow> addr \<Rightarrow> addr \<Rightarrow> bool" where
  "behind ch k a m \<longleftrightarrow> (\<exists>i \<le> k. Suc i < length ch \<and> a = ch ! i \<and> m = ch ! Suc i)"

fun pc_ok :: "addr list \<Rightarrow> nat \<Rightarrow> nat \<Rightarrow> 'a lockFreeQueue \<Rightarrow> 'a option set \<Rightarrow> bool \<Rightarrow> 'a pc \<Rightarrow> bool" where
  "pc_ok ch h t q D saw (EnqNext n tail) = at_most ch t tail"
| "pc_ok ch h t q D saw (EnqCheck n tail next) =
     (at_most ch t tail \<and> (case next of None \<Rightarrow> True | Some m \<Rightarrow> behind ch t tail m))"
| "pc_ok ch h t q D saw (EnqLink n tail) = at_most ch t tail"
| "pc_ok ch h t q D saw (EnqHelp n tail m) = behind ch t tail m"
| "pc_ok ch h t q D saw (EnqSwing n tail) = behind ch t tail n"
| "pc_ok ch h t q D saw (DeqTail head) = at_most ch h head"
| "pc_ok ch h t q D saw (DeqNext head tail) =
     (\<exists>i j. i \<le> h \<and> i \<le> j \<and> j \<le> t \<and> j < length ch \<and> head = ch ! i \<and> tail = ch ! j)"
| "pc_ok ch h t q D saw (DeqCheck head tail next) =
     (\<exists>i j. i \<le> h \<and> i \<le> j \<and> j \<le> t \<and> j < length ch \<and> head = ch ! i \<and> tail = ch ! j \<and>
        (case next of None \<Rightarrow> i = j \<and> saw | Some m \<Rightarrow> Suc i < length ch \<and> m = ch ! Suc i))"
| "pc_ok ch h t q D saw (DeqHelp tail m) = behind ch t tail m"
| "pc_ok ch h t q D saw (DeqValue head next) =
     (\<exists>i. i \<le> h \<and> i < t \<and> Suc i < length ch \<and> head = ch ! i \<and> next = Some (ch ! Suc i))"
| "pc_ok ch h t q D saw (DeqSwing head n task) =
     (\<exists>i. i \<le> h \<and> i < t \<and> Suc i < length ch \<and> head = ch ! i \<and> n = ch ! Suc i \<and> task = nd_value (q_heap q ! n))"
| "pc_ok ch h t q D saw (DeqCount task) = (task \<in> D)"
| "pc_ok ch h t q D saw (DeqDone task) = (task \<in> D)"
| "pc_ok ch h t q D saw DeqNil = saw"
| "pc_ok ch h t q D saw _ = True"

text \<open>What a goroutine has linked and not counted yet, or counted off too late.\<close>

fun uncounted :: "'a pc \<Rightarrow> int" where
  "uncounted (EnqSwing _ _) = 1" | "uncounted EnqCount = 1" | "uncounted (DeqCount _) = -1" | "uncounted _ = 0"

definition qinv :: "addr list \<Rightarrow> nat \<Rightarrow> nat \<Rightarrow> 'a qsys \<Rightarrow> bool" where
  "qinv ch h t s \<longleftrightarrow> chain_ok ch h t (qs_q s) \<and> length (qs_saw s) = length (qs_pcs s) \<and>
     qs_deqd s @ vals (qs_q s) (drop (Suc h) ch) = qs_enqd s \<and>
     q_length (qs_q s) = word_of_int (int (length ch - Suc h) - sum_list (map uncounted (qs_pcs s))) \<and>
     (Suc h = length ch \<longrightarrow> (\<forall>i < length (qs_saw s). qs_saw s ! i)) \<and>
     (\<forall>i < length (qs_pcs s). pc_ok ch h t (qs_q s) (set (qs_deqd s)) (qs_saw s ! i) (qs_pcs s ! i)) \<and>
     (\<forall>i < length (qs_pcs s). \<forall>n. own_node (qs_pcs s ! i) = Some n \<longrightarrow>
        n < length (q_heap (qs_q s)) \<and> n \<notin> set ch \<and> nd_next (q_heap (qs_q s) ! n) = None) \<and>
     (\<forall>i < length (qs_pcs s). \<forall>j < length (qs_pcs s). \<forall>n.
        own_node (qs_pcs s ! i) = Some n \<longrightarrow> own_node (qs_pcs s ! j) = Some n \<longrightarrow> i = j)"

lemma qinvD:
  assumes "qinv ch h t s"
  shows "chain_ok ch h t (qs_q s)" and "length (qs_saw s) = length (qs_pcs s)"
    and "qs_deqd s @ vals (qs_q s) (drop (Suc h) ch) = qs_enqd s"
    and "q_length (qs_q s) = word_of_int (int (length ch - Suc h) - sum_list (map uncounted (qs_pcs s)))"
    and "Suc h = length ch \<Longrightarrow> i < length (qs_pcs s) \<Longrightarrow> qs_saw s ! i"
    and "i < length (qs_pcs s) \<Longrightarrow> pc_ok ch h t (qs_q s) (set (qs_deqd s)) (qs_saw s ! i) (qs_pcs s ! i)"
    and "i < length (qs_pcs s) \<Longrightarrow> own_node (qs_pcs s ! i) = Some n \<Longrightarrow>
      n < length (q_heap (qs_q s)) \<and> n \<notin> set ch \<and> nd_next (q_heap (qs_q s) ! n) = None"
    and "i < length (qs_pcs s) \<Longrightarrow> j < length (qs_pcs s) \<Longrightarrow> own_node (qs_pcs s ! i) = Some n \<Longrightarrow>
      own_node (qs_pcs s ! j) = Some n \<Longrightarrow> i = j"
  using assms by (simp_all add: qinv_def)

lemma sum_list_map_update:
  "i < length xs \<Longrightarrow> sum_list (map f (xs[i := x])) = sum_list (map f xs) - f (xs ! i) + (f x :: int)"
  by (induction xs arbitrary: i) (auto simp: nth_Cons split: nat.splits)

text \<open>The facts about a goroutine survive what the others do.\<close>

lemma at_most_mono: "at_most ch k a \<Longrightarrow> take (length ch) ch' = ch \<Longrightarrow> k \<le> k' \<Longrightarrow> at_most ch' k' a"
  unfolding at_most_def by (metis le_trans length_take min.boundedE min_less_iff_conj nth_take)

lemma behind_mono: "behind ch k a m \<Longrightarrow> take (length ch) ch' = ch \<Longrightarrow> k \<le> k' \<Longrightarrow> behind ch' k' a m"
  unfolding behind_def by (metis Suc_lessD le_trans length_take min_less_iff_conj nth_take)

lemma pc_ok_mono:
  assumes "pc_ok ch h t q D saw pc" and ext: "ch' = ch @ ys" and "h \<le> h'" and "t \<le> t'" and "D \<subseteq> D'" and "saw \<longrightarrow> saw'"
    and "\<forall>a \<in> set ch. nd_value (q_heap q' ! a) = nd_value (q_heap q ! a)"
  shows "pc_ok ch' h' t' q' D' saw' pc"
proof -
  have nth: "ch' ! i = ch ! i" if "i < length ch" for i using that ext by (simp add: nth_append)
  have am: "at_most ch k a \<Longrightarrow> k \<le> k' \<Longrightarrow> at_most ch' k' a" for k k' a
    using at_most_mono [of ch k a ch' k'] ext by simp
  have be: "behind ch k a m \<Longrightarrow> k \<le> k' \<Longrightarrow> behind ch' k' a m" for k k' a m
    using behind_mono [of ch k a m ch' k'] ext by simp
  show ?thesis using assms(1)
  proof (cases pc)
    case (DeqNext head tail)
    then obtain i j where "i \<le> h" "i \<le> j" "j \<le> t" "j < length ch" "head = ch ! i" "tail = ch ! j" using assms(1) by auto
    then have "i \<le> h' \<and> i \<le> j \<and> j \<le> t' \<and> j < length ch' \<and> head = ch' ! i \<and> tail = ch' ! j"
      using nth ext assms(3,4) by simp
    then show ?thesis unfolding DeqNext pc_ok.simps by blast
  next
    case (DeqCheck head tail nx)
    then obtain i j where "i \<le> h" "i \<le> j" "j \<le> t" "j < length ch" "head = ch ! i" "tail = ch ! j"
        "case nx of None \<Rightarrow> i = j \<and> saw | Some m \<Rightarrow> Suc i < length ch \<and> m = ch ! Suc i" using assms(1) by auto
    then have "i \<le> h' \<and> i \<le> j \<and> j \<le> t' \<and> j < length ch' \<and> head = ch' ! i \<and> tail = ch' ! j \<and>
        (case nx of None \<Rightarrow> i = j \<and> saw' | Some m \<Rightarrow> Suc i < length ch' \<and> m = ch' ! Suc i)"
      using nth ext assms(3,4,6) by (auto split: option.splits)
    then show ?thesis unfolding DeqCheck pc_ok.simps by blast
  next
    case (DeqValue head nx)
    then obtain i where "i \<le> h" "i < t" "Suc i < length ch" "head = ch ! i" "nx = Some (ch ! Suc i)" using assms(1) by auto
    then show ?thesis using DeqValue nth ext assms(3,4) by (auto intro!: exI [of _ i])
  next
    case (DeqSwing head n task)
    then obtain i where "i \<le> h" "i < t" "Suc i < length ch" "head = ch ! i" "n = ch ! Suc i" "task = nd_value (q_heap q ! n)"
      using assms(1) by auto
    then show ?thesis using DeqSwing nth ext assms(3,4,7) by (auto intro!: exI [of _ i])
  qed (use am be assms(3-6) in \<open>auto split: option.splits\<close>)
qed

section \<open>Steps\<close>

text \<open>What a step of one goroutine has to establish for the invariant to be kept.\<close>

lemma qinv_advance:
  assumes inv: "qinv ch h t s" and i: "i < length (qs_pcs s)"
    and chain: "chain_ok ch' h' t' q'" and ext: "ch' = ch @ ys" and mono: "h \<le> h'" "t \<le> t'"
    and vals: "\<forall>a < length (q_heap (qs_q s)). nd_value (q_heap q' ! a) = nd_value (q_heap (qs_q s) ! a)"
    and longer: "length (q_heap (qs_q s)) \<le> length (q_heap q')"
    and own: "\<And>n. own_node pc = Some n \<Longrightarrow> n < length (q_heap q') \<and> n \<notin> set ch' \<and> nd_next (q_heap q' ! n) = None \<and>
      (own_node (qs_pcs s ! i) = Some n \<or> length (q_heap (qs_q s)) \<le> n)"
    and others: "\<And>n. n < length (q_heap (qs_q s)) \<Longrightarrow> n \<notin> set ch \<Longrightarrow> own_node (qs_pcs s ! i) \<noteq> Some n \<Longrightarrow>
      n \<notin> set ch' \<and> nd_next (q_heap q' ! n) = nd_next (q_heap (qs_q s) ! n)"
    and hist: "qs_deqd s @ log_deq (qs_pcs s ! i) pc @ vals q' (drop (Suc h') ch') = qs_enqd s @ log_enq (qs_q s) (qs_pcs s ! i) pc"
    and len: "q_length q' = q_length (qs_q s) + word_of_int (int (length ch' - Suc h') - int (length ch - Suc h) +
      uncounted (qs_pcs s ! i) - uncounted pc)"
    and pc: "pc_ok ch' h' t' q' (set (qs_deqd s @ log_deq (qs_pcs s ! i) pc)) (qs_saw s ! i \<or> Suc h' = length ch') pc"
  shows "qinv ch' h' t' (q_advance s i q' pc)"
proof -
  let ?s = "q_advance s i q' pc"
  note I = qinvD [OF inv]
  have saw: "qs_saw ?s ! j = (qs_saw s ! j \<or> Suc h' = length ch')" if "j < length (qs_pcs s)" for j
    using that I(2) chain_empty_iff [OF chain] by (simp add: q_advance_def)
  have own': "n < length (q_heap q') \<and> n \<notin> set ch' \<and> nd_next (q_heap q' ! n) = None"
    if "j < length (qs_pcs s)" "own_node (qs_pcs ?s ! j) = Some n" for j n
  proof (cases "j = i")
    case False
    then have o: "own_node (qs_pcs s ! j) = Some n" using that by (simp add: q_advance_def)
    then have "own_node (qs_pcs s ! i) \<noteq> Some n" using I(8) [OF that(1) i] False by blast
    then show ?thesis using I(7) [OF that(1) o] others [of n] longer by auto
  qed (use own that i in \<open>simp add: q_advance_def\<close>)
  have uniq: "j = l" if "j < length (qs_pcs s)" "l < length (qs_pcs s)" "own_node (qs_pcs ?s ! j) = Some n"
      "own_node (qs_pcs ?s ! l) = Some n" for j l n
  proof -
    have o: "own_node (qs_pcs s ! j) = Some n \<or> j = i \<and> length (q_heap (qs_q s)) \<le> n"
      if "j < length (qs_pcs s)" "own_node (qs_pcs ?s ! j) = Some n" for j
      using that own i by (cases "j = i") (auto simp: q_advance_def)
    have lt: "own_node (qs_pcs s ! j) = Some n \<Longrightarrow> j < length (qs_pcs s) \<Longrightarrow> n < length (q_heap (qs_q s))" for j
      using I(7) by blast
    show ?thesis using o [OF that(1,3)] o [OF that(2,4)] I(8) [OF that(1,2)] lt that(1,2) by (meson not_le)
  qed
  have pcs: "pc_ok ch' h' t' q' (set (qs_deqd ?s)) (qs_saw ?s ! j) (qs_pcs ?s ! j)" if "j < length (qs_pcs s)" for j
  proof (cases "j = i")
    case True
    then show ?thesis using pc i saw [OF i] by (simp add: q_advance_def)
  next
    case False
    have "\<forall>a \<in> set ch. a < length (q_heap (qs_q s))" using I(1) by (simp add: chain_ok_def)
    then have "\<forall>a \<in> set ch. nd_value (q_heap q' ! a) = nd_value (q_heap (qs_q s) ! a)" using vals by blast
    moreover have "set (qs_deqd s) \<subseteq> set (qs_deqd ?s)" by (simp add: q_advance_def)
    moreover have "qs_saw s ! j \<longrightarrow> qs_saw ?s ! j" using saw [OF that] by simp
    ultimately show ?thesis using pc_ok_mono [OF I(6) [OF that] ext mono, of "set (qs_deqd ?s)" "qs_saw ?s ! j" q'] False
      by (simp add: q_advance_def)
  qed
  have "sum_list (map uncounted (qs_pcs ?s)) = sum_list (map uncounted (qs_pcs s)) - uncounted (qs_pcs s ! i) + uncounted pc"
    using sum_list_map_update [OF i] by (simp add: q_advance_def)
  then have e: "int (length ch - Suc h) - sum_list (map uncounted (qs_pcs s)) +
      (int (length ch' - Suc h') - int (length ch - Suc h) + uncounted (qs_pcs s ! i) - uncounted pc) =
    int (length ch' - Suc h') - sum_list (map uncounted (qs_pcs ?s))" by linarith
  have "q_length q' = word_of_int (int (length ch' - Suc h') - sum_list (map uncounted (qs_pcs ?s)))"
    unfolding len I(4) by (simp only: of_int_add [symmetric] e)
  then show ?thesis using chain I(2) hist saw own' uniq pcs unfolding qinv_def
    by (simp add: q_advance_def)
qed

text \<open>A step that only reads, and one that may swing the tail to the next node.\<close>

lemma qinv_local:
  assumes "qinv ch h t s" and "i < length (qs_pcs s)"
    and "own_node pc = own_node (qs_pcs s ! i) \<or> own_node pc = None" and "uncounted pc = uncounted (qs_pcs s ! i)"
    and "log_enq (qs_q s) (qs_pcs s ! i) pc = []" and "log_deq (qs_pcs s ! i) pc = []"
    and "pc_ok ch h t (qs_q s) (set (qs_deqd s)) (qs_saw s ! i \<or> Suc h = length ch) pc"
  shows "qinv ch h t (q_advance s i (qs_q s) pc)"
  using qinvD [OF assms(1)] assms(2-) qinvD(7) [OF assms(1,2)]
  by (intro qinv_advance [OF assms(1,2), where ys = "[]"]) auto

lemma chain_index: "chain_ok ch h t q \<Longrightarrow> i < length ch \<Longrightarrow> j < length ch \<Longrightarrow> ch ! i = ch ! j \<Longrightarrow> i = j"
  by (simp add: chain_ok_def nth_eq_iff_index_eq)

lemma cas_tail_chain:
  assumes "chain_ok ch h t q" and "behind ch t a m"
  shows "\<exists>t'. t \<le> t' \<and> chain_ok ch h t' (snd (cas_tail q a m)) \<and> q_heap (snd (cas_tail q a m)) = q_heap q \<and>
    q_length (snd (cas_tail q a m)) = q_length q"
proof (cases "q_tail q = a")
  case True
  obtain i where i: "i \<le> t" "Suc i < length ch" "a = ch ! i" "m = ch ! Suc i" using assms(2) by (auto simp: behind_def)
  have "i = t" using chain_index [OF assms(1), of i t] i True assms(1) by (auto simp: chain_ok_def)
  then have "chain_ok ch h (Suc t) (snd (cas_tail q a m))" using assms(1) i True by (auto simp: chain_ok_def cas_tail_def)
  then show ?thesis using True by (intro exI [of _ "Suc t"]) (simp add: cas_tail_def)
qed (use assms(1) in \<open>auto simp: cas_tail_def\<close>)

lemma qinv_swing:
  assumes "qinv ch h t s" and "i < length (qs_pcs s)" and "behind ch t a m"
    and "own_node pc = own_node (qs_pcs s ! i) \<or> own_node pc = None" and "uncounted pc = uncounted (qs_pcs s ! i)"
    and "log_enq (qs_q s) (qs_pcs s ! i) pc = []" and "log_deq (qs_pcs s ! i) pc = []"
    and "\<And>t'. pc_ok ch h t' (snd (cas_tail (qs_q s) a m)) (set (qs_deqd s)) (qs_saw s ! i \<or> Suc h = length ch) pc"
  shows "\<exists>t'. qinv ch h t' (q_advance s i (snd (cas_tail (qs_q s) a m)) pc)"
proof -
  obtain t' where t: "t \<le> t'" "chain_ok ch h t' (snd (cas_tail (qs_q s) a m))"
      "q_heap (snd (cas_tail (qs_q s) a m)) = q_heap (qs_q s)" "q_length (snd (cas_tail (qs_q s) a m)) = q_length (qs_q s)"
    using cas_tail_chain [OF qinvD(1) [OF assms(1)] assms(3)] by blast
  have "vals (snd (cas_tail (qs_q s) a m)) as = vals (qs_q s) as" for as by (simp add: vals_def t(3))
  then have "qinv ch h t' (q_advance s i (snd (cas_tail (qs_q s) a m)) pc)"
    using qinvD [OF assms(1)] assms(2-) qinvD(7) [OF assms(1,2)] t
    by (intro qinv_advance [OF assms(1,2) t(2), where ys = "[]"]) auto
  then show ?thesis by blast
qed

lemma chain_node: "chain_ok ch h t q \<Longrightarrow> i < length ch \<Longrightarrow>
    q_node q (ch ! i) = Some (q_heap q ! (ch ! i)) \<and>
    nd_next (q_heap q ! (ch ! i)) = (if Suc i < length ch then Some (ch ! Suc i) else None)"
  by (simp add: chain_ok_def q_node_def)

text \<open>A new node, and its linking behind the last one.\<close>

lemma qinv_new:
  assumes "qinv ch h t s" and "i < length (qs_pcs s)" and "qs_pcs s ! i = EnqNew task"
  shows "qinv ch h t (q_advance s i ((qs_q s)\<lparr>q_heap := q_heap (qs_q s) @ [\<lparr>nd_value = task, nd_next = None\<rparr>]\<rparr>)
    (EnqTail (length (q_heap (qs_q s)))))"
proof -
  let ?hp = "q_heap (qs_q s) @ [\<lparr>nd_value = task, nd_next = None\<rparr>]"
  note I = qinvD [OF assms(1)]
  have lt: "\<forall>a \<in> set ch. a < length (q_heap (qs_q s))" using I(1) by (simp add: chain_ok_def)
  then have nth: "a \<in> set ch \<Longrightarrow> ?hp ! a = q_heap (qs_q s) ! a" for a by (simp add: nth_append)
  have "chain_ok ch h t ((qs_q s)\<lparr>q_heap := ?hp\<rparr>)"
    using I(1) nth [OF nth_mem] lt by (simp add: chain_ok_def less_SucI)
  moreover have "vals ((qs_q s)\<lparr>q_heap := ?hp\<rparr>) (drop k ch) = vals (qs_q s) (drop k ch)" for k
    using nth by (auto simp: vals_def dest: in_set_dropD)
  moreover have "length (q_heap (qs_q s)) \<notin> set ch" using lt by blast
  ultimately show ?thesis using I(3,4) assms(3)
    by (intro qinv_advance [OF assms(1,2), where ys = "[]"]) (auto simp: nth_append)
qed

lemma qinv_link:
  assumes "qinv ch h t s" and "i < length (qs_pcs s)" and "qs_pcs s ! i = EnqLink n tail"
    and "cas_next (qs_q s) tail None n = Some (True, q')"
  shows "qinv (ch @ [n]) h t (q_advance s i q' (EnqSwing n tail))"
proof -
  let ?q = "qs_q s"
  note I = qinvD [OF assms(1)]
  have own: "n < length (q_heap ?q)" "n \<notin> set ch" "nd_next (q_heap ?q ! n) = None"
    using I(7) [OF assms(2), of n] assms(3) by auto
  obtain j where j: "j \<le> t" "j < length ch" "tail = ch ! j" using I(6) [OF assms(2)] assms(3) by (auto simp: at_most_def)
  note c = chain_node [OF I(1) j(2)]
  have n0: "nd_next (q_heap ?q ! tail) = None" "q' = ?q\<lparr>q_heap := (q_heap ?q)[tail := (q_heap ?q ! tail)\<lparr>nd_next := Some n\<rparr>]\<rparr>"
    using assms(4) c j(3) by (auto simp: cas_next_def split: if_splits)
  have last: "Suc j = length ch" using c n0(1) j(2,3) by (auto split: if_splits)
  have len: "t < length ch" "h \<le> t" "length ch \<le> t + 2" "distinct ch" "\<forall>a \<in> set ch. a < length (q_heap ?q)"
      "q_head ?q = ch ! h" "q_tail ?q = ch ! t"
    using I(1) by (simp_all add: chain_ok_def)
  have jt: "j = t" using last j(1) len(1) by simp
  have tl: "tail < length (q_heap ?q)" using len(5) j(2,3) by simp
  have val: "nd_value (q_heap q' ! a) = nd_value (q_heap ?q ! a)" if "a < length (q_heap ?q)" for a
    using that n0(2) tl by (simp add: nth_list_update)
  have nxt: "nd_next (q_heap q' ! a) = (if a = tail then Some n else nd_next (q_heap ?q ! a))" if "a < length (q_heap ?q)" for a
    using that n0(2) tl by (simp add: nth_list_update)
  have links: "nd_next (q_heap q' ! ((ch @ [n]) ! k)) = (if Suc k < length (ch @ [n]) then Some ((ch @ [n]) ! Suc k) else None)"
    if k: "k < length (ch @ [n])" for k
  proof (cases "k < length ch")
    case True
    then have "ch ! k = tail \<longleftrightarrow> k = j" using chain_index [OF I(1) True j(2)] j(3) by auto
    then show ?thesis using True last nxt [of "ch ! k"] chain_node [OF I(1) True] len(5)
      by (auto simp: nth_append)
  next
    case False
    then have "k = length ch" using k by simp
    moreover have "n \<noteq> tail" using own(2) j(2,3) by auto
    ultimately show ?thesis using nxt [OF own(1)] own(3) by simp
  qed
  have chain: "chain_ok (ch @ [n]) h t q'"
    unfolding chain_ok_def using links len own n0(2) jt last by (auto simp: nth_append)
  have vs: "vals q' as = vals ?q as" if "set as \<subseteq> set ch \<union> {n}" for as
    using that val len(5) own(1) by (auto simp: vals_def)
  have "vals q' (drop (Suc h) (ch @ [n])) = vals ?q (drop (Suc h) ch) @ [nd_value (q_heap ?q ! n)]"
    using vs [of "drop (Suc h) (ch @ [n])"] len(1,2) set_drop_subset [of "Suc h" "ch @ [n]"] by (simp add: vals_def)
  then have hist: "qs_deqd s @ vals q' (drop (Suc h) (ch @ [n])) = qs_enqd s @ [nd_value (q_heap ?q ! n)]"
    using I(3) by (metis append.assoc)
  have "behind (ch @ [n]) t tail n" unfolding behind_def using j last by (intro exI [of _ j]) (simp add: nth_append)
  then show ?thesis
    by (intro qinv_advance [OF assms(1,2) chain, where ys = "[n]"])
      (use len val nxt own hist assms(3) n0(2) j in \<open>auto simp: of_nat_diff\<close>)
qed

text \<open>The head moves over a node, and the counter follows.\<close>

lemma qinv_take:
  assumes "qinv ch h t s" and "i < length (qs_pcs s)" and "qs_pcs s ! i = DeqSwing head n task"
    and "q_head (qs_q s) = head"
  shows "qinv ch (Suc h) t (q_advance s i ((qs_q s)\<lparr>q_head := n\<rparr>) (DeqCount task))"
proof -
  note I = qinvD [OF assms(1)]
  obtain j where j: "j \<le> h" "j < t" "Suc j < length ch" "head = ch ! j" "n = ch ! Suc j"
      "task = nd_value (q_heap (qs_q s) ! n)"
    using I(6) [OF assms(2)] assms(3) by auto
  have "j = h" using chain_index [OF I(1), of j h] j I(1) assms(4) by (auto simp: chain_ok_def)
  note j = j [unfolded this]
  have chain: "chain_ok ch (Suc h) t ((qs_q s)\<lparr>q_head := n\<rparr>)" using I(1) j by (simp add: chain_ok_def)
  have "drop (Suc h) ch = n # drop (Suc (Suc h)) ch" using j(3,5) by (simp add: Cons_nth_drop_Suc)
  then have "qs_deqd s @ [task] @ vals ((qs_q s)\<lparr>q_head := n\<rparr>) (drop (Suc (Suc h)) ch) = qs_enqd s"
    using I(3) j(6) by (simp add: vals_def)
  then show ?thesis
    by (intro qinv_advance [OF assms(1,2) chain, where ys = "[]"])
      (use assms(3) j(3) in \<open>auto simp: of_nat_diff\<close>)
qed

lemma qinv_count:
  assumes "qinv ch h t s" and "i < length (qs_pcs s)"
    and "qs_pcs s ! i = EnqCount \<and> pc = EnqDone \<and> d = 1 \<or> qs_pcs s ! i = DeqCount task \<and> pc = DeqDone task \<and> d = -1"
  shows "qinv ch h t (q_advance s i ((qs_q s)\<lparr>q_length := q_length (qs_q s) + d\<rparr>) pc)"
proof -
  note I = qinvD [OF assms(1)]
  have chain: "chain_ok ch h t ((qs_q s)\<lparr>q_length := q_length (qs_q s) + d\<rparr>)" using I(1) by (simp add: chain_ok_def)
  have "vals ((qs_q s)\<lparr>q_length := q_length (qs_q s) + d\<rparr>) as = vals (qs_q s) as" for as by (simp add: vals_def)
  then show ?thesis using I(3) I(6) [OF assms(2)]
    by (intro qinv_advance [OF assms(1,2) chain, where ys = "[]"]) (use assms(3) in auto)
qed

section \<open>Every reachable state\<close>

lemma Enqueue_step_inv:
  assumes "qinv ch h t s" and "i < length (qs_pcs s)" and "Enqueue_step (qs_q s) (qs_pcs s ! i) = Some (q', pc')"
  shows "\<exists>ch h t. qinv ch h t (q_advance s i q' pc')"
proof -
  note I = qinvD [OF assms(1)]
  note loc = qinv_local [OF assms(1,2)]
  note ok = I(6) [OF assms(2)]
  show ?thesis
  proof (cases "qs_pcs s ! i")
    case (EnqNew task)
    then show ?thesis using qinv_new [OF assms(1,2) EnqNew] assms(3) by auto
  next
    case (EnqTail n)
    then have "q' = qs_q s" "pc' = EnqNext n (q_tail (qs_q s))" using assms(3) by auto
    moreover have "at_most ch t (q_tail (qs_q s))" using I(1) by (auto simp: at_most_def chain_ok_def)
    ultimately have "qinv ch h t (q_advance s i q' pc')" using loc [of pc'] EnqTail by auto
    then show ?thesis by blast
  next
    case (EnqNext n tail)
    then obtain j where j: "j \<le> t" "j < length ch" "tail = ch ! j" using ok by (auto simp: at_most_def)
    have e: "q' = qs_q s" "pc' = EnqCheck n tail (if Suc j < length ch then Some (ch ! Suc j) else None)"
      using assms(3) EnqNext chain_node [OF I(1) j(2)] j(3) by auto
    have "behind ch t tail (ch ! Suc j)" if "Suc j < length ch" using that j by (auto simp: behind_def)
    then have "qinv ch h t (q_advance s i q' pc')" using loc [of pc'] EnqNext e ok by auto
    then show ?thesis by blast
  next
    case (EnqCheck n tail nx)
    then have "q' = qs_q s" "pc' = (if tail = q_tail (qs_q s)
        then (case nx of None \<Rightarrow> EnqLink n tail | Some m \<Rightarrow> EnqHelp n tail m) else EnqTail n)" using assms(3) by auto
    then have "qinv ch h t (q_advance s i q' pc')" using loc [of pc'] EnqCheck ok by (auto split: option.splits if_splits)
    then show ?thesis by blast
  next
    case (EnqLink n tail)
    then obtain b where b: "cas_next (qs_q s) tail None n = Some (b, q')" "pc' = (if b then EnqSwing n tail else EnqTail n)"
      using assms(3) by (auto simp: bind_Some_conv)
    show ?thesis
    proof (cases b)
      case True
      then show ?thesis using qinv_link [OF assms(1,2) EnqLink] b by auto
    next
      case False
      then have "q' = qs_q s" using b(1) by (auto simp: cas_next_def bind_Some_conv split: if_splits)
      then have "qinv ch h t (q_advance s i q' pc')" using loc [of pc'] EnqLink b(2) False by auto
    then show ?thesis by blast
    qed
  next
    case (EnqHelp n tail m)
    then have "\<exists>t'. qinv ch h t' (q_advance s i q' pc')" using qinv_swing [OF assms(1,2), of tail m pc'] assms(3) ok by auto
    then show ?thesis by blast
  next
    case (EnqSwing n tail)
    then have "\<exists>t'. qinv ch h t' (q_advance s i q' pc')" using qinv_swing [OF assms(1,2), of tail n pc'] assms(3) ok by auto
    then show ?thesis by blast
  next
    case EnqCount
    then show ?thesis using qinv_count [OF assms(1,2), of pc' 1] assms(3) by auto
  qed (use assms(3) in auto)
qed

lemma Dequeue_step_inv:
  assumes "qinv ch h t s" and "i < length (qs_pcs s)" and "Dequeue_step (qs_q s) (qs_pcs s ! i) = Some (q', pc')"
  shows "\<exists>ch h t. qinv ch h t (q_advance s i q' pc')"
proof -
  note I = qinvD [OF assms(1)]
  note loc = qinv_local [OF assms(1,2)]
  note ok = I(6) [OF assms(2)]
  show ?thesis
  proof (cases "qs_pcs s ! i")
    case DeqHead
    then have "q' = qs_q s" "pc' = DeqTail (q_head (qs_q s))" using assms(3) by auto
    moreover have "at_most ch h (q_head (qs_q s))" using I(1) by (auto simp: at_most_def chain_ok_def)
    ultimately have "qinv ch h t (q_advance s i q' pc')" using loc [of pc'] DeqHead by auto
    then show ?thesis by blast
  next
    case (DeqTail head)
    then obtain j where j: "j \<le> h" "j < length ch" "head = ch ! j" using ok by (auto simp: at_most_def)
    have c: "h \<le> t" "t < length ch" "q_tail (qs_q s) = ch ! t" using I(1) by (simp_all add: chain_ok_def)
    have "q' = qs_q s" "pc' = DeqNext head (ch ! t)" using assms(3) DeqTail c(3) by auto
    moreover have "pc_ok ch h t q D b (DeqNext head (ch ! t))" for q D b
      unfolding pc_ok.simps using j c by (intro exI [of _ j] exI [of _ t]) simp
    ultimately have "qinv ch h t (q_advance s i q' pc')" using loc [of pc'] DeqTail by auto
    then show ?thesis by blast
  next
    case (DeqNext head tail)
    then obtain j k where j: "j \<le> h" "j \<le> k" "k \<le> t" "k < length ch" "head = ch ! j" "tail = ch ! k" using ok by auto
    have jl: "j < length ch" using j(2,4) by simp
    have e: "q' = qs_q s" "pc' = DeqCheck head tail (if Suc j < length ch then Some (ch ! Suc j) else None)"
      using assms(3) DeqNext chain_node [OF I(1) jl] j(5) by auto
    have "\<not> Suc j < length ch \<Longrightarrow> j = k \<and> Suc h = length ch" using j I(1) by (auto simp: chain_ok_def)
    then have "pc_ok ch h t q D (saw \<or> Suc h = length ch) pc'" for q D saw
      unfolding e(2) pc_ok.simps using j by (intro exI [of _ j] exI [of _ k]) auto
    then have "qinv ch h t (q_advance s i q' pc')" using loc [of pc'] DeqNext e by (simp del: pc_ok.simps)
    then show ?thesis by blast
  next
    case (DeqCheck head tail nx)
    then obtain j k where j: "j \<le> h" "j \<le> k" "k \<le> t" "k < length ch" "head = ch ! j" "tail = ch ! k"
        "case nx of None \<Rightarrow> j = k \<and> qs_saw s ! i | Some m \<Rightarrow> Suc j < length ch \<and> m = ch ! Suc j" using ok by auto
    have e: "q' = qs_q s" "pc' = (if head = q_head (qs_q s)
              then if head = tail then (case nx of None \<Rightarrow> DeqNil | Some m \<Rightarrow> DeqHelp tail m) else DeqValue head nx
              else DeqHead)" using assms(3) DeqCheck by auto
    have eq: "head = tail \<longleftrightarrow> j = k" using chain_index [OF I(1), of j k] j by auto
    have "pc_ok ch h t q D (qs_saw s ! i \<or> b) pc'" for q D b
    proof (cases "head = q_head (qs_q s)")
      case True
      show ?thesis
      proof (cases "head = tail")
        case True
        then show ?thesis using e(2) j eq by (auto simp: behind_def split: option.splits)
      next
        case False
        then have "j < t" "nx = Some (ch ! Suc j)" "Suc j < length ch" using j eq by (auto split: option.splits)
        then show ?thesis using e(2) j(1,5) True False by auto
      qed
    qed (use e(2) in simp)
    then have "qinv ch h t (q_advance s i q' pc')" using loc [of pc'] DeqCheck e by (auto split: option.splits if_splits)
    then show ?thesis by blast
  next
    case (DeqHelp tail m)
    then have "\<exists>t'. qinv ch h t' (q_advance s i q' pc')" using qinv_swing [OF assms(1,2), of tail m pc'] assms(3) ok by auto
    then show ?thesis by blast
  next
    case (DeqValue head nx)
    then obtain j where j: "j \<le> h" "j < t" "Suc j < length ch" "head = ch ! j" "nx = Some (ch ! Suc j)" using ok by auto
    have "q' = qs_q s" "pc' = DeqSwing head (ch ! Suc j) (nd_value (q_heap (qs_q s) ! (ch ! Suc j)))"
      using assms(3) DeqValue j(5) chain_node [OF I(1) j(3)] by auto
    then have "qinv ch h t (q_advance s i q' pc')" using loc [of pc'] DeqValue j(1-4) by auto
    then show ?thesis by blast
  next
    case (DeqSwing head n task)
    show ?thesis
    proof (cases "q_head (qs_q s) = head")
      case True
      then show ?thesis using qinv_take [OF assms(1,2) DeqSwing True] assms(3) DeqSwing by (auto simp: cas_head_def)
    next
      case False
      then have "q' = qs_q s" "pc' = DeqHead" using assms(3) DeqSwing by (auto simp: cas_head_def)
      then have "qinv ch h t (q_advance s i q' pc')" using loc [of pc'] DeqSwing by auto
    then show ?thesis by blast
    qed
  next
    case (DeqCount task)
    then show ?thesis using qinv_count [OF assms(1,2), of pc' "-1" task] assms(3) by auto
  qed (use assms(3) in auto)
qed

text \<open>Calls and returns change a goroutine from or to \<open>Idle\<close>.\<close>

lemma qinv_idle:
  assumes "qinv ch h t s" and "i < length (qs_pcs s)" and "own_node (qs_pcs s ! i) = None" and "own_node pc = None"
    and "uncounted (qs_pcs s ! i) = 0" and "uncounted pc = 0" and "\<And>q D b. pc_ok ch h t q D b pc"
    and "saw = qs_saw s \<or> saw = (qs_saw s)[i := q_contents (qs_q s) = []]"
  shows "qinv ch h t (s\<lparr>qs_pcs := (qs_pcs s)[i := pc], qs_saw := saw\<rparr>)"
proof -
  note I = qinvD [OF assms(1)]
  have "Suc h = length ch \<Longrightarrow> j < length (qs_pcs s) \<Longrightarrow> saw ! j" for j
    using assms(2,8) I(2,5) chain_empty_iff [OF I(1)] by (cases "j = i") auto
  moreover have "pc_ok ch h t (qs_q s) (set (qs_deqd s)) (saw ! j) ((qs_pcs s)[i := pc] ! j)"
    if "j < length (qs_pcs s)" for j
    using that assms(2,7,8) I(6) [OF that] by (cases "j = i") auto
  moreover have "sum_list (map uncounted ((qs_pcs s)[i := pc])) = sum_list (map uncounted (qs_pcs s))"
    using sum_list_map_update [OF assms(2)] assms(5,6) by simp
  moreover have "own_node ((qs_pcs s)[i := pc] ! j) = Some n \<Longrightarrow> own_node (qs_pcs s ! j) = Some n"
    if "j < length (qs_pcs s)" for j n using that assms(2,4) by (cases "j = i") auto
  ultimately show ?thesis using I(1-4) I(7,8) assms(8) unfolding qinv_def by (auto simp del: map_update)
qed

lemma qinv_start: "qinv [0] 0 0 (q_start n)"
proof -
  have "sum_list (map uncounted (replicate n (Idle :: 'a pc))) = 0" by (induction n) auto
  then show ?thesis
    by (simp add: qinv_def q_start_def chain_ok_def NewLockFreeQueue_def vals_def)
qed

lemma qinv_reach:
  assumes "q_reach n s"
  shows "\<exists>ch h t. qinv ch h t s \<and> length (qs_pcs s) = n"
  using assms
proof (induction rule: q_reach.induct)
  case start
  then show ?case using qinv_start [of n] by (auto simp: q_start_def)
next
  case (more s s')
  then obtain ch h t where inv: "qinv ch h t s" "length (qs_pcs s) = n" by blast
  from more.hyps(2) show ?case
  proof cases
    case (call_Enqueue i task)
    then show ?thesis using qinv_idle [OF inv(1), of i "EnqNew task" "qs_saw s"] inv(2) by auto
  next
    case (call_Dequeue i)
    then show ?thesis using qinv_idle [OF inv(1), of i DeqHead "(qs_saw s)[i := q_contents (qs_q s) = []]"] inv(2) by auto
  next
    case (step_Enqueue i q pc)
    then show ?thesis using Enqueue_step_inv [OF inv(1)] inv(2) by (metis length_list_update q_advance_def qsys.select_convs(2))
  next
    case (step_Dequeue i q pc)
    then show ?thesis using Dequeue_step_inv [OF inv(1)] inv(2) by (metis length_list_update q_advance_def qsys.select_convs(2))
  next
    case (return i)
    then have "qinv ch h t s'" using qinv_idle [OF inv(1), of i Idle "qs_saw s"] by auto
    then show ?thesis using return inv(2) by auto
  qed
qed

section \<open>First in, first out\<close>

text \<open>Tasks taken, followed by tasks queued, are the tasks put in; one step moves one task at most.\<close>

lemma q_reach_fifo:
  assumes "q_reach n s"
  shows "qs_deqd s @ q_contents (qs_q s) = qs_enqd s"
proof -
  from qinv_reach [OF assms] obtain ch h t where "qinv ch h t s" by blast
  then show ?thesis using qinvD(1,3) q_contents_chain by metis
qed

lemma q_reach_saw:
  assumes "q_reach n s" and "i < n" and "qs_pcs s ! i = DeqNil"
  shows "qs_saw s ! i"
proof -
  obtain ch h t where inv: "qinv ch h t s" "length (qs_pcs s) = n" using qinv_reach [OF assms(1)] by blast
  show ?thesis using qinvD(6) [OF inv(1), of i] inv(2) assms(2,3) by simp
qed

lemma q_advance_contents:
  assumes "q_reach n s" and "q_reach n (q_advance s i q pc)"
  shows "log_deq (qs_pcs s ! i) pc @ q_contents q = q_contents (qs_q s) @ log_enq (qs_q s) (qs_pcs s ! i) pc"
proof -
  have "(qs_deqd s @ log_deq (qs_pcs s ! i) pc) @ q_contents q = qs_enqd s @ log_enq (qs_q s) (qs_pcs s ! i) pc"
    using q_reach_fifo [OF assms(2)] by (simp add: q_advance_def)
  then show ?thesis unfolding q_reach_fifo [OF assms(1), symmetric] by simp
qed

text \<open>
  C6: the queue under concurrency. In every state that any number of goroutines can reach by
  calling \<open>Enqueue\<close> and \<open>Dequeue\<close> with their accesses interleaved in any order: the tasks taken
  out so far, followed by those in the queue, are the tasks put in, in the order of their
  linking (so none is lost, duplicated or reordered); a \<open>Dequeue\<close> that is about to return a
  task returns one that was taken; and one that is about to return nil found the queue empty at
  some moment after its call.
\<close>

theorem lock_free_queue_fifo:
  assumes "q_reach n s"
  shows "qs_deqd s @ q_contents (qs_q s) = qs_enqd s \<and>
    (\<forall>i < n. (\<forall>task. qs_pcs s ! i = DeqDone task \<longrightarrow> task \<in> set (qs_deqd s)) \<and>
       (qs_pcs s ! i = DeqNil \<longrightarrow> qs_saw s ! i))"
proof -
  obtain ch h t where inv: "qinv ch h t s" "length (qs_pcs s) = n" using qinv_reach [OF assms] by blast
  note I = qinvD [OF inv(1)]
  have "task \<in> set (qs_deqd s)" if "i < n" "qs_pcs s ! i = DeqDone task" for i task
    using I(6) [of i] inv(2) that by simp
  moreover have "qs_saw s ! i" if "i < n" "qs_pcs s ! i = DeqNil" for i by (rule q_reach_saw [OF assms that])
  ultimately show ?thesis using I(3) q_contents_chain [OF I(1)] by simp
qed

text \<open>
  A run of two goroutines: the second dequeues while the first is between linking its node and
  swinging the tail, and helps it.
\<close>

definition help_run :: "(nat \<times> nat pc option) list" where
  "help_run = [(0, Some (EnqNew (Some 7))), (1, Some DeqHead), (0, None), (0, None), (0, None), (0, None), (0, None),
     (1, None), (1, None), (1, None), (1, None), (1, None), (1, None), (1, None), (1, None), (1, None), (1, None), (1, None)]"

fun q_play :: "(nat \<times> 'a pc option) list \<Rightarrow> 'a qsys \<Rightarrow> 'a qsys option" where
  "q_play [] s = Some s"
| "q_play ((i, Some pc) # xs) s =
     (if i < length (qs_pcs s) \<and> qs_pcs s ! i = Idle
      then (case pc of
              EnqNew task \<Rightarrow> q_play xs (s\<lparr>qs_pcs := (qs_pcs s)[i := EnqNew task]\<rparr>)
            | DeqHead \<Rightarrow> q_play xs (s\<lparr>qs_pcs := (qs_pcs s)[i := DeqHead], qs_saw := (qs_saw s)[i := q_contents (qs_q s) = []]\<rparr>)
            | _ \<Rightarrow> None)
      else None)"
| "q_play ((i, None) # xs) s =
     (if i < length (qs_pcs s) then
        (case (if in_Enqueue (qs_pcs s ! i) then Enqueue_step (qs_q s) (qs_pcs s ! i)
               else Dequeue_step (qs_q s) (qs_pcs s ! i)) of
           None \<Rightarrow> None
         | Some (q, pc) \<Rightarrow> q_play xs (q_advance s i q pc))
      else None)"

lemma q_play_reach: "q_play xs s = Some s' \<Longrightarrow> q_reach n s \<Longrightarrow> q_reach n s'"
proof (induction xs s rule: q_play.induct)
  case (2 i pc xs s)
  then show ?case
    by (auto split: if_splits pc.splits intro: q_reach.more [OF _ call_Enqueue] q_reach.more [OF _ call_Dequeue])
next
  case (3 i xs s)
  then obtain q pc where st: "(if in_Enqueue (qs_pcs s ! i) then Enqueue_step (qs_q s) (qs_pcs s ! i)
        else Dequeue_step (qs_q s) (qs_pcs s ! i)) = Some (q, pc)" "i < length (qs_pcs s)" "q_play xs (q_advance s i q pc) = Some s'"
    by (simp split: if_split_asm option.splits prod.splits)
  then have "q_sys_step s (q_advance s i q pc)" by (auto split: if_splits intro: step_Enqueue step_Dequeue)
  then have "q_reach n (q_advance s i q pc)" using 3(3) by (rule q_reach.more [rotated])
  then show ?case using 3(1) [OF st(2) st(1) refl st(3)] by simp
qed auto

definition helped :: "nat qsys" where
  "helped = the (q_play help_run (q_start 2))"

lemma helped_play: "q_play help_run (q_start 2) = Some helped"
  and helped_fields: "qs_pcs helped = [EnqSwing 1 0, DeqCount (Some 7)]" "qs_enqd helped = [Some 7]" "qs_deqd helped = [Some 7]"
    "q_contents (qs_q helped) = []"
  by code_simp+

lemma helped_reach: "q_reach 2 helped"
  by (rule q_play_reach [OF helped_play q_reach.start])

theorem lock_free_queue_fifo_witness:
  "qs_deqd helped @ q_contents (qs_q helped) = qs_enqd helped \<and> qs_deqd helped = [Some 7]"
  using lock_free_queue_fifo [OF helped_reach] helped_fields by simp

text \<open>
  Every access refines the abstract queue. Each step of the concurrent system leaves the
  queue as it is, appends one task at the end, or takes the first one, and the history records
  which.
\<close>

theorem lock_free_queue_refines:
  assumes "q_reach n s" and "q_sys_step s s'"
  shows "q_contents (qs_q s') = q_contents (qs_q s) \<and> qs_enqd s' = qs_enqd s \<and> qs_deqd s' = qs_deqd s \<or>
    (\<exists>task. q_contents (qs_q s') = q_contents (qs_q s) @ [task] \<and> qs_enqd s' = qs_enqd s @ [task] \<and> qs_deqd s' = qs_deqd s) \<or>
    (\<exists>task. q_contents (qs_q s) = task # q_contents (qs_q s') \<and> qs_enqd s' = qs_enqd s \<and> qs_deqd s' = qs_deqd s @ [task])"
proof -
  have r: "q_reach n s'" using assms by (rule q_reach.more)
  have e: "qs_deqd s @ q_contents (qs_q s) = qs_enqd s" "qs_deqd s' @ q_contents (qs_q s') = qs_enqd s'"
    using q_reach_fifo [OF assms(1)] q_reach_fifo [OF r] .
  have le: "log_enq q pc pc' = [] \<or> (\<exists>v. log_enq q pc pc' = [v]) \<and> log_deq pc pc' = []" for q :: "'a lockFreeQueue" and pc pc'
    by (cases "(q, pc, pc')" rule: log_enq.cases) auto
  have ld: "log_deq pc pc' = [] \<or> (\<exists>v. log_deq pc pc' = [v])" for pc pc' :: "'a pc"
    by (cases "(pc, pc')" rule: log_deq.cases) auto
  have adv: ?thesis if s': "s' = q_advance s i q pc" for i q pc
  proof -
    define add where "add = log_enq (qs_q s) (qs_pcs s ! i) pc"
    define del where "del = log_deq (qs_pcs s ! i) pc"
    have h: "qs_enqd s' = qs_enqd s @ add" "qs_deqd s' = qs_deqd s @ del" by (simp_all add: s' q_advance_def add_def del_def)
    have eq: "del @ q_contents (qs_q s') = q_contents (qs_q s) @ add"
      using q_advance_contents [OF assms(1), of i q pc] r by (simp add: s' add_def del_def q_advance_def)
    consider "add = []" "del = []" | v where "add = [v]" "del = []" | v where "add = []" "del = [v]"
      using le [of "qs_q s" "qs_pcs s ! i" pc] ld [of "qs_pcs s ! i" pc] unfolding add_def del_def by blast
    then show ?thesis
    proof cases
      case 1
      then show ?thesis using h eq by simp
    next
      case (2 v)
      then show ?thesis using h eq by simp
    next
      case (3 v)
      then have "q_contents (qs_q s) = v # q_contents (qs_q s')" using eq by simp
      then show ?thesis using h 3 by simp
    qed
  qed
  from assms(2) show ?thesis by cases (use e adv in auto)
qed

definition linking :: "nat qsys" where
  "linking = the (q_play (take 6 help_run) (q_start 2))"

definition linked :: "nat qsys" where
  "linked = the (q_play (take 7 help_run) (q_start 2))"

lemma linking_play: "q_play (take 6 help_run) (q_start 2) = Some linking" "q_play [(0, None)] linking = Some linked"
  and linking_fields: "length (qs_pcs linking) = 2" "in_Enqueue (qs_pcs linking ! 0)" "qs_enqd linking = []" "qs_enqd linked = [Some 7]"
    "q_contents (qs_q linking) = []"
  by code_simp+

lemma linking_reach: "q_reach 2 linking"
  by (rule q_play_reach [OF linking_play(1) q_reach.start])

lemma linking_step: "q_sys_step linking linked"
proof -
  obtain q pc where "Enqueue_step (qs_q linking) (qs_pcs linking ! 0) = Some (q, pc)" "q_advance linking 0 q pc = linked"
    using linking_play(2) linking_fields(1,2) by (auto split: option.splits)
  then show ?thesis using step_Enqueue [of 0 linking q pc] linking_fields(1) by simp
qed

theorem lock_free_queue_refines_witness: "q_sys_step linking linked \<and> q_contents (qs_q linked) = [Some 7]"
  using lock_free_queue_refines [OF linking_reach linking_step] linking_step linking_fields by auto

section \<open>No nil pointer is followed\<close>

lemma steps_defined:
  assumes "q_reach n s" and "i < n"
  shows "(in_Enqueue (qs_pcs s ! i) \<longrightarrow> Enqueue_step (qs_q s) (qs_pcs s ! i) \<noteq> None) \<and>
    (in_Dequeue (qs_pcs s ! i) \<longrightarrow> Dequeue_step (qs_q s) (qs_pcs s ! i) \<noteq> None)"
proof -
  obtain ch h t where inv: "qinv ch h t s" "length (qs_pcs s) = n" using qinv_reach [OF assms(1)] by blast
  then have ok: "pc_ok ch h t (qs_q s) (set (qs_deqd s)) (qs_saw s ! i) (qs_pcs s ! i)"
    using qinvD(6) assms(2) by blast
  have node: "\<exists>x. q_node (qs_q s) (ch ! j) = Some x" if "j < length ch" for j
    using chain_node [OF qinvD(1) [OF inv(1)] that] by blast
  have am: "at_most ch k a \<Longrightarrow> \<exists>x. q_node (qs_q s) a = Some x" for k a using node by (auto simp: at_most_def)
  show ?thesis
  proof (cases "qs_pcs s ! i")
    case (DeqNext head tail)
    then obtain j k where "j \<le> k" "k < length ch" "head = ch ! j" using ok by auto
    then show ?thesis using DeqNext node [of j] by auto
  next
    case (DeqValue head nx)
    then obtain j where "Suc j < length ch" "nx = Some (ch ! Suc j)" using ok by auto
    then show ?thesis using DeqValue node [of "Suc j"] by auto
  qed (use ok in \<open>auto simp: cas_next_def dest!: am\<close>)
qed

text \<open>
  No access panics. In every reachable state a goroutine inside \<open>Enqueue\<close> or
  \<open>Dequeue\<close> can make its next access: the pointers it follows (among them \<open>next\<close>, whose
  value \<open>Dequeue\<close> reads without a test) lead to nodes.
\<close>

theorem lock_free_queue_no_panic:
  assumes "q_reach n s" and "i < n"
  shows "(in_Enqueue (qs_pcs s ! i) \<longrightarrow> Enqueue_step (qs_q s) (qs_pcs s ! i) \<noteq> None) \<and>
    (in_Dequeue (qs_pcs s ! i) \<longrightarrow> Dequeue_step (qs_q s) (qs_pcs s ! i) \<noteq> None)"
  by (rule steps_defined [OF assms])

theorem lock_free_queue_no_panic_witness:
  "Enqueue_step (qs_q linking) (qs_pcs linking ! 0) \<noteq> None"
  using lock_free_queue_no_panic [OF linking_reach, of 0] linking_fields(2) by simp

section \<open>The length counter\<close>

lemma q_reach_length:
  assumes "q_reach n s"
  shows "q_length (qs_q s) = word_of_int (int (length (q_contents (qs_q s))) - sum_list (map uncounted (qs_pcs s)))"
proof -
  obtain ch h t where inv: "qinv ch h t s" using qinv_reach [OF assms] by blast
  show ?thesis using qinvD(4) [OF inv] q_contents_chain [OF qinvD(1) [OF inv]] by (simp add: vals_def)
qed

lemma q_IsEmpty_exact:
  assumes "q_reach n s" and "\<forall>pc \<in> set (qs_pcs s). uncounted pc = 0" and "length (q_contents (qs_q s)) < 2 ^ 32"
  shows "q_IsEmpty (qs_q s) = (q_contents (qs_q s) = [])"
proof -
  have "map uncounted (qs_pcs s) = map (\<lambda>_. 0) (qs_pcs s)" using assms(2) by (intro map_cong) auto
  then have "sum_list (map uncounted (qs_pcs s)) = 0" by (metis sum_list_0)
  then have "q_length (qs_q s) = word_of_nat (length (q_contents (qs_q s)))" using q_reach_length [OF assms(1)] by simp
  moreover have "unat (word_of_nat (length (q_contents (qs_q s))) :: 32 word) = length (q_contents (qs_q s))"
    using assms(3) by (simp add: unat_of_nat take_bit_nat_eq_self)
  ultimately show ?thesis unfolding q_IsEmpty_def by (metis length_0_conv unat_eq_zero)
qed

text \<open>
  What \<open>IsEmpty\<close> means. The counter lags behind: in every reachable state it is, modulo
  \<open>2 ^ 32\<close>, the number of tasks in the queue less the calls that have linked their node and not
  counted it yet, plus those that have taken one and not counted it. So when no call is in
  between and there are less than \<open>2 ^ 32\<close> tasks, \<open>IsEmpty\<close> is exact.
\<close>

theorem lock_free_queue_length:
  assumes "q_reach n s"
  shows "q_length (qs_q s) = word_of_int (int (length (q_contents (qs_q s))) - sum_list (map uncounted (qs_pcs s))) \<and>
    ((\<forall>pc \<in> set (qs_pcs s). uncounted pc = 0) \<and> length (q_contents (qs_q s)) < 2 ^ 32 \<longrightarrow>
       q_IsEmpty (qs_q s) = (q_contents (qs_q s) = []))"
  using q_reach_length [OF assms] q_IsEmpty_exact [OF assms] by blast

theorem lock_free_queue_length_witness:
  "q_length (qs_q helped) = word_of_int (int (length (q_contents (qs_q helped))) - sum_list (map uncounted (qs_pcs helped))) \<and>
    sum_list (map uncounted (qs_pcs helped)) = 0"
  using lock_free_queue_length [OF helped_reach] helped_fields by simp

section \<open>Progress\<close>

text \<open>A goroutine that runs alone for a number of accesses, or until it returns.\<close>

fun q_solo :: "nat \<Rightarrow> 'a lockFreeQueue \<Rightarrow> 'a pc \<Rightarrow> ('a lockFreeQueue \<times> 'a pc) option" where
  "q_solo 0 q pc = Some (q, pc)"
| "q_solo (Suc k) q pc =
     (if in_Enqueue pc then do { (q, pc) \<leftarrow> Enqueue_step q pc; q_solo k q pc }
      else if in_Dequeue pc then do { (q, pc) \<leftarrow> Dequeue_step q pc; q_solo k q pc }
      else Some (q, pc))"

text \<open>
  How many accesses are left: a stale snapshot costs one round more, a tail that lags behind
  another one.
\<close>

definition lag :: "'a lockFreeQueue \<Rightarrow> nat" where
  "lag q = (if nd_next (q_heap q ! q_tail q) = None then 0 else 1)"

definition dlag :: "'a lockFreeQueue \<Rightarrow> nat" where
  "dlag q = (if q_head q = q_tail q then lag q else 0)"

fun accesses_left :: "'a lockFreeQueue \<Rightarrow> 'a pc \<Rightarrow> nat" where
  "accesses_left q (EnqNew task) = 7 + 4 * lag q"
| "accesses_left q (EnqTail n) = 6 + 4 * lag q"
| "accesses_left q (EnqNext n tail) = (if tail = q_tail q then 5 else 8) + 4 * lag q"
| "accesses_left q (EnqCheck n tail next) =
     (if tail = q_tail q then (case next of None \<Rightarrow> 4 + 8 * lag q | Some m \<Rightarrow> 8) else 7 + 4 * lag q)"
| "accesses_left q (EnqLink n tail) = (if nd_next (q_heap q ! tail) = None then 3 else 7 + 4 * lag q)"
| "accesses_left q (EnqHelp n tail next) = (if tail = q_tail q then 7 else 7 + 4 * lag q)"
| "accesses_left q (EnqSwing n tail) = 2"
| "accesses_left q EnqCount = 1"
| "accesses_left q DeqHead = 7 + 5 * dlag q"
| "accesses_left q (DeqTail head) = (if head = q_head q then 6 else 10) + 5 * dlag q"
| "accesses_left q (DeqNext head tail) =
     (if head = q_head q then (if tail = q_tail q then 5 else 10) else 9) + 5 * dlag q"
| "accesses_left q (DeqCheck head tail next) =
     (if head = q_head q then
        if head = tail then (case next of None \<Rightarrow> 1 | Some m \<Rightarrow> if tail = q_tail q then 9 else 9 + 5 * dlag q)
        else 4
      else 8 + 5 * dlag q)"
| "accesses_left q (DeqHelp tail next) = (if tail = q_tail q then 8 else 8 + 5 * dlag q)"
| "accesses_left q (DeqValue head next) = (if head = q_head q then 3 else 9 + 5 * dlag q)"
| "accesses_left q (DeqSwing head n task) = (if head = q_head q then 2 else 8 + 5 * dlag q)"
| "accesses_left q (DeqCount task) = 1"
| "accesses_left q _ = 0"

lemma lag_chain: "chain_ok ch h t q \<Longrightarrow> lag q = (if Suc t < length ch then 1 else 0)"
  by (simp add: lag_def chain_ok_def)

lemma lag_bounds: "lag q \<le> 1" "dlag q \<le> 1" "dlag q \<le> lag q"
  by (simp_all add: lag_def dlag_def)

lemma accesses_left_bound: "accesses_left q pc \<le> 15"
  using lag_bounds [of q] by (cases pc) (auto split: option.splits)

lemma lag_swing:
  assumes "chain_ok ch h t q" and "behind ch t a m" and "q_tail q = a"
  shows "lag (snd (cas_tail q a m)) = 0"
proof -
  obtain i where i: "i \<le> t" "Suc i < length ch" "a = ch ! i" "m = ch ! Suc i" using assms(2) by (auto simp: behind_def)
  have c: "t < length ch" "length ch \<le> t + 2" "q_tail q = ch ! t" using assms(1) by (simp_all add: chain_ok_def)
  have "i = t" using chain_index [OF assms(1), of i t] i c assms(3) by simp
  then have "nd_next (q_heap q ! m) = None" using chain_node [OF assms(1) i(2)] i c by simp
  then show ?thesis using assms(3) by (simp add: lag_def cas_tail_def)
qed

lemma cas_tail_other: "q_tail q \<noteq> a \<Longrightarrow> snd (cas_tail q a m) = q"
  by (simp add: cas_tail_def)

lemma Enqueue_step_decreases:
  assumes "qinv ch h t s" and "i < length (qs_pcs s)" and "Enqueue_step (qs_q s) (qs_pcs s ! i) = Some (q', pc')"
  shows "accesses_left q' pc' < accesses_left (qs_q s) (qs_pcs s ! i)"
proof -
  note I = qinvD [OF assms(1)]
  note ok = I(6) [OF assms(2)]
  note lb = lag_bounds [of "qs_q s"]
  show ?thesis
  proof (cases "qs_pcs s ! i")
    case (EnqNew task)
    have "q_tail (qs_q s) < length (q_heap (qs_q s))" using I(1) by (simp add: chain_ok_def)
    then have "lag q' = lag (qs_q s)" using assms(3) EnqNew by (auto simp: lag_def nth_append)
    then show ?thesis using assms(3) EnqNew by auto
  next
    case (EnqNext n tail)
    then have "q' = qs_q s" "\<exists>nx. pc' = EnqCheck n tail nx \<and> (tail = q_tail (qs_q s) \<longrightarrow> nx = nd_next (q_heap (qs_q s) ! q_tail (qs_q s)))"
      using assms(3) by (auto simp: bind_Some_conv q_node_def split: if_splits)
    then show ?thesis using EnqNext by (cases "tail = q_tail (qs_q s)") (auto simp: lag_def split: option.splits)
  next
    case (EnqCheck n tail nx)
    show ?thesis
    proof (cases "tail = q_tail (qs_q s)")
      case True
      show ?thesis
      proof (cases nx)
        case None
        then show ?thesis using EnqCheck True assms(3) by (auto simp: lag_def)
      next
        case (Some m)
        then obtain j where j: "j \<le> t" "Suc j < length ch" "tail = ch ! j" using EnqCheck ok by (auto simp: behind_def)
        have "nd_next (q_heap (qs_q s) ! tail) \<noteq> None" using chain_node [OF I(1), of j] j by simp
        then have "lag (qs_q s) = 1" using True by (simp add: lag_def)
        then show ?thesis using EnqCheck True Some assms(3) by auto
      qed
    qed (use EnqCheck assms(3) in auto)
  next
    case (EnqLink n tail)
    then show ?thesis using assms(3) by (auto simp: bind_Some_conv cas_next_def q_node_def split: if_splits)
  next
    case (EnqHelp n tail m)
    then have e: "q' = snd (cas_tail (qs_q s) tail m)" "pc' = EnqTail n" "behind ch t tail m" using assms(3) ok by simp_all
    show ?thesis
    proof (cases "q_tail (qs_q s) = tail")
      case True
      then show ?thesis using EnqHelp e lag_swing [OF I(1) e(3)] by simp
    next
      case False
      then show ?thesis using EnqHelp e(2) cas_tail_other [OF False] e(1) by simp
    qed
  qed (use assms(3) in auto)
qed

lemma Dequeue_step_decreases:
  assumes "qinv ch h t s" and "i < length (qs_pcs s)" and "Dequeue_step (qs_q s) (qs_pcs s ! i) = Some (q', pc')"
  shows "accesses_left q' pc' < accesses_left (qs_q s) (qs_pcs s ! i)"
proof -
  note I = qinvD [OF assms(1)]
  note ok = I(6) [OF assms(2)]
  note lb = lag_bounds [of "qs_q s"]
  show ?thesis
  proof (cases "qs_pcs s ! i")
    case (DeqNext head tail)
    then obtain nx where e: "q' = qs_q s" "pc' = DeqCheck head tail nx" "nx = nd_next (q_heap (qs_q s) ! head)"
      using assms(3) by (auto simp: bind_Some_conv q_node_def split: if_splits)
    have "dlag (qs_q s) = 1" if "head = q_head (qs_q s)" "head = tail" "tail = q_tail (qs_q s)" "nx \<noteq> None"
      using that e(3) by (simp add: dlag_def lag_def)
    then show ?thesis using DeqNext e(1,2) lb by (auto split: option.splits)
  next
    case (DeqHelp tail m)
    then have e: "q' = snd (cas_tail (qs_q s) tail m)" "pc' = DeqHead" "behind ch t tail m" using assms(3) ok by simp_all
    show ?thesis
    proof (cases "q_tail (qs_q s) = tail")
      case True
      then have "dlag q' = 0" using lag_swing [OF I(1) e(3)] lag_bounds(3) [of q'] e(1) by simp
      then show ?thesis using DeqHelp e(2) True by simp
    next
      case False
      then show ?thesis using DeqHelp e(2) cas_tail_other [OF False] e(1) by simp
    qed
  next
    case (DeqValue head nx)
    then show ?thesis using assms(3) by (auto simp: bind_Some_conv)
  next
    case (DeqSwing head n task)
    then show ?thesis using assms(3) by (auto simp: cas_head_def split: if_splits)
  qed (use assms(3) in \<open>auto split: option.splits if_splits\<close>)
qed

lemma q_solo_ends:
  assumes "q_reach n s" and "i < n" and "accesses_left (qs_q s) (qs_pcs s ! i) \<le> k"
  shows "\<exists>q' pc'. q_solo k (qs_q s) (qs_pcs s ! i) = Some (q', pc') \<and> \<not> in_Enqueue pc' \<and> \<not> in_Dequeue pc'"
  using assms
proof (induction k arbitrary: s)
  case 0
  then show ?case by (cases "qs_pcs s ! i") (auto split: if_splits option.splits)
next
  case (Suc k)
  obtain ch h t where inv: "qinv ch h t s" "length (qs_pcs s) = n" using qinv_reach [OF Suc.prems(1)] by blast
  have go: ?case if st: "q_sys_step s (q_advance s i q pc)" "accesses_left q pc < accesses_left (qs_q s) (qs_pcs s ! i)"
      "q_solo (Suc k) (qs_q s) (qs_pcs s ! i) = q_solo k q pc" for q pc
  proof -
    have "qs_q (q_advance s i q pc) = q" "qs_pcs (q_advance s i q pc) ! i = pc"
      using inv(2) Suc.prems(2) by (simp_all add: q_advance_def)
    then show ?thesis using Suc.IH [OF q_reach.more [OF Suc.prems(1) st(1)] Suc.prems(2)] st(2,3) Suc.prems(3) by simp
  qed
  have i: "i < length (qs_pcs s)" using inv(2) Suc.prems(2) by simp
  have np: "in_Enqueue (qs_pcs s ! i) \<Longrightarrow> \<exists>q pc. Enqueue_step (qs_q s) (qs_pcs s ! i) = Some (q, pc)"
    "in_Dequeue (qs_pcs s ! i) \<Longrightarrow> \<exists>q pc. Dequeue_step (qs_q s) (qs_pcs s ! i) = Some (q, pc)"
    using steps_defined [OF Suc.prems(1,2)] by auto
  show ?case
  proof (cases "in_Enqueue (qs_pcs s ! i)")
    case True
    then obtain q pc where "Enqueue_step (qs_q s) (qs_pcs s ! i) = Some (q, pc)" using np by blast
    then show ?thesis using go [OF step_Enqueue [OF i]] Enqueue_step_decreases [OF inv(1) i] True by simp
  next
    case False
    show ?thesis
    proof (cases "in_Dequeue (qs_pcs s ! i)")
      case True
      then obtain q pc where "Dequeue_step (qs_q s) (qs_pcs s ! i) = Some (q, pc)" using np by blast
      then show ?thesis using go [OF step_Dequeue [OF i]] Dequeue_step_decreases [OF inv(1) i] True False by simp
    qed (use False in simp)
  qed
qed

text \<open>
  C21: every call can finish. From every reachable state, with the other goroutines stopped
  anywhere inside their calls, a goroutine that runs alone returns after at most 15 accesses: no
  goroutine ever waits for another one.
\<close>

theorem lock_free_queue_obstruction_free:
  assumes "q_reach n s" and "i < n"
  shows "\<exists>q' pc'. q_solo 15 (qs_q s) (qs_pcs s ! i) = Some (q', pc') \<and> \<not> in_Enqueue pc' \<and> \<not> in_Dequeue pc'"
  by (rule q_solo_ends [OF assms accesses_left_bound])

theorem lock_free_queue_obstruction_free_witness:
  "\<exists>q' pc'. q_solo 15 (qs_q linking) (qs_pcs linking ! 1) = Some (q', pc') \<and> \<not> in_Enqueue pc' \<and> \<not> in_Dequeue pc'"
  by (rule lock_free_queue_obstruction_free [OF linking_reach]) simp

end
