(* ===== verification/Windows.thy ===== *)
theory Windows
  imports Engine
begin

text \<open>
  \<open>engine_windows.go\<close> and \<open>connection_windows.go\<close>: the server on package \<open>net\<close>, with one
  goroutine per connection. A network connection is the state of a reader; listening and the
  results of \<open>Accept\<close> are given. The table of connections and the inbound buffer are those of
  the other platforms. The receive loop is the client's, so what is proved of the client holds
  for every session of this server.
\<close>

section \<open>Connections\<close>

record 's winconn =
  wc_Conn :: 's
  wc_sysfd :: "32 word"
  wc_in :: ering

definition win_newTCPConn :: "'s \<Rightarrow> 32 word \<Rightarrow> 's winconn" where
  "win_newTCPConn dstConn fd = \<lparr>wc_Conn = dstConn, wc_sysfd = fd, wc_in = \<lparr>er_rb = None\<rparr>\<rparr>"

definition win_Peek :: "'s winconn \<Rightarrow> int \<Rightarrow> (byte list \<times> goerror option) option" where
  "win_Peek c n = in_Peek (wc_in c) n"

definition win_resetBuffer :: "'s winconn \<Rightarrow> 's winconn" where
  "win_resetBuffer c = c\<lparr>wc_in := er_Reset (wc_in c)\<rparr>"

definition win_Discard :: "world \<Rightarrow> 's winconn \<Rightarrow> int \<Rightarrow> (int \<times> goerror option \<times> world \<times> 's winconn) option" where
  "win_Discard w c n =
     do { (d, e, w, ib) \<leftarrow> in_Discard w (wc_in c) n; Some (d, e, w, c\<lparr>wc_in := ib\<rparr>) }"

section \<open>A session\<close>

text \<open>
  \<open>process\<close>, with the calls it makes in order and the table of connections, from which the
  branch of a failed read deletes the connection. Every way out runs the deferred \<open>Close\<close>.
\<close>

partial_function (option) win_process ::
  "'s reader \<Rightarrow> ('h header \<times> 'h) option \<Rightarrow> world \<Rightarrow> 's winconn connMatrix \<Rightarrow> 's winconn \<Rightarrow> byte list \<Rightarrow> call list \<Rightarrow>
   (call list \<times> world \<times> 's winconn connMatrix \<times> 's winconn) option" where
  "win_process rd dec w conns c buf calls =
     do {
       (n, err, buf, s) \<leftarrow> rd (wc_Conn c) buf;
       let c = c\<lparr>wc_Conn := s\<rparr>;
       if err \<noteq> None then
         (let calls = calls @ [OnClose];
              conns = cm_delConn conns (sint (wc_sysfd c));
              calls = calls @ [ConnClose];
              (w, ib) = er_Done w (wc_in c)
          in Some (calls @ [ConnClose], w, conns, c\<lparr>wc_in := ib\<rparr>))
       else do {
         (w, ib) \<leftarrow> (if n > 0 then
             do { v \<leftarrow> lview buf 0 n; (_, _, w, ib) \<leftarrow> er_Write w (wc_in c) v; Some (w, ib) }
           else Some (w, wc_in c));
         let c = c\<lparr>wc_in := ib\<rparr>;
         (case dec of
            Some d \<Rightarrow>
              do {
                (ms, w, ib) \<leftarrow> decode_loop (fst d) (snd d) w (wc_in c) [];
                win_process rd dec w conns (c\<lparr>wc_in := ib\<rparr>) buf (calls @ map (\<lambda>m. OnTraffic (fst m) (snd m)) ms)
              }
          | None \<Rightarrow>
              do {
                (data, err) \<leftarrow> win_Peek c (-1);
                if err \<noteq> None then Some (calls @ [ConnClose], w, conns, c)
                else win_process rd dec w conns c buf (calls @ [OnReceive data])
              })
       }
     }"

section \<open>The server\<close>

text \<open>
  The accept loop of \<open>Start\<close> on the results of \<open>Accept\<close> so far: the number of the last
  connection and the connections for which \<open>process\<close> was started. \<open>AddInt32\<close> wraps.
\<close>

fun win_accept_loop :: "32 word \<Rightarrow> (goerror + 's) list \<Rightarrow> 32 word \<times> 's winconn list" where
  "win_accept_loop cid [] = (cid, [])"
| "win_accept_loop cid (Inl err # results) = win_accept_loop cid results"
| "win_accept_loop cid (Inr c # results) =
     (let cid = cid + 1;
          (last, cs) = win_accept_loop cid results
      in (last, win_newTCPConn c cid # cs))"

text \<open>
  \<open>Start\<close> and \<open>Server\<close>: a call that returns does so with an error or \<open>nil\<close>; a call that is
  still accepting has started these sessions. \<open>Start\<close> has no result.
\<close>

datatype ('r, 's) serving = Returned 'r | Serving "32 word" "'s winconn list"

definition win_Start ::
  "(string \<Rightarrow> string \<Rightarrow> goerror option) \<Rightarrow> string \<Rightarrow> string \<Rightarrow> 32 word \<Rightarrow> (goerror + 's) list \<Rightarrow> (unit, 's) serving" where
  "win_Start listen network addr cid results =
     (case listen network addr of
        Some err \<Rightarrow> Returned ()
      | None \<Rightarrow> case win_accept_loop cid results of (cid, cs) \<Rightarrow> Serving cid cs)"

definition win_Server ::
  "(string \<Rightarrow> string \<Rightarrow> goerror option) \<Rightarrow> int \<Rightarrow> string \<Rightarrow> option_fn list \<Rightarrow> (goerror + 's) list \<Rightarrow>
   (goerror option, 's) serving option" where
  "win_Server listen numCPU protoAddr opts results =
     do {
       r \<leftarrow> server_options numCPU opts;
       (case r of
          Inl err \<Rightarrow> Some (Returned (Some err))
        | Inr options \<Rightarrow>
            let (network, addr) = parseProtoAddr protoAddr in
            (case win_Start listen network addr 0 results of
               Returned _ \<Rightarrow> Some (Returned None)
             | Serving cid cs \<Rightarrow> Some (Serving cid cs)))
     }"

section \<open>A session is a client's receive loop\<close>

abbreviation win_view :: "call list \<times> world \<times> 's winconn connMatrix \<times> 's winconn \<Rightarrow> call list \<times> world \<times> ering \<times> 's" where
  "win_view r \<equiv> (case r of (calls, w, conns, c) \<Rightarrow> (calls, w, wc_in c, wc_Conn c))"

abbreviation cli_view :: "call list \<times> world \<times> client \<times> 's \<Rightarrow> call list \<times> world \<times> ering \<times> 's" where
  "cli_view r \<equiv> (case r of (calls, w, cli, s) \<Rightarrow> (calls, w, cl_in cli, s))"

lemma win_process_client:
  assumes "win_process rd dec w conns c buf calls = Some r"
  shows "map_option cli_view (cli_process rd dec w \<lparr>cl_in = wc_in c\<rparr> buf (wc_Conn c) calls) = Some (win_view r)"
  using assms
proof (induction rule: win_process.raw_induct [rotated, consumes 1, case_names step])
  case (step win_process rd dec w conns c buf calls r)
  from step(2) show ?case
    by (subst cli_process.simps)
      (auto simp: Let_def win_Peek_def dest!: step(1) split: option.splits prod.splits if_splits bind_splits)
qed

lemma client_win_process:
  assumes "cli_process rd dec w cli buf s calls = Some r"
  shows "map_option win_view (win_process rd dec w conns \<lparr>wc_Conn = s, wc_sysfd = fd, wc_in = cl_in cli\<rparr> buf calls) =
    Some (cli_view r)"
  using assms
proof (induction rule: cli_process.raw_induct [rotated, consumes 1, case_names step])
  case (step cli_process rd dec w cli buf s calls r)
  obtain n err buf' s' where rd: "rd s buf = Some (n, err, buf', s')"
    using step(2) by (auto split: bind_splits)
  show ?case
  proof (cases err)
    case (Some e)
    then show ?thesis using step(2) rd by (subst win_process.simps) (auto simp: Let_def split: prod.splits)
  next
    case None
    obtain w' ib where ib: "(if n > 0 then
             do { v \<leftarrow> lview buf' 0 n; (_, _, w, ib) \<leftarrow> er_Write w (cl_in cli) v; Some (w, ib) }
           else Some (w, cl_in cli)) = Some (w', ib)"
      using step(2) rd None by (auto split: bind_splits)
    show ?thesis
    proof (cases dec)
      case (Some d)
      then show ?thesis using step(2) rd None ib
        by (subst win_process.simps, cases "0 < n") (auto simp: Let_def dest!: step(1) split: bind_splits prod.splits)
    next
      case decoder: None
      then show ?thesis using step(2) rd None ib
        by (subst win_process.simps, cases "0 < n") (auto simp: Let_def win_Peek_def dest!: step(1) split: bind_splits prod.splits if_splits)
    qed
  qed
qed

text \<open>
  C23: a session of the Windows server is a client's receive loop. From the same inbound
  buffer and connection, \<open>process\<close> of the server returns exactly when \<open>process\<close> of the client
  returns, and then with the same calls of the handler in the same order, the same buffers
  and the same connection.
\<close>

theorem windows_process_is_client_process:
  "map_option (\<lambda>(calls, w, conns, c). (calls, w, wc_in c, wc_Conn c))
     (win_process rd dec w conns \<lparr>wc_Conn = s, wc_sysfd = fd, wc_in = ib\<rparr> buf calls) =
   map_option (\<lambda>(calls, w, cli, s). (calls, w, cl_in cli, s)) (cli_process rd dec w \<lparr>cl_in = ib\<rparr> buf s calls)"
  (is "map_option _ ?win = map_option _ ?cli")
proof (cases ?win)
  case (Some r)
  from win_process_client [OF Some] Some show ?thesis by (simp only: winconn.simps option.map)
next
  case None
  have "?cli = None"
  proof (rule ccontr)
    assume "?cli \<noteq> None"
    then obtain r where "?cli = Some r" by blast
    from client_win_process [OF this, of conns fd] None show False by simp
  qed
  with None show ?thesis by simp
qed

section \<open>Runs of the server\<close>

text \<open>The connections \<open>Accept\<close> returned, and the numbers they get.\<close>

definition accepted_conns :: "(goerror + 's) list \<Rightarrow> 's list" where
  "accepted_conns results = [c. Inr c \<leftarrow> results]"

lemma accepted_conns_simps [simp]:
  "accepted_conns [] = []" "accepted_conns (Inl e # rs) = accepted_conns rs"
  "accepted_conns (Inr c # rs) = c # accepted_conns rs"
  by (simp_all add: accepted_conns_def)

lemma win_accept_loop_spec:
  "map wc_Conn (snd (win_accept_loop cid rs)) = accepted_conns rs \<and>
    map wc_sysfd (snd (win_accept_loop cid rs)) = map (\<lambda>i. cid + 1 + word_of_nat i) [0..<length (accepted_conns rs)] \<and>
    fst (win_accept_loop cid rs) = cid + word_of_nat (length (accepted_conns rs)) \<and>
    (\<forall>c \<in> set (snd (win_accept_loop cid rs)). wc_in c = \<lparr>er_rb = None\<rparr>)"
proof (induction cid rs rule: win_accept_loop.induct)
  case (3 cid c rs)
  have "map (\<lambda>i. cid + 1 + word_of_nat i) [0..<Suc n] = (cid + 1) # map (\<lambda>i. cid + 1 + 1 + word_of_nat i) [0..<n]" for n
    by (induction n) (simp_all add: algebra_simps)
  then show ?case using 3 by (auto simp: Let_def win_newTCPConn_def split_def simp del: upt_Suc)
qed simp_all

text \<open>
  C14: the Windows server delivers the messages of every connection. Whatever \<open>Accept\<close>
  returned so far, failures included, \<open>Start\<close> is still accepting, it has started one session
  for every connection, in the order of their arrival and, up to \<open>2 ^ 32\<close> of them, under
  distinct numbers; and every session whose stream is a sequence of frames, cut into reads in
  any way, hands each frame to \<open>OnTraffic\<close> once and in order, then closes and returns.
\<close>

theorem windows_server_delivers_every_frame:
  assumes "listen network addr = None" and "length (accepted_conns results) \<le> 2 ^ 32"
  shows "\<exists>last cs. win_Start listen network addr 0 results = Serving last cs \<and>
    map wc_Conn cs = accepted_conns results \<and> distinct (map wc_sysfd cs) \<and>
    (\<forall>c \<in> set cs. \<forall>w fs conns. w_ok w \<longrightarrow> list_all (frame_ok default_header) fs \<longrightarrow>
       script_data (wc_Conn c) = frames_bytes default_header fs \<longrightarrow> script_clean (wc_Conn c) \<longrightarrow>
       length (script_data (wc_Conn c)) \<le> rb_limit \<longrightarrow>
       (\<exists>w' conns' c'. win_process script_read (Some (default_header, dd_NewHead)) w conns c (replicate 1024 0) [] =
          Some (map (traffic default_header) fs @ [OnClose, ConnClose, ConnClose], w', conns', c')))"
proof -
  obtain l cs where r: "win_accept_loop 0 results = (l, cs)" by (cases "win_accept_loop 0 results")
  note a = win_accept_loop_spec [of 0 results, unfolded r, simplified]
  have "distinct (map wc_sysfd cs)"
  proof -
    have "inj_on (\<lambda>i. 1 + word_of_nat i :: 32 word) {0..<length (accepted_conns results)}"
      using assms(2) by (auto intro!: inj_onI simp: word_of_nat_eq_iff take_bit_nat_eq_self_iff) (simp add: take_bit_nat_eq_self)
    then show ?thesis using a by (simp add: distinct_map)
  qed
  moreover have "\<exists>w' conns' c'. win_process script_read (Some (default_header, dd_NewHead)) w conns c (replicate 1024 0) [] =
      Some (map (traffic default_header) fs @ [OnClose, ConnClose, ConnClose], w', conns', c')"
    if c: "c \<in> set cs" "w_ok w" "list_all (frame_ok default_header) fs"
      "script_data (wc_Conn c) = frames_bytes default_header fs" "script_clean (wc_Conn c)"
      "length (script_data (wc_Conn c)) \<le> rb_limit" for c w fs conns
  proof -
    have "c = \<lparr>wc_Conn = wc_Conn c, wc_sysfd = wc_sysfd c, wc_in = \<lparr>er_rb = None\<rparr>\<rparr>" using a c(1) by (cases c) auto
    then obtain s fd where s: "c = \<lparr>wc_Conn = s, wc_sysfd = fd, wc_in = \<lparr>er_rb = None\<rparr>\<rparr>" "wc_Conn c = s" by blast
    obtain r where r: "cli_process script_read (Some (default_header, dd_NewHead)) w \<lparr>cl_in = \<lparr>er_rb = None\<rparr>\<rparr>
        (replicate 1024 0) s [] = Some (map (traffic default_header) fs @ [OnClose, ConnClose, ConnClose], r)"
      using dh_client_process c s(2) by blast
    show ?thesis unfolding s(1) using client_win_process [OF r, of conns fd] by (auto split: prod.splits)
  qed
  ultimately show ?thesis using a assms(1) r by (auto simp: win_Start_def)
qed

text \<open>The witness: a failed \<open>Accept\<close>, then a connection whose only frame is cut in two.\<close>

theorem windows_server_delivers_every_frame_witness:
  "\<exists>w' conns' c'. win_process script_read (Some (default_header, dd_NewHead)) empty_world cm_init
      (win_newTCPConn [([1, 0, 0, 0, 9, 0], None), ([0, 0, 65], None), ([], Some EOF)] 1) (replicate 1024 0) [] =
    Some ([OnTraffic [1, 0, 0, 0, 9, 0, 0, 0] [65], OnClose, ConnClose, ConnClose], w', conns', c')"
proof -
  let ?s = "[([1, 0, 0, 0, 9, 0], None), ([0, 0, 65], None), ([], Some EOF)] :: rscript"
  let ?f = "(\<lparr>dh_bodyLen = 1, dh_msgId = 9\<rparr>, [65]) :: defaultHead \<times> byte list"
  have "length (accepted_conns [Inl EINVAL, Inr ?s]) \<le> 2 ^ 32" by simp
  from windows_server_delivers_every_frame [where listen = "\<lambda>_ _. None", OF refl this] obtain l cs
    where r: "win_Start (\<lambda>_ _. None) [] [] 0 [Inl EINVAL, Inr ?s] = Serving l cs"
      "\<forall>c \<in> set cs. \<forall>w fs conns. w_ok w \<longrightarrow> list_all (frame_ok default_header) fs \<longrightarrow>
       script_data (wc_Conn c) = frames_bytes default_header fs \<longrightarrow> script_clean (wc_Conn c) \<longrightarrow>
       length (script_data (wc_Conn c)) \<le> rb_limit \<longrightarrow>
       (\<exists>w' conns' c'. win_process script_read (Some (default_header, dd_NewHead)) w conns c (replicate 1024 0) [] =
          Some (map (traffic default_header) fs @ [OnClose, ConnClose, ConnClose], w', conns', c'))"
    by blast
  have cs: "win_newTCPConn ?s 1 \<in> set cs" using r(1) by (auto simp: win_Start_def Let_def)
  have f: "frame_bytes default_header ?f = [1, 0, 0, 0, 9, 0, 0, 0, 65]" "list_all (frame_ok default_header) [?f]"
      "traffic default_header ?f = OnTraffic [1, 0, 0, 0, 9, 0, 0, 0] [65]"
    by (simp_all add: frame_ok_def default_header_def dh_GetBodyLen_def frame_bytes_def dh_Encode_def le_put_4 traffic_def)
  have d: "wc_Conn (win_newTCPConn ?s 1) = ?s" by (simp add: win_newTCPConn_def)
  have s: "script_data ?s = frames_bytes default_header [?f]" "script_clean ?s" "length (script_data ?s) \<le> rb_limit"
    by (simp_all add: f script_clean_def rb_limit_def)
  have "w_ok empty_world" by simp
  from r(2) [rule_format, OF cs this f(2), unfolded d, OF s] show ?thesis by (simp add: f)
qed

end
