(* ===== verification/ConnOptions.thy ===== *)
theory ConnOptions
  imports FdUnix Engine
begin

text \<open>
  The rest of \<open>connection_unix.go\<close> and of the server: the addresses, the descriptor and the
  socket options of a connection, the deadlines it does not support, and the ticker of the
  server, which visits every connection.
\<close>

section \<open>Connection\<close>

definition conn_LocalAddr :: "conn \<Rightarrow> net_addr option" where
  "conn_LocalAddr c = c_laddr c"

definition conn_RemoteAddr :: "conn \<Rightarrow> net_addr option" where
  "conn_RemoteAddr c = c_remoteAddr c"

definition conn_Fd :: "conn \<Rightarrow> int" where
  "conn_Fd c = c_sysfd c"

definition conn_Dup :: "('st, 'k) fd_sys \<Rightarrow> 'k \<Rightarrow> int \<Rightarrow> conn \<Rightarrow> int \<times> string \<times> goerror option \<times> int \<times> 'k" where
  "conn_Dup sys k tryDupCloexec c = DupCloseOnExec sys k tryDupCloexec (c_sysfd c)"

definition conn_SetReadBuffer :: "'k sock_sys \<Rightarrow> 'k \<Rightarrow> conn \<Rightarrow> int \<Rightarrow> goerror option \<times> 'k" where
  "conn_SetReadBuffer sys k c bytes = SetRecvBuffer sys k (c_sysfd c) bytes"

definition conn_SetWriteBuffer :: "'k sock_sys \<Rightarrow> 'k \<Rightarrow> conn \<Rightarrow> int \<Rightarrow> goerror option \<times> 'k" where
  "conn_SetWriteBuffer sys k c bytes = SetSendBuffer sys k (c_sysfd c) bytes"

definition conn_SetLinger :: "'k sock_sys \<Rightarrow> 'k \<Rightarrow> conn \<Rightarrow> int \<Rightarrow> goerror option \<times> 'k" where
  "conn_SetLinger sys k c sec = SetLinger sys k (c_sysfd c) sec"

definition conn_SetNoDelay :: "'k sock_sys \<Rightarrow> 'k \<Rightarrow> conn \<Rightarrow> bool \<Rightarrow> goerror option \<times> 'k" where
  "conn_SetNoDelay sys k c noDelay = SetNoDelay sys k (c_sysfd c) (if noDelay then 1 else 0)"

text \<open>
  A \<open>time.Duration\<close> is a number of nanoseconds. \<open>int(d.Seconds())\<close> cuts off the fraction
  of a second, towards zero; this is exact for durations under \<open>2 ^ 22\<close> seconds, beyond which
  the 64-bit float of \<open>Seconds\<close> may round a fraction up to the next second.
\<close>

definition whole_seconds :: "int \<Rightarrow> int" where
  "whole_seconds d = d sdiv 1000000000"

definition conn_SetKeepAlivePeriod :: "'k sock_sys \<Rightarrow> 'k \<Rightarrow> conn \<Rightarrow> int \<Rightarrow> goerror option \<times> 'k" where
  "conn_SetKeepAlivePeriod sys k c d = SetKeepAlivePeriod sys k (c_sysfd c) (whole_seconds d)"

definition conn_SetDeadline :: "conn \<Rightarrow> int \<Rightarrow> goerror option" where
  "conn_SetDeadline c t = Some ErrUnsupportedOp"

definition conn_SetReadDeadline :: "conn \<Rightarrow> int \<Rightarrow> goerror option" where
  "conn_SetReadDeadline c t = Some ErrUnsupportedOp"

definition conn_SetWriteDeadline :: "conn \<Rightarrow> int \<Rightarrow> goerror option" where
  "conn_SetWriteDeadline c t = Some ErrUnsupportedOp"

section \<open>Keep-alive\<close>

text \<open>Less than a second is no period: the option is refused and no system call is made.\<close>

lemma SetKeepAlivePeriod_subsecond:
  assumes "d < 1000000000"
  shows "conn_SetKeepAlivePeriod sys k c d = (Some (OtherError ''invalid time duration''), k)"
proof -
  have "whole_seconds d \<le> 0"
    using assms by (auto simp: whole_seconds_def signed_divide_int_def sgn_if zdiv_eq_0_iff)
  then show ?thesis by (simp add: conn_SetKeepAlivePeriod_def SetKeepAlivePeriod_def)
qed

section \<open>The ticker\<close>

text \<open>One tick of \<open>ticker\<close>, without its printing: the table after the visit.\<close>

definition srv_tick :: "'h server \<Rightarrow> 'h server option" where
  "srv_tick sv = do { m \<leftarrow> cm_iterate conn_ConnInfo (sv_conns sv); Some (sv\<lparr>sv_conns := m\<rparr>) }"

text \<open>A connection that is in use: its lock is free and its buffers are in order.\<close>

definition conn_fit :: "world \<Rightarrow> conn \<Rightarrow> bool" where
  "conn_fit w c \<longleftrightarrow> 0 < c_sysfd c \<and> \<not> c_locked c \<and> er_ok (c_in c) \<and> eb_ok w (c_out c)"

text \<open>What a visit may not change: everything but the slices the list of the outbound buffer hands out.\<close>

definition same_conn :: "conn \<Rightarrow> conn \<Rightarrow> bool" where
  "same_conn c c' \<longleftrightarrow> c_sysfd c' = c_sysfd c \<and> c_in c' = c_in c \<and> eb_contents (c_out c') = eb_contents (c_out c) \<and>
     c_laddr c' = c_laddr c \<and> c_remoteAddr c' = c_remoteAddr c \<and> c_pa c' = c_pa c \<and> c_locked c' = c_locked c"

lemma conn_ConnInfo_fit:
  assumes "conn_fit w c"
  shows "\<exists>c'. conn_ConnInfo c = Some (True, c') \<and> conn_fit w c' \<and> same_conn c c'"
proof -
  have ok: "0 < c_sysfd c" "\<not> c_locked c" "er_ok (c_in c)" "eb_ok w (c_out c)"
    using assms by (simp_all add: conn_fit_def)
  obtain views ob where ob: "eb_Peek (c_out c) (-1) = Some (views, ob)" "eb_ok w ob" "eb_contents ob = eb_contents (c_out c)"
    using eb_Peek_spec [OF ok(4)] by blast
  let ?o = "if eb_Buffered (c_out c) > 0 then ob else c_out c"
  obtain d e where "(if er_Buffered (c_in c) > 0 then conn_Peek c (-1) else Some ([], None)) = Some (d, e)"
    using in_Peek_whole [OF ok(3), of "-1"] by (cases "0 < er_Buffered (c_in c)"; cases "er_contents (c_in c)") (auto simp: conn_Peek_def)
  then have "conn_ConnInfo c = Some (True, if e = None then c\<lparr>c_locked := False, c_out := ?o\<rparr> else c)"
    using ok(1,2) ob(1) by (cases e) (simp_all add: conn_ConnInfo_def c_lock_def c_unlock_def)
  then show ?thesis using ok ob(2,3)
    by (intro exI [of _ "if e = None then c\<lparr>c_locked := False, c_out := ?o\<rparr> else c"])
      (simp add: conn_fit_def same_conn_def)
qed

lemma conn_ConnInfo_closed: "c_sysfd c \<le> 0 \<Longrightarrow> conn_ConnInfo c = Some (False, c)"
  by (simp add: conn_ConnInfo_def)

lemma iterate_ConnInfo:
  assumes "\<forall>(fd, c) \<in> set m. c_sysfd c \<le> 0 \<or> conn_fit w c"
  shows "\<exists>m'. iterate_map conn_ConnInfo m = Some m' \<and>
    list_all2 (\<lambda>(fd, c) (fd', c'). fd' = fd \<and> conn_fit w c' \<and> same_conn c c') (filter (\<lambda>(fd, c). 0 < c_sysfd c) m) m'"
  using assms
proof (induction m)
  case (Cons x m)
  obtain fd c where x: "x = (fd, c)" by (cases x)
  obtain m' where m': "iterate_map conn_ConnInfo m = Some m'"
      "list_all2 (\<lambda>(fd, c) (fd', c'). fd' = fd \<and> conn_fit w c' \<and> same_conn c c') (filter (\<lambda>(fd, c). 0 < c_sysfd c) m) m'"
    using Cons by auto
  show ?case
  proof (cases "c_sysfd c \<le> 0")
    case True
    then show ?thesis using x m' by (simp add: conn_ConnInfo_closed)
  next
    case False
    then obtain c' where "conn_ConnInfo c = Some (True, c')" "conn_fit w c'" "same_conn c c'"
      using conn_ConnInfo_fit [of w c] Cons.prems x by auto
    then show ?thesis using x m' False by simp
  qed
qed simp

text \<open>
  C27: the ticker disturbs nobody. Over a table in which every connection is closed or in use,
  a tick returns; afterwards the table holds, in the same order and under the same
  descriptors, exactly the connections that are not closed, each still in use and with the
  same inbound data, the same pending output, the same addresses and a free lock.
\<close>

theorem ticker_keeps_live_connections:
  assumes "\<forall>(fd, c) \<in> set (connMap (sv_conns sv)). c_sysfd c \<le> 0 \<or> conn_fit w c"
  shows "\<exists>sv'. srv_tick sv = Some sv' \<and> sv' = sv\<lparr>sv_conns := sv_conns sv'\<rparr> \<and>
    list_all2 (\<lambda>(fd, c) (fd', c'). fd' = fd \<and> conn_fit w c' \<and> same_conn c c')
      (filter (\<lambda>(fd, c). 0 < c_sysfd c) (connMap (sv_conns sv))) (connMap (sv_conns sv'))"
  using iterate_ConnInfo [OF assms] by (auto simp: srv_tick_def cm_iterate_def)

text \<open>The witness: a connection in use and one that was closed but is still in the table.\<close>

definition two_conns :: "defaultHead server" where
  "two_conns = \<lparr>sv_PollFd = 5, sv_dec = None, sv_opts = new_Options, sv_inShutdown = 0, sv_lnfd = 3,
     sv_conns = \<lparr>connMap = [(7, conn7), (8, conn7\<lparr>c_sysfd := -1\<rparr>)]\<rparr>, sv_calls = []\<rparr>"

lemma conn7_fit: "conn_fit empty_world conn7" and conn7_sysfd: "c_sysfd conn7 = 7"
  using newTCPConn_spec [of empty_world 64 5 7 None] newTCPConn_empty_world
  by (auto simp: conn_fit_def er_ok_def)

theorem ticker_keeps_live_connections_witness:
  "\<exists>sv'. srv_tick two_conns = Some sv' \<and> map fst (connMap (sv_conns sv')) = [7]"
proof -
  have t: "connMap (sv_conns two_conns) = [(7, conn7), (8, conn7\<lparr>c_sysfd := -1\<rparr>)]" by (simp add: two_conns_def)
  have "\<forall>(fd, c) \<in> set (connMap (sv_conns two_conns)). c_sysfd c \<le> 0 \<or> conn_fit empty_world c"
    unfolding t using conn7_fit by simp
  from ticker_keeps_live_connections [OF this] show ?thesis
    unfolding t using conn7_sysfd by (auto simp: list_all2_Cons1)
qed

end
