(* ===== verification/Platform.thy ===== *)
theory Platform
  imports Sockets
begin

text \<open>
  What differs between the platforms in \<open>internal/socket\<close> and \<open>internal/io\<close>: the backlog of a
  listener (\<open>sock_linux.go\<close>, \<open>sock_bsd.go\<close>), the creation of a socket in one system call or in
  four (\<open>sock_cloexec.go\<close>, \<open>sys_cloexec.go\<close>), keep-alive on Darwin, and vectored I/O on the
  BSDs (\<open>io_bsd.go\<close>). The raw system calls are functions on a kernel state.
\<close>

section \<open>The backlog of a listener\<close>

text \<open>
  \<open>ReadString\<close>, \<open>strings.Fields\<close> up to its first field and \<open>strconv.Atoi\<close> of the standard
  library, on ASCII text.
\<close>

definition ReadLine :: "string \<Rightarrow> string option" where
  "ReadLine s = (if CHR 0x0A \<in> set s then Some (takeWhile (\<lambda>c. c \<noteq> CHR 0x0A) s @ [CHR 0x0A]) else None)"

definition is_space :: "char \<Rightarrow> bool" where
  "is_space c \<longleftrightarrow> (let n = of_char c :: nat in n = 32 \<or> 9 \<le> n \<and> n \<le> 13)"

definition first_field :: "string \<Rightarrow> string" where
  "first_field s = takeWhile (\<lambda>c. \<not> is_space c) (dropWhile is_space s)"

definition is_digit :: "char \<Rightarrow> bool" where
  "is_digit c \<longleftrightarrow> (let n = of_char c :: nat in 48 \<le> n \<and> n \<le> 57)"

definition Atoi :: "string \<Rightarrow> int option" where
  "Atoi s =
     (let (neg, ds) = (case s of [] \<Rightarrow> (False, [])
         | c # r \<Rightarrow> if c = CHR ''-'' then (True, r) else if c = CHR ''+'' then (False, r) else (False, c # r)) in
      if ds = [] \<or> \<not> list_all is_digit ds then None
      else let n = int (dec_value ds) in
        if neg then (if n \<le> 2 ^ 63 then Some (- n) else None)
        else (if n < 2 ^ 63 then Some n else None))"

text \<open>\<open>file\<close> is what \<open>/proc/sys/net/core/somaxconn\<close> holds, if it can be opened.\<close>

definition maxListenerBacklog_linux :: "int \<Rightarrow> string option \<Rightarrow> int" where
  "maxListenerBacklog_linux SOMAXCONN file =
     (case file of
        None \<Rightarrow> SOMAXCONN
      | Some text \<Rightarrow>
          (case ReadLine text of
             None \<Rightarrow> SOMAXCONN
           | Some line \<Rightarrow>
               let f = first_field line in
               if f = [] then SOMAXCONN
               else (case Atoi f of
                   None \<Rightarrow> SOMAXCONN
                 | Some n \<Rightarrow> if n = 0 then SOMAXCONN else if n > 2 ^ 16 - 1 then 2 ^ 16 - 1 else n)))"

definition maxListenerBacklog_bsd :: "int \<Rightarrow> string \<Rightarrow> (string \<Rightarrow> 32 word \<times> goerror option) \<Rightarrow> int" where
  "maxListenerBacklog_bsd SOMAXCONN GOOS SysctlUint32 =
     (let (n, err) = (if GOOS = ''darwin'' then SysctlUint32 ''kern.ipc.somaxconn''
                      else if GOOS = ''freebsd'' then SysctlUint32 ''kern.ipc.soacceptqueue''
                      else (0, None)) in
      if n = 0 \<or> err \<noteq> None then SOMAXCONN
      else int (unat (if n > 2 ^ 16 - 1 then 2 ^ 16 - 1 else n)))"

section \<open>Creating a socket\<close>

record 'k raw_sock =
  rs_Socket :: "'k \<Rightarrow> int \<Rightarrow> sock_type \<Rightarrow> bool \<Rightarrow> bool \<Rightarrow> int \<times> goerror option \<times> 'k"
  rs_CloseOnExec :: "'k \<Rightarrow> int \<Rightarrow> 'k"
  rs_SetNonblock :: "'k \<Rightarrow> int \<Rightarrow> bool \<Rightarrow> goerror option \<times> 'k"
  rs_Close :: "'k \<Rightarrow> int \<Rightarrow> goerror option \<times> 'k"

text \<open>
  The two booleans of \<open>rs_Socket\<close> are the flags \<open>SOCK_NONBLOCK\<close> and \<open>SOCK_CLOEXEC\<close>. The lock
  against a fork between two calls is not part of the state.
\<close>

definition sysSocket :: "'k raw_sock \<Rightarrow> 'k \<Rightarrow> int \<Rightarrow> sock_type \<Rightarrow> int \<times> goerror option \<times> 'k" where
  "sysSocket sys k family sotype = rs_Socket sys k family sotype True True"

definition sysSocket_darwin :: "'k raw_sock \<Rightarrow> 'k \<Rightarrow> int \<Rightarrow> sock_type \<Rightarrow> int \<times> goerror option \<times> 'k" where
  "sysSocket_darwin sys k family sotype =
     (case rs_Socket sys k family sotype False False of
        (fd, Some err, k) \<Rightarrow> (fd, Some err, k)
      | (fd, None, k) \<Rightarrow>
          let k = rs_CloseOnExec sys k fd in
          (case rs_SetNonblock sys k fd True of
             (None, k) \<Rightarrow> (fd, None, k)
           | (Some err, k) \<Rightarrow> (fd, Some err, snd (rs_Close sys k fd))))"

section \<open>Keep-alive on Darwin\<close>

definition ENOPROTOOPT :: goerror where
  "ENOPROTOOPT = Errno 42"

text \<open>The \<open>switch\<close> compares the wrapped error with \<open>nil\<close> and with the bare error number.\<close>

definition SetKeepAlivePeriod_darwin :: "'k sock_sys \<Rightarrow> 'k set_opt" where
  "SetKeepAlivePeriod_darwin sys k fd secs =
     (if secs \<le> 0 then (Some (OtherError ''invalid time duration''), k)
      else
        case wrap_err ''setsockopt'' (ss_setopt sys k fd SOL_SOCKET SO_KEEPALIVE (OptInt 1)) of
          (Some e, k) \<Rightarrow> (Some e, k)
        | (None, k) \<Rightarrow>
            (case wrap_err ''setsockopt'' (ss_setopt sys k fd IPPROTO_TCP TCP_KEEPINTVL (OptInt secs)) of
               (err, k) \<Rightarrow>
                 if err = None \<or> err = Some ENOPROTOOPT
                 then wrap_err ''setsockopt'' (ss_setopt sys k fd IPPROTO_TCP TCP_KEEPALIVE (OptInt secs))
                 else (err, k)))"

section \<open>Vectored I/O on the BSDs\<close>

text \<open>
  An \<open>iovec\<close> points at the bytes of its slice, or at the word \<open>_zero\<close> when the slice is
  empty. The raw call answers an unsigned word and an error number; what it stores in the
  slices comes back with it.
\<close>

record iovec =
  iov_Len :: nat
  iov_Base :: "byte list option"

definition bytes2iovec :: "byte list list \<Rightarrow> iovec list" where
  "bytes2iovec bs = map (\<lambda>b. \<lparr>iov_Len = length b, iov_Base = (if length b > 0 then Some b else None)\<rparr>) bs"

type_synonym 'k sys_writev = "'k \<Rightarrow> int \<Rightarrow> iovec list \<Rightarrow> 64 word \<times> goerror option \<times> 'k"
type_synonym 'k sys_readv = "'k \<Rightarrow> int \<Rightarrow> iovec list \<Rightarrow> 64 word \<times> goerror option \<times> byte list list \<times> 'k"

definition Writev_bsd :: "'k sys_writev \<Rightarrow> 'k \<Rightarrow> int \<Rightarrow> byte list list \<Rightarrow> int \<times> goerror option \<times> 'k" where
  "Writev_bsd sys k fd bs =
     (if length bs = 0 then (0, None, k)
      else case sys k fd (bytes2iovec bs) of
        (n, err, k) \<Rightarrow> if err \<noteq> None then (sint n, err, k) else (sint n, None, k))"

definition Readv_bsd :: "'k sys_readv \<Rightarrow> 'k \<Rightarrow> int \<Rightarrow> byte list list \<Rightarrow> int \<times> goerror option \<times> byte list list \<times> 'k" where
  "Readv_bsd sys k fd bs =
     (if length bs = 0 then (0, None, bs, k)
      else case sys k fd (bytes2iovec bs) of
        (n, err, bs, k) \<Rightarrow> if err \<noteq> None then (sint n, err, bs, k) else (sint n, None, bs, k))"

text \<open>The bytes an \<open>iovec\<close> covers: nothing is lost on the way to the kernel.\<close>

definition iov_bytes :: "iovec \<Rightarrow> byte list" where
  "iov_bytes v = (case iov_Base v of None \<Rightarrow> [] | Some b \<Rightarrow> take (iov_Len v) b)"

lemma bytes2iovec_bytes: "map iov_bytes (bytes2iovec bs) = bs" "sum_list (map iov_Len (bytes2iovec bs)) = length (concat bs)"
  by (induction bs) (simp_all add: bytes2iovec_def iov_bytes_def)

section \<open>Properties of the backlog\<close>

lemma digits_facts:
  assumes "set ds \<subseteq> set ''0123456789''"
  shows "list_all is_digit ds" and "\<forall>c \<in> set ds. \<not> is_space c \<and> c \<noteq> CHR 0x0A \<and> c \<noteq> CHR ''-'' \<and> c \<noteq> CHR ''+''"
proof -
  have "\<forall>c \<in> set ''0123456789''. is_digit c \<and> \<not> is_space c \<and> c \<noteq> CHR 0x0A \<and> c \<noteq> CHR ''-'' \<and> c \<noteq> CHR ''+''"
    by code_simp
  then show "list_all is_digit ds" "\<forall>c \<in> set ds. \<not> is_space c \<and> c \<noteq> CHR 0x0A \<and> c \<noteq> CHR ''-'' \<and> c \<noteq> CHR ''+''"
    using assms by (auto simp: list_all_iff subset_iff)
qed

lemma Atoi_digits:
  assumes "set ds \<subseteq> set ''0123456789''" and "ds \<noteq> []" and "dec_value ds < 2 ^ 63"
  shows "Atoi ds = Some (int (dec_value ds))"
proof -
  obtain c r where c: "ds = c # r" using assms(2) by (cases ds) auto
  have "c \<noteq> CHR ''-''" "c \<noteq> CHR ''+''" using digits_facts(2) [OF assms(1)] c by auto
  then show ?thesis using digits_facts(1) [OF assms(1)] assms(3) c by (simp add: Atoi_def)
qed

lemma backlog_of_number:
  assumes "0 < v" and "v < 2 ^ 63"
  shows "maxListenerBacklog_linux S (Some (bytes_string (decimal v) @ CHR 0x0A # rest)) = min (int v) 65535"
proof -
  let ?ds = "bytes_string (decimal v)"
  have ne: "?ds \<noteq> []" using decimal_nonempty by (simp add: bytes_string_def)
  note f = digits_facts(2) [OF decimal_digits [of v]]
  have "ReadLine (?ds @ CHR 0x0A # rest) = Some (?ds @ [CHR 0x0A])"
    using f by (simp add: ReadLine_def takeWhile_append)
  moreover have "first_field (?ds @ [CHR 0x0A]) = ?ds"
  proof -
    obtain c r where c: "?ds = c # r" using ne by (cases ?ds) auto
    have "dropWhile is_space (?ds @ [CHR 0x0A]) = ?ds @ [CHR 0x0A]" using f c by simp
    moreover have "is_space CHR 0x0A" by code_simp
    ultimately show ?thesis using f by (simp add: first_field_def takeWhile_append)
  qed
  moreover have "Atoi ?ds = Some (int v)"
    using Atoi_digits [OF decimal_digits ne] assms(2) by (simp add: dec_value_decimal)
  ultimately show ?thesis using assms(1) ne by (simp add: maxListenerBacklog_linux_def)
qed

text \<open>
  C40: the backlog is what the kernel allows, within 16 bits. On Linux a setting \<open>v\<close> written to
  the file in decimal is used up to 65535, whatever follows its line; whatever the file holds,
  and on every BSD whatever the call answers, the backlog is not 0 and at most 65535.
\<close>

theorem maxListenerBacklog_fits_16_bits:
  assumes "0 < S" and "S \<le> 65535"
  shows "(0 < v \<and> v < 2 ^ 63 \<longrightarrow>
      maxListenerBacklog_linux S (Some (bytes_string (decimal v) @ CHR 0x0A # rest)) = min (int v) 65535) \<and>
    maxListenerBacklog_linux S file \<noteq> 0 \<and> maxListenerBacklog_linux S file \<le> 65535 \<and>
    0 < maxListenerBacklog_bsd S os ctl \<and> maxListenerBacklog_bsd S os ctl \<le> 65535"
proof -
  have "maxListenerBacklog_linux S file \<noteq> 0" "maxListenerBacklog_linux S file \<le> 65535"
    using assms by (auto simp: maxListenerBacklog_linux_def Let_def split: option.splits)
  moreover have pos: "0 < int (unat (if n > 2 ^ 16 - 1 then 2 ^ 16 - 1 else n)) \<and> int (unat (if n > 2 ^ 16 - 1 then 2 ^ 16 - 1 else n)) \<le> 65535"
    if "n \<noteq> 0" for n :: "32 word"
  proof (cases "n > 2 ^ 16 - 1")
    case False
    then have "unat n \<le> 65535" "0 < unat n" using that by (simp_all add: word_less_nat_alt unat_gt_0)
    then have "0 < int (unat n)" "int (unat n) \<le> 65535" by linarith+
    then show ?thesis using False by (simp only: if_False simp_thms)
  qed simp
  moreover have "0 < maxListenerBacklog_bsd S os ctl \<and> maxListenerBacklog_bsd S os ctl \<le> 65535"
  proof -
    obtain n err where n: "(if os = ''darwin'' then ctl ''kern.ipc.somaxconn''
        else if os = ''freebsd'' then ctl ''kern.ipc.soacceptqueue'' else (0, None)) = (n, err)" by fastforce
    show ?thesis
    proof (cases "n = 0 \<or> err \<noteq> None")
      case True
      then show ?thesis using assms unfolding maxListenerBacklog_bsd_def n by simp
    next
      case False
      then show ?thesis using pos [of n] unfolding maxListenerBacklog_bsd_def n by (simp only: Let_def prod.case if_False) blast
    qed
  qed
  ultimately show ?thesis using backlog_of_number by blast
qed

theorem maxListenerBacklog_fits_16_bits_witness:
  "maxListenerBacklog_linux 4096 (Some (bytes_string (decimal 70000) @ CHR 0x0A # [])) = 65535 \<and>
    maxListenerBacklog_linux 4096 (Some ''4096'') \<noteq> 0"
  using maxListenerBacklog_fits_16_bits [of 4096 70000 "[]" "Some ''4096''"] by simp

section \<open>Properties of sockets\<close>

text \<open>
  What the raw calls do to the open descriptors and to the two sets of descriptors that do
  not block and that a new program does not inherit.
\<close>

definition raw_laws :: "'k raw_sock \<Rightarrow> ('k \<Rightarrow> int set) \<Rightarrow> ('k \<Rightarrow> int set) \<Rightarrow> ('k \<Rightarrow> int set) \<Rightarrow> bool" where
  "raw_laws sys opened nonblock cloexec \<longleftrightarrow>
     (\<forall>k fam ty nb ce fd e k'. rs_Socket sys k fam ty nb ce = (fd, e, k') \<longrightarrow>
        (if e = None then fd \<notin> opened k \<and> opened k' = insert fd (opened k) \<and> (nb \<longrightarrow> fd \<in> nonblock k') \<and> (ce \<longrightarrow> fd \<in> cloexec k')
         else opened k' = opened k)) \<and>
     (\<forall>k fd. opened (rs_CloseOnExec sys k fd) = opened k \<and> fd \<in> cloexec (rs_CloseOnExec sys k fd)) \<and>
     (\<forall>k fd e k'. rs_SetNonblock sys k fd True = (e, k') \<longrightarrow>
        opened k' = opened k \<and> cloexec k' = cloexec k \<and> (e = None \<longrightarrow> fd \<in> nonblock k')) \<and>
     (\<forall>k fd. opened (snd (rs_Close sys k fd)) = opened k - {fd})"

definition new_socket :: "('k \<Rightarrow> int set) \<Rightarrow> ('k \<Rightarrow> int set) \<Rightarrow> ('k \<Rightarrow> int set) \<Rightarrow> 'k \<Rightarrow> int \<times> goerror option \<times> 'k \<Rightarrow> bool" where
  "new_socket opened nonblock cloexec k r \<longleftrightarrow>
     (case r of
        (fd, None, k') \<Rightarrow> fd \<notin> opened k \<and> opened k' = insert fd (opened k) \<and> fd \<in> nonblock k' \<and> fd \<in> cloexec k'
      | (_, Some _, k') \<Rightarrow> opened k' = opened k)"

lemma sysSocket_opens:
  assumes "raw_laws sys opened nonblock cloexec"
  shows "new_socket opened nonblock cloexec k (sysSocket sys k family sotype)"
    and "new_socket opened nonblock cloexec k (sysSocket_darwin sys k family sotype)"
proof -
  note L = assms [unfolded raw_laws_def]
  have sock: "if e = None then fd \<notin> opened k \<and> opened k' = insert fd (opened k) \<and> (nb \<longrightarrow> fd \<in> nonblock k') \<and> (ce \<longrightarrow> fd \<in> cloexec k')
      else opened k' = opened k"
    if "rs_Socket sys k family sotype nb ce = (fd, e, k')" for nb ce fd e k'
    by (rule conjunct1 [OF L, rule_format, OF that])
  have ce: "opened (rs_CloseOnExec sys k fd) = opened k" "fd \<in> cloexec (rs_CloseOnExec sys k fd)" for k fd
    using conjunct1 [OF conjunct2 [OF L]] by blast+
  have nb: "opened k' = opened k" "cloexec k' = cloexec k" "e = None \<Longrightarrow> fd \<in> nonblock k'"
    if "rs_SetNonblock sys k fd True = (e, k')" for k fd e k'
    using conjunct1 [OF conjunct2 [OF conjunct2 [OF L]]] that by blast+
  have cl: "opened (snd (rs_Close sys k fd)) = opened k - {fd}" for k fd
    using conjunct2 [OF conjunct2 [OF conjunct2 [OF L]]] by blast
  show "new_socket opened nonblock cloexec k (sysSocket sys k family sotype)"
    using sock [of True True] by (cases "rs_Socket sys k family sotype True True")
      (auto simp: new_socket_def sysSocket_def split: option.splits)
  show "new_socket opened nonblock cloexec k (sysSocket_darwin sys k family sotype)"
  proof -
    obtain fd e k1 where s: "rs_Socket sys k family sotype False False = (fd, e, k1)"
      by (cases "rs_Socket sys k family sotype False False")
    obtain e2 k2 where n: "rs_SetNonblock sys (rs_CloseOnExec sys k1 fd) fd True = (e2, k2)"
      by (cases "rs_SetNonblock sys (rs_CloseOnExec sys k1 fd) fd True")
    show ?thesis using sock [OF s] s n nb [OF n] ce [where k = k1 and fd = fd] cl [where k = k2 and fd = fd]
      by (cases e; cases e2) (auto simp: new_socket_def sysSocket_darwin_def Let_def)
  qed
qed

text \<open>
  C26: both ways of creating a socket agree. With one system call or with four, \<open>sysSocket\<close>
  either returns a new descriptor that is open, does not block and is closed on \<open>exec\<close>, or it
  reports an error and leaves no descriptor open, also when only the last of the four calls
  fails.
\<close>

theorem sysSocket_new_or_nothing:
  assumes "raw_laws sys opened nonblock cloexec"
  shows "new_socket opened nonblock cloexec k (sysSocket sys k family sotype) \<and>
    new_socket opened nonblock cloexec k (sysSocket_darwin sys k family sotype)"
  using sysSocket_opens [OF assms] by blast

text \<open>The witness: a kernel that cannot switch a descriptor to non-blocking.\<close>

definition fresh_fd :: "int list \<Rightarrow> int" where
  "fresh_fd os = foldr max os 2 + 1"

lemma fresh_fd: "fresh_fd os \<notin> set os"
proof -
  have "\<forall>x \<in> set os. x \<le> foldr max os 2" by (induction os) auto
  then show ?thesis by (auto simp: fresh_fd_def)
qed

definition raw_demo :: "(int list \<times> int set \<times> int set) raw_sock" where
  "raw_demo = \<lparr>rs_Socket = (\<lambda>(os, nb, ce) fam ty n c. let fd = fresh_fd os in
       (fd, None, (fd # os, if n then insert fd nb else nb, if c then insert fd ce else ce))),
     rs_CloseOnExec = (\<lambda>(os, nb, ce) fd. (os, nb, insert fd ce)),
     rs_SetNonblock = (\<lambda>k fd b. (Some EINVAL, k)),
     rs_Close = (\<lambda>(os, nb, ce) fd. (None, (removeAll fd os, nb, ce)))\<rparr>"

lemma raw_demo_laws: "raw_laws raw_demo (\<lambda>k. set (fst k)) (\<lambda>k. fst (snd k)) (\<lambda>k. snd (snd k))"
  unfolding raw_laws_def by (simp add: raw_demo_def Let_def split_def fresh_fd)

theorem sysSocket_new_or_nothing_witness:
  "new_socket (\<lambda>k. set (fst k)) (\<lambda>k. fst (snd k)) (\<lambda>k. snd (snd k)) ([3], {}, {}) (sysSocket_darwin raw_demo ([3], {}, {}) AF_INET SOCK_STREAM) \<and>
    fst (snd (sysSocket_darwin raw_demo ([3], {}, {}) AF_INET SOCK_STREAM)) = Some EINVAL"
proof
  show "fst (snd (sysSocket_darwin raw_demo ([3], {}, {}) AF_INET SOCK_STREAM)) = Some EINVAL"
    by (simp add: sysSocket_darwin_def raw_demo_def Let_def)
qed (rule conjunct2 [OF sysSocket_new_or_nothing [OF raw_demo_laws]])

text \<open>
  An old Darwin cannot have keep-alive. Where the kernel answers \<open>ENOPROTOOPT\<close> to
  \<open>TCP_KEEPINTVL\<close>, which the code means to tolerate, the error has been wrapped before the
  comparison, so the call fails with it and never sets \<open>TCP_KEEPALIVE\<close>.
\<close>

theorem darwin_keepalive_ENOPROTOOPT:
  assumes "0 < secs" and "ss_setopt sys k fd SOL_SOCKET SO_KEEPALIVE (OptInt 1) = (None, k1)"
    and "ss_setopt sys k1 fd IPPROTO_TCP TCP_KEEPINTVL (OptInt secs) = (Some ENOPROTOOPT, k2)"
  shows "SetKeepAlivePeriod_darwin sys k fd secs = (Some (SyscallError ''setsockopt'' ENOPROTOOPT), k2)"
  using assms by (simp add: SetKeepAlivePeriod_darwin_def wrap_err_def NewSyscallError_def ENOPROTOOPT_def)

text \<open>The witness: a kernel that counts the options it was asked for and refuses one.\<close>

definition old_darwin :: "nat sock_sys" where
  "old_darwin = \<lparr>ss_socket = (\<lambda>k fam ty. (3, None, k)), ss_close = (\<lambda>k fd. (None, k)), ss_bind = (\<lambda>k fd sa. (None, k)),
     ss_listen = (\<lambda>k fd b. (None, k)), ss_connect = (\<lambda>k fd sa. (None, k)),
     ss_setopt = (\<lambda>k fd l n v. (if n = TCP_KEEPINTVL then Some ENOPROTOOPT else None, Suc k))\<rparr>"

theorem darwin_keepalive_ENOPROTOOPT_witness:
  "SetKeepAlivePeriod_darwin old_darwin 0 7 30 = (Some (SyscallError ''setsockopt'' ENOPROTOOPT), 2)"
  by (rule darwin_keepalive_ENOPROTOOPT [where ?k1.0 = 1]) (simp_all add: old_darwin_def)

end
