(* ===== verification/Facade.thy ===== *)
theory Facade
  imports Framing Options Platform
begin

text \<open>
  The calls at the edge of the library: \<open>NewClient\<close> and \<open>Open\<close> of the client
  (\<open>glibevent.go\<close>, \<open>client.go\<close>), the exported socket constructors of
  \<open>internal/socket/socket.go\<close> over the \<open>sysSocket\<close> of the platform, and the vectored I/O of
  \<open>internal/io/io_linux.go\<close>.
\<close>

section \<open>Opening a client\<close>

text \<open>The handler and the decoder a client is made with are arguments of \<open>cli_process\<close>.\<close>

definition NewClient :: client where
  "NewClient = \<lparr>cl_in = \<lparr>er_rb = None\<rparr>\<rparr>"

text \<open>
  \<open>Open\<close> returns the error of \<open>net.Dial\<close>, or the connection that it keeps in \<open>cli.C\<close> and
  starts \<open>process\<close> on, with the calls made so far.
\<close>

definition cli_Open :: "(string \<Rightarrow> string \<Rightarrow> goerror + 'c) \<Rightarrow> client \<Rightarrow> string \<Rightarrow> call list \<Rightarrow>
    goerror option \<times> 'c option \<times> client \<times> call list" where
  "cli_Open Dial cli protoAddr calls =
     (let (network, addr) = parseProtoAddr protoAddr in
      case Dial network addr of
        Inl err \<Rightarrow> (Some err, None, cli, calls)
      | Inr c \<Rightarrow> (None, Some c, cli, calls @ [OnOpen]))"

section \<open>Sockets of the platform\<close>

definition TCPSocket ::
  "'k sock_sys \<Rightarrow> (string \<Rightarrow> nat option) \<Rightarrow> resolver \<Rightarrow> int \<Rightarrow> string \<Rightarrow> string \<Rightarrow> bool \<Rightarrow> 'k sock_option list \<Rightarrow> 'k \<Rightarrow>
   (int \<times> net_addr option \<times> goerror option) \<times> 'k" where
  "TCPSocket sys ifByName resolve backlog proto addr passive sockOpts k =
     tcpSocket sys ifByName resolve backlog proto addr passive sockOpts k"

definition UDPSocket ::
  "'k sock_sys \<Rightarrow> (string \<Rightarrow> nat option) \<Rightarrow> resolver \<Rightarrow> string \<Rightarrow> string \<Rightarrow> bool \<Rightarrow> 'k sock_option list \<Rightarrow> 'k \<Rightarrow>
   (int \<times> net_addr option \<times> goerror option) \<times> 'k" where
  "UDPSocket sys ifByName resolve proto addr connect sockOpts k =
     udpSocket sys ifByName resolve proto addr connect sockOpts k"

definition UnixSocket ::
  "'k sock_sys \<Rightarrow> (string \<Rightarrow> string \<Rightarrow> goerror + (string \<times> string)) \<Rightarrow> int \<Rightarrow> string \<Rightarrow> string \<Rightarrow> bool \<Rightarrow> 'k sock_option list \<Rightarrow>
   'k \<Rightarrow> (int \<times> net_addr option \<times> goerror option) \<times> 'k" where
  "UnixSocket sys resolve backlog proto addr passive sockOpts k =
     udsSocket sys resolve backlog proto addr passive sockOpts k"

text \<open>The system calls with \<open>sysSocket\<close> as the build of the platform has it.\<close>

definition platform_sys :: "bool \<Rightarrow> 'k raw_sock \<Rightarrow> 'k sock_sys \<Rightarrow> 'k sock_sys" where
  "platform_sys darwin raw sys =
     sys\<lparr>ss_socket := if darwin then sysSocket_darwin raw else sysSocket raw, ss_close := rs_Close raw\<rparr>"

text \<open>What the other calls do: none opens or closes a descriptor.\<close>

definition keeps_fds :: "'k sock_sys \<Rightarrow> ('k \<Rightarrow> int set) \<Rightarrow> bool" where
  "keeps_fds sys opened \<longleftrightarrow>
     (\<forall>k fd sa. opened (snd (ss_bind sys k fd sa)) = opened k) \<and>
     (\<forall>k fd b. opened (snd (ss_listen sys k fd b)) = opened k) \<and>
     (\<forall>k fd sa. opened (snd (ss_connect sys k fd sa)) = opened k) \<and>
     (\<forall>k fd l n v. opened (snd (ss_setopt sys k fd l n v)) = opened k)"

section \<open>Vectored I/O on Linux\<close>

text \<open>An empty vector never reaches the kernel.\<close>

definition Writev_linux :: "('k \<Rightarrow> int \<Rightarrow> byte list list \<Rightarrow> int \<times> goerror option \<times> 'k) \<Rightarrow> 'k \<Rightarrow> int \<Rightarrow> byte list list \<Rightarrow>
    int \<times> goerror option \<times> 'k" where
  "Writev_linux unix_Writev k fd iov = (if iov = [] then (0, None, k) else unix_Writev k fd iov)"

section \<open>The platform's sockets leak nothing\<close>

lemma platform_new_socket:
  "raw_laws raw opened nonblock cloexec \<Longrightarrow> new_socket opened nonblock cloexec k (ss_socket (platform_sys darwin raw sys) k family ty)"
  by (cases darwin) (simp_all add: platform_sys_def sysSocket_opens)

lemma platform_fd_laws:
  assumes "raw_laws raw opened nonblock cloexec" and "keeps_fds sys opened"
  shows "fd_laws (platform_sys darwin raw sys) opened"
proof -
  have "opened (snd (rs_Close raw k fd)) = opened k - {fd}" for k fd
    using assms(1) unfolding raw_laws_def by blast
  moreover have "if e = None then fd \<notin> opened k \<and> opened k' = insert fd (opened k) else opened k' = opened k"
    if "ss_socket (platform_sys darwin raw sys) k fam ty = (fd, e, k')" for k fam ty fd e k'
    using platform_new_socket [OF assms(1), of k darwin sys fam ty] unfolding that
    by (auto simp: new_socket_def split: option.splits)
  ultimately show ?thesis using assms(2) unfolding fd_laws_def keeps_fds_def by (simp add: platform_sys_def)
qed

lemma platform_only_connect:
  "only_connect_in_progress sys \<Longrightarrow> only_connect_in_progress (platform_sys darwin raw sys)"
  by (simp add: only_connect_in_progress_def platform_sys_def)

text \<open>
  C20: no socket of any kind is leaked on any platform. Whichever \<open>sysSocket\<close> is built in and
  whichever of its system calls, of the options and of \<open>bind\<close>, \<open>listen\<close> and \<open>connect\<close> fails,
  \<open>TCPSocket\<close>, \<open>UDPSocket\<close> and \<open>UnixSocket\<close> return a new open descriptor, or an error and
  leave the open descriptors as they were; only with the error \<open>EINPROGRESS\<close> the new descriptor
  may be open, for the caller to wait on. A passive socket, and a UDP socket that is not
  connected, never ends that way, if only \<open>connect\<close> answers \<open>EINPROGRESS\<close>.
\<close>

theorem platform_sockets_leak_nothing:
  assumes "raw_laws raw opened nonblock cloexec" and "keeps_fds sys opened" and "opts_laws os opened"
  shows "sock_result_ok opened k (TCPSocket (platform_sys darwin raw sys) ifByName resolve b proto addr passive os k) \<and>
    sock_result_ok opened k (UDPSocket (platform_sys darwin raw sys) ifByName resolve proto addr connect os k) \<and>
    sock_result_ok opened k (UnixSocket (platform_sys darwin raw sys) resolveUnix b proto addr passive os k) \<and>
    (only_connect_in_progress sys \<and> opts_calm os \<longrightarrow>
      sock_all_or_nothing opened k (TCPSocket (platform_sys darwin raw sys) ifByName resolve b proto addr True os k) \<and>
      sock_all_or_nothing opened k (UDPSocket (platform_sys darwin raw sys) ifByName resolve proto addr False os k) \<and>
      sock_all_or_nothing opened k (UnixSocket (platform_sys darwin raw sys) resolveUnix b proto addr True os k))"
  unfolding TCPSocket_def UDPSocket_def UnixSocket_def
  by (intro conjI impI tcpSocket_opened udpSocket_opened udsSocket_opened platform_fd_laws [OF assms(1,2)] assms(3)
      platform_only_connect) simp_all

text \<open>
  The witness: a kernel that cannot switch a descriptor to non-blocking. The socket asked for
  is opened, found wanting and closed again.
\<close>

definition idle_calls :: "(int list \<times> int set \<times> int set) sock_sys" where
  "idle_calls = \<lparr>ss_socket = (\<lambda>k fam ty. (-1, Some EINVAL, k)), ss_close = (\<lambda>k fd. (None, k)), ss_bind = (\<lambda>k fd sa. (None, k)),
     ss_listen = (\<lambda>k fd b. (None, k)), ss_connect = (\<lambda>k fd sa. (None, k)), ss_setopt = (\<lambda>k fd l n v. (None, k))\<rparr>"

theorem platform_sockets_leak_nothing_witness:
  "sock_all_or_nothing (\<lambda>k. set (fst k)) ([3], {}, {}) (TCPSocket (platform_sys True raw_demo idle_calls) (\<lambda>_. None)
     (\<lambda>_ _. Inr ([127, 0, 0, 1], 80, [])) 128 ''tcp'' ''localhost:80'' True [] ([3], {}, {}))"
proof -
  have "keeps_fds idle_calls (\<lambda>k. set (fst k))" "opts_laws [] (\<lambda>k. set (fst k) :: int set)" "only_connect_in_progress idle_calls"
      "opts_calm []"
    by (simp_all add: keeps_fds_def opts_laws_def idle_calls_def only_connect_in_progress_def opts_calm_def)
  then show ?thesis using platform_sockets_leak_nothing [OF raw_demo_laws] by blast
qed

end
