(* ===== verification/ConnOrder.thy ===== *)
theory ConnOrder
  imports Framing
begin

text \<open>
  Everything a connection does, in any order: writes by the application, writable and readable
  events, reads by the application, and the close at the end. Over every kernel, whatever it
  answers, the peer gets the bytes handed in, in order and without a gap.
\<close>

section \<open>Calls of a connection\<close>

text \<open>
  A readable event comes with what the socket holds then. The other calls are the
  application's: \<open>Write\<close> and \<open>Writev\<close> (with the writable event of the poller), \<open>Read\<close>,
  \<open>Next\<close>, \<open>Peek\<close> and \<open>Discard\<close>. A step gives the bytes it takes out of the inbound buffer.
\<close>

datatype conn_call = Sends conn_op | Arrives sock | CRead "byte list" | CNext int | CPeek int | CDiscard int

definition discarded :: "conn \<Rightarrow> int \<Rightarrow> byte list" where
  "discarded c n = (if n \<le> 0 then er_contents (c_in c) else take (nat n) (er_contents (c_in c)))"

fun call_step :: "world \<times> kst \<times> conn \<Rightarrow> conn_call \<Rightarrow> (byte list \<times> world \<times> kst \<times> conn) option" where
  "call_step s (Sends op) = map_option (\<lambda>s. ([], s)) (conn_step kst_sys s op)"
| "call_step (w, k, c) (Arrives x) = map_option (\<lambda>(e, s). ([], s)) (conn_eventRead kst_sys w (k\<lparr>ks_in := x\<rparr>) c)"
| "call_step (w, k, c) (CRead p) = map_option (\<lambda>(n, e, p, w, c). (take (nat n) p, w, k, c)) (conn_Read w c p)"
| "call_step (w, k, c) (CNext n) = map_option (\<lambda>(b, e, w, c). (b, w, k, c)) (conn_Next w c n)"
| "call_step (w, k, c) (CPeek n) = map_option (\<lambda>_. ([], w, k, c)) (conn_Peek c n)"
| "call_step (w, k, c) (CDiscard n) = map_option (\<lambda>(d, e, w, c'). (discarded c n, w, k, c')) (conn_Discard w c n)"

fun call_run :: "world \<times> kst \<times> conn \<Rightarrow> conn_call list \<Rightarrow> (byte list \<times> world \<times> kst \<times> conn) option" where
  "call_run s [] = Some ([], s)"
| "call_run s (x # xs) = do { (got, s) \<leftarrow> call_step s x; (more, s) \<leftarrow> call_run s xs; Some (got @ more, s) }"

fun call_input :: "conn_call \<Rightarrow> byte list" where
  "call_input (Sends op) = op_input op"
| "call_input _ = []"

fun call_arrival :: "conn_call \<Rightarrow> byte list" where
  "call_arrival (Arrives x) = sock_bytes x"
| "call_arrival _ = []"

definition sent_by :: "conn_call list \<Rightarrow> byte list" where
  "sent_by xs = concat (map call_input xs)"

definition arrived_by :: "conn_call list \<Rightarrow> byte list" where
  "arrived_by xs = concat (map call_arrival xs)"

fun call_ok :: "conn_call \<Rightarrow> bool" where
  "call_ok (Arrives x) \<longleftrightarrow> sock_wf x"
| "call_ok _ \<longleftrightarrow> True"

text \<open>A call that cannot fail: it writes something, or does not write.\<close>

fun call_sends :: "conn_call \<Rightarrow> bool" where
  "call_sends (Sends op) \<longleftrightarrow> op = CFlush \<or> op_input op \<noteq> []"
| "call_sends _ \<longleftrightarrow> True"

section \<open>One call\<close>

lemma Write_fatal_None:
  assumes "eb_IsEmpty (c_out c)" and "write_fatal k p"
  shows "conn_Write kst_sys w k c p = None" and "concat bs = p \<Longrightarrow> conn_writev kst_sys w k c bs = None"
proof -
  obtain n err k' where r: "kst_write k (c_sysfd c) p = (n, err, k')" by (cases "kst_write k (c_sysfd c) p")
  have f: "n < 0 \<and> err \<noteq> Some EAGAIN \<or> n = 0"
    using assms(2) r by (auto simp: write_fatal_def kst_write_def split: list.splits sum.splits)
  show "conn_Write kst_sys w k c p = None"
    using assms(1) r f by (auto simp: conn_Write_def c_lock_def conn_Write_locked_def conn_Close_def Let_def)
  show "conn_writev kst_sys w k c bs = None" if "concat bs = p"
    using assms(1) r f that by (auto simp: conn_writev_def c_lock_def conn_writev_locked_def conn_Close_def Let_def)
qed

text \<open>A sending call that returns keeps the bytes in order, whatever the kernel does.\<close>

lemma sends_in_order:
  assumes "conn_good (w, k, c)" and "out_len (w, k, c) + length (op_input op) \<le> rb_limit"
    and "conn_step kst_sys (w, k, c) op = Some (w', k', c')"
  shows "conn_good (w', k', c') \<and> conn_stream (w', k', c') = conn_stream (w, k, c) @ op_input op \<and>
    out_len (w', k', c') \<le> out_len (w, k, c) + length (op_input op) \<and> c_in c' = c_in c \<and> c_pa c' = c_pa c"
proof -
  have c: "\<not> c_locked c" "eb_ok w (c_out c)" "pending_ok k c"
    using assms(1) by (simp_all add: conn_good_def)
  have sent: ?thesis if "sent_ok k c (op_input op) (Some (n, e, w', k', c'))" for n e
  proof -
    have r: "ks_out k' @ eb_contents (c_out c') = ks_out k @ eb_contents (c_out c) @ op_input op" "eb_ok w' (c_out c')"
        "pending_ok k' c'" "\<not> c_locked c'" "c_in c' = c_in c" "c_pa c' = c_pa c" "length (ks_out k) \<le> length (ks_out k')"
      using that unfolding sent_ok_def by auto
    have "length (eb_contents (c_out c')) \<le> length (eb_contents (c_out c)) + length (op_input op)"
      using arg_cong [OF r(1), of length] r(7) by simp
    then show ?thesis using r by (simp add: conn_good_def conn_stream_def out_len_def)
  qed
  have lim: "length (eb_contents (c_out c)) + length (op_input op) \<le> rb_limit" using assms(2) by (simp add: out_len_def)
  show ?thesis
  proof (cases op)
    case (CWrite p)
    then have "\<not> eb_IsEmpty (c_out c) \<or> \<not> write_fatal k p" using assms(3) Write_fatal_None(1) [of c k p w] by auto
    then have "sent_ok k c p (conn_Write kst_sys w k c p)" using conn_Write_spec [OF c] lim CWrite by simp
    moreover obtain n e where "conn_Write kst_sys w k c p = Some (n, e, w', k', c')" using assms(3) CWrite by auto
    ultimately show ?thesis using sent CWrite by simp
  next
    case (CWritev bs)
    then have "\<not> eb_IsEmpty (c_out c) \<or> \<not> write_fatal k (concat bs)"
      using assms(3) Write_fatal_None(2) [of c k "concat bs" bs w] by auto
    then have "sent_ok k c (concat bs) (conn_writev kst_sys w k c bs)" using conn_writev_spec [OF c] lim CWritev by simp
    moreover obtain n e where "conn_writev kst_sys w k c bs = Some (n, e, w', k', c')" using assms(3) CWritev by auto
    ultimately show ?thesis using sent CWritev by simp
  next
    case CFlush
    then obtain e where f: "conn_WriteFlush kst_sys w k c = Some (e, w', k', c')" using assms(3) by auto
    have "c_in c' = c_in c \<and> c_pa c' = c_pa c" using f
      by (auto simp: conn_WriteFlush_def c_lock_def c_unlock_def Let_def split: bind_splits if_splits prod.splits)
    then show ?thesis using CFlush f conn_WriteFlush_good [OF assms(1)] by auto
  qed
qed

section \<open>Closing\<close>

text \<open>\<open>Close\<close> sends what it can of what is pending, and ends.\<close>

lemma conn_drain_prefix:
  assumes "eb_ok w ob"
  shows "\<exists>w' k' ob' m. conn_drain kst_sys w k fd ob = Some (w', k', ob') \<and> eb_ok w' ob' \<and> m \<le> length (eb_contents ob) \<and>
    ks_out k' = ks_out k @ take m (eb_contents ob) \<and> (ks_wr k = [] \<longrightarrow> m = length (eb_contents ob))"
  using assms
proof (induction "length (ks_wr k) + length (eb_contents ob)" arbitrary: w k ob rule: less_induct)
  case less
  show ?case
  proof (cases "eb_IsEmpty ob")
    case True
    then show ?thesis using less.prems eb_obs(2) [OF less.prems]
      by (intro exI [of _ w] exI [of _ k] exI [of _ ob] exI [of _ 0]) (simp add: conn_drain.simps)
  next
    case False
    then have ne: "eb_contents ob \<noteq> []" using eb_IsEmpty_iff [OF less.prems] by simp
    obtain iov ob1 where p: "eb_Peek ob 0 = Some (iov, ob1)" "eb_ok w ob1" "eb_contents ob1 = eb_contents ob"
        "concat iov = take (length (concat iov)) (eb_contents ob)" "concat (take 2 iov) \<noteq> []"
      using eb_Peek_spec [OF less.prems, of 0] ne by blast
    define q where "q = concat (take iovMax iov)"
    have q: "q = take (length q) (eb_contents ob)" unfolding q_def by (rule concat_take_take [OF p(4)])
    have qne: "q \<noteq> []" unfolding q_def by (rule sent_slices_nonempty [OF p(5)])
    show ?thesis
    proof (cases rule: kst_write_cases [of k fd q, case_names took failed])
      case (failed e xs)
      then have "conn_drain kst_sys w k fd ob = Some (w, k\<lparr>ks_wr := xs\<rparr>, ob1)"
        using False p(1) by (subst conn_drain.simps) (simp add: q_def)
      then show ?thesis using p(2) failed(1) by (intro exI [of _ w] exI [of _ "k\<lparr>ks_wr := xs\<rparr>"] exI [of _ ob1] exI [of _ 0]) simp
    next
      case (took m k1)
      have le: "m \<le> length (eb_contents ob)" using took(2) q by (metis length_take min.boundedE le_trans)
      have tk: "take m q = take m (eb_contents ob)" using q took(2) by (metis min.absorb1 take_take)
      obtain e w1 ob2 where d: "eb_Discard w ob1 (int m) = Some (int m, e, w1, ob2)" "eb_ok w1 ob2"
          "eb_contents ob2 = drop m (eb_contents ob)"
        using eb_Discard_spec [OF p(2), of "int m"] p(3) le by auto
      have step: "conn_drain kst_sys w k fd ob = conn_drain kst_sys w1 k1 fd ob2"
        using False p(1) took(1) d(1) by (subst conn_drain.simps) (simp add: q_def)
      have "length (ks_wr k1) + length (eb_contents ob2) < length (ks_wr k) + length (eb_contents ob)"
      proof (cases "ks_wr k")
        case Nil
        then have "0 < m" using took(5) qne by simp
        then show ?thesis using took(9) Nil d(3) ne by simp
      next
        case (Cons x xs)
        then show ?thesis using took(9) d(3) by simp
      qed
      from less.hyps [OF this d(2)] obtain w' k' ob' j where i: "conn_drain kst_sys w1 k1 fd ob2 = Some (w', k', ob')" "eb_ok w' ob'"
          "j \<le> length (eb_contents ob2)" "ks_out k' = ks_out k1 @ take j (eb_contents ob2)" "ks_wr k1 = [] \<longrightarrow> j = length (eb_contents ob2)"
        by blast
      have "take m (eb_contents ob) @ take j (drop m (eb_contents ob)) = take (m + j) (eb_contents ob)" by (simp add: take_add)
      then show ?thesis using i step took(3,9) tk d(3) le
        by (intro exI [of _ w'] exI [of _ k'] exI [of _ ob'] exI [of _ "m + j"]) auto
    qed
  qed
qed

lemma conn_Close_prefix:
  assumes "conn_good (w, k, c)" and "er_ok (c_in c)"
  shows "\<exists>e w' k' c' m. conn_Close kst_sys w k c = Some (e, w', k', c') \<and> m \<le> length (eb_contents (c_out c)) \<and>
    ks_out k' = ks_out k @ take m (eb_contents (c_out c)) \<and> (ks_wr k = [] \<longrightarrow> m = length (eb_contents (c_out c)))"
proof -
  have c: "\<not> c_locked c" "eb_ok w (c_out c)" using assms(1) by (simp_all add: conn_good_def)
  obtain w1 k1 ob m where d: "conn_drain kst_sys w k (c_sysfd c) (c_out c) = Some (w1, k1, ob)" "eb_ok w1 ob"
      "m \<le> length (eb_contents (c_out c))" "ks_out k1 = ks_out k @ take m (eb_contents (c_out c))"
      "ks_wr k = [] \<longrightarrow> m = length (eb_contents (c_out c))"
    using conn_drain_prefix [OF c(2)] by blast
  obtain w2 ib where ib: "er_Done w1 (c_in c) = (w2, ib)" by (cases "er_Done w1 (c_in c)")
  have "w_ok w2" using ib d(2) er_Done_spec(1) [OF _ assms(2), of w1] by (simp add: eb_ok_def)
  then have "eb_ok w2 ob" using d(2) by (simp add: eb_ok_def)
  then obtain w3 ob3 where r: "eb_Release w2 ob = Some (w3, ob3)" using eb_Release_spec by blast
  have out: "ks_out (snd (Delete kst_ctl (c_pa c) k1)) = ks_out k1" by (simp add: Delete_def kst_ctl_def)
  show ?thesis using c(1) d ib r out
    by (simp add: conn_Close_def c_lock_def conn_release_def c_unlock_def Let_def split_def) blast
qed

text \<open>In terms of what was handed in.\<close>

lemma closing_sends_prefix:
  assumes "conn_good (w, k, c)" and "er_ok (c_in c)" and "ks_out k @ eb_contents (c_out c) = out @ sent"
    and "length out \<le> length (ks_out k)"
  shows "\<exists>e w' k' c' m. conn_Close kst_sys w k c = Some (e, w', k', c') \<and> m \<le> length sent \<and>
    ks_out k' = out @ take m sent \<and> length (ks_out k) \<le> length (ks_out k') \<and> (ks_wr k = [] \<longrightarrow> m = length sent)"
proof -
  obtain e w' k' c' m where r: "conn_Close kst_sys w k c = Some (e, w', k', c')" "m \<le> length (eb_contents (c_out c))"
      "ks_out k' = ks_out k @ take m (eb_contents (c_out c))" "ks_wr k = [] \<longrightarrow> m = length (eb_contents (c_out c))"
    using conn_Close_prefix [OF assms(1,2)] by blast
  have l: "length (ks_out k) + length (eb_contents (c_out c)) = length out + length sent"
    using arg_cong [OF assms(3), of length] by simp
  have "ks_out k' = take (length (ks_out k) + m) (out @ sent)" using r(3) by (simp flip: assms(3))
  then have "ks_out k' = out @ take (length (ks_out k) - length out + m) sent" using assms(4) by simp
  then show ?thesis using r l assms(4)
    by (intro exI [of _ e] exI [of _ w'] exI [of _ k'] exI [of _ c'] exI [of _ "length (ks_out k) - length out + m"]) auto
qed

section \<open>The inbound side\<close>

text \<open>What the calls on the inbound buffer do: they return, and take a prefix of it.\<close>

definition takes_prefix :: "world \<times> kst \<times> conn \<Rightarrow> (byte list \<times> world \<times> kst \<times> conn) option \<Rightarrow> bool" where
  "takes_prefix s r \<longleftrightarrow> (case s of (w, k, c) \<Rightarrow>
     \<exists>got w' ib. r = Some (got, w', k, c\<lparr>c_in := ib\<rparr>) \<and> w_ok w' \<and> er_ok ib \<and> got @ er_contents ib = er_contents (c_in c))"

lemma takes_prefixI:
  "r = Some (got, w', k, c\<lparr>c_in := ib\<rparr>) \<Longrightarrow> w_ok w' \<Longrightarrow> er_ok ib \<Longrightarrow> got @ er_contents ib = er_contents (c_in c) \<Longrightarrow>
   takes_prefix (w, k, c) r"
  by (auto simp: takes_prefix_def)

lemma conn_Read_takes:
  assumes "w_ok w" and "er_ok (c_in c)"
  shows "takes_prefix (w, k, c) (call_step (w, k, c) (CRead p))"
proof -
  have part: "take (min (length p) (length q)) q = take (length p) q" for q :: "byte list" by (simp add: min_def)
  obtain e w' ib where r: "er_Read w (c_in c) p = Some (int (min (length p) (length (er_contents (c_in c)))), e,
      take (length p) (er_contents (c_in c)) @ drop (length (er_contents (c_in c))) p, w', ib)" "w_ok w'" "er_ok ib"
      "er_contents ib = drop (length p) (er_contents (c_in c))"
    using er_Read_spec [OF assms, of p] by blast
  then show ?thesis
    by (intro takes_prefixI [where got = "take (length p) (er_contents (c_in c))"]) (auto simp: conn_Read_def part)
qed

lemma conn_Peek_takes:
  assumes "w_ok w" and "er_ok (c_in c)"
  shows "takes_prefix (w, k, c) (call_step (w, k, c) (CPeek n))"
proof -
  have "\<exists>r. in_Peek (c_in c) n = Some r"
    using in_Peek_spec [OF assms(2), of n] in_Peek_whole [OF assms(2), of n] er_obs(1) [OF assms(2)]
    by (cases "n \<le> 0"; cases "n \<le> int (length (er_contents (c_in c)))") (auto simp: in_Peek_def Let_def)
  then have "call_step (w, k, c) (CPeek n) = Some ([], w, k, c\<lparr>c_in := c_in c\<rparr>)" by (auto simp: conn_Peek_def)
  then show ?thesis using assms by (intro takes_prefixI) auto
qed

lemma conn_Discard_takes:
  assumes "w_ok w" and "er_ok (c_in c)"
  shows "takes_prefix (w, k, c) (call_step (w, k, c) (CDiscard n))"
proof (cases "0 < n \<and> n \<le> int (length (er_contents (c_in c)))")
  case True
  then obtain d w' ib where "in_Discard w (c_in c) n = Some (d, None, w', ib)" "w_ok w'" "er_ok ib"
      "er_contents ib = drop (nat n) (er_contents (c_in c))"
    using in_Discard_spec [OF assms, of n] by blast
  then show ?thesis using True by (intro takes_prefixI) (auto simp: conn_Discard_def discarded_def)
next
  case False
  then have "\<exists>d. in_Discard w (c_in c) n = Some (d, None, w, er_Reset (c_in c))"
    using er_obs(1) [OF assms(2)] by (auto simp: in_Discard_def Let_def)
  then show ?thesis using False assms(1) er_Reset_spec [OF assms(2)]
    by (intro takes_prefixI) (auto simp: conn_Discard_def discarded_def)
qed

lemma conn_Next_takes:
  assumes "w_ok w" and "er_ok (c_in c)"
  shows "takes_prefix (w, k, c) (call_step (w, k, c) (CNext n))"
proof (cases "n \<le> int (length (er_contents (c_in c))) \<and> er_contents (c_in c) \<noteq> []")
  case False
  then have "call_step (w, k, c) (CNext n) = Some ([], w, k, c\<lparr>c_in := c_in c\<rparr>)"
    using er_obs [OF assms(2)] by (auto simp: conn_Next_def Let_def)
  then show ?thesis using assms by (intro takes_prefixI) auto
next
  case True
  define m where "m = (if n \<le> 0 then int (length (er_contents (c_in c))) else n)"
  have m: "0 < m" "m \<le> int (length (er_contents (c_in c)))" using True by (auto simp: m_def)
  obtain h t where p: "er_Peek (c_in c) m = Some (h, t)" "h @ t = take (nat m) (er_contents (c_in c))"
    using er_Peek_spec [OF assms(2) m(1)] by blast
  obtain e w' ib where d: "er_Discard w (c_in c) m = Some (m, e, w', ib)" "w_ok w'" "er_ok ib"
      "er_contents ib = drop (nat m) (er_contents (c_in c))"
    using er_Discard_spec [OF assms, of m] m by auto
  have b: "(if int (length h) \<ge> m then lview h 0 m else Some (h @ t)) = Some (h @ t)"
  proof (cases "int (length h) \<ge> m")
    case le: True
    have "length h + length t = nat m" using arg_cong [OF p(2), of length] m by simp
    then have "length t = 0" "length h = nat m" using le by linarith+
    then show ?thesis using m by (simp add: lview_def)
  qed simp
  have "conn_Next w c n = Some (h @ t, None, w', c\<lparr>c_in := ib\<rparr>)"
    using True er_obs [OF assms(2)] p(1) d(1) b by (simp add: conn_Next_def Let_def m_def [symmetric])
  then show ?thesis using p(2) d by (intro takes_prefixI) auto
qed

section \<open>Every run of calls\<close>

definition conn_all :: "world \<times> kst \<times> conn \<Rightarrow> bool" where
  "conn_all s \<longleftrightarrow> conn_good s \<and> er_ok (c_in (snd (snd s)))"

definition in_bytes :: "world \<times> kst \<times> conn \<Rightarrow> byte list" where
  "in_bytes s = er_contents (c_in (snd (snd s)))"

definition conn_fd :: "world \<times> kst \<times> conn \<Rightarrow> int" where
  "conn_fd s = pa_FD (c_pa (snd (snd s)))"

lemma conn_all_parts:
  "conn_all (w, k, c) \<Longrightarrow> w_ok w" "conn_all (w, k, c) \<Longrightarrow> er_ok (c_in c)" "conn_all (w, k, c) \<Longrightarrow> conn_good (w, k, c)"
  by (simp_all add: conn_all_def conn_good_def eb_ok_def)

text \<open>What every call keeps, and what it adds at both ends.\<close>

definition call_kept :: "world \<times> kst \<times> conn \<Rightarrow> conn_call \<Rightarrow> byte list \<Rightarrow> world \<times> kst \<times> conn \<Rightarrow> bool" where
  "call_kept s x got s' \<longleftrightarrow> conn_all s' \<and> conn_stream s' = conn_stream s @ call_input x \<and>
     got @ in_bytes s' = in_bytes s @ call_arrival x \<and> out_len s' \<le> out_len s + length (call_input x) \<and> conn_fd s' = conn_fd s"

lemma in_side_kept:
  assumes "conn_all (w, k, c)" and "w_ok w'" and "er_ok ib" and "got @ er_contents ib = er_contents (c_in c) @ call_arrival x"
    and "call_input x = []" and "ks_out k' = ks_out k" and "ks_ev k' = ks_ev k"
  shows "call_kept (w, k, c) x got (w', k', c\<lparr>c_in := ib\<rparr>)"
  using assms by (simp add: call_kept_def conn_all_def conn_good_def conn_stream_def in_bytes_def out_len_def conn_fd_def
      eb_ok_def pending_ok_def)

lemma takes_prefix_kept:
  assumes "conn_all (w, k, c)" and "takes_prefix (w, k, c) r" and "call_arrival x = []" and "call_input x = []"
  shows "\<exists>got s'. r = Some (got, s') \<and> call_kept (w, k, c) x got s' \<and> ks_wr (fst (snd s')) = ks_wr k"
  using assms in_side_kept [OF assms(1)] by (auto simp: takes_prefix_def)

lemma Arrives_kept:
  assumes "conn_all (w, k, c)" and "sock_wf x" and "length (in_bytes (w, k, c)) + length (sock_bytes x) \<le> rb_limit"
  shows "\<exists>got s'. call_step (w, k, c) (Arrives x) = Some (got, s') \<and> call_kept (w, k, c) (Arrives x) got s' \<and>
    ks_wr (fst (snd s')) = ks_wr k"
proof -
  have "0 < length (replicate 1024 (0 :: byte))" by simp
  from eventRead_loop_spec [OF conn_all_parts(1,2) [OF assms(1)], of "k\<lparr>ks_in := x\<rparr>", OF _ this, of "c_sysfd c"]
  obtain w' ib where r: "conn_eventRead_loop kst_sys w (k\<lparr>ks_in := x\<rparr>) (c_sysfd c) (c_in c) (replicate 1024 0) =
      Some (sock_result x, w', k\<lparr>ks_in := sock_left x\<rparr>, ib)" "w_ok w'" "er_ok ib"
      "er_contents ib = er_contents (c_in c) @ sock_bytes x"
    using assms(2,3) by (auto simp: in_bytes_def)
  then show ?thesis
    using in_side_kept [OF assms(1) r(2,3), of "[]" "Arrives x" "k\<lparr>ks_in := sock_left x\<rparr>"] by (simp add: conn_eventRead_def)
qed

text \<open>The calls that do not write return over any kernel.\<close>

lemma call_kept_in:
  assumes "conn_all s" and "call_ok x" and "\<And>op. x \<noteq> Sends op" and "length (in_bytes s) + length (call_arrival x) \<le> rb_limit"
  shows "\<exists>got s'. call_step s x = Some (got, s') \<and> call_kept s x got s' \<and> ks_wr (fst (snd s')) = ks_wr (fst (snd s))"
proof -
  obtain w k c where s: "s = (w, k, c)" by (cases s)
  note ok = conn_all_parts(1,2) [OF assms(1) [unfolded s]]
  note kept = takes_prefix_kept [OF assms(1) [unfolded s], where x = x]
  show ?thesis
  proof (cases x)
    case (Arrives d)
    then show ?thesis using Arrives_kept [of w k c d] assms(1,2,4) s by simp
  next
    case (CRead p)
    then show ?thesis using kept [OF conn_Read_takes [OF ok]] s by simp
  next
    case (CNext n)
    then show ?thesis using kept [OF conn_Next_takes [OF ok]] s by simp
  next
    case (CPeek n)
    then show ?thesis using kept [OF conn_Peek_takes [OF ok]] s by simp
  next
    case (CDiscard n)
    then show ?thesis using kept [OF conn_Discard_takes [OF ok]] s by simp
  qed (use assms(3) in simp)
qed

lemma call_step_kept:
  assumes "conn_all s" and "call_ok x" and "call_step s x = Some (got, s')"
    and "out_len s + length (call_input x) \<le> rb_limit" and "length (in_bytes s) + length (call_arrival x) \<le> rb_limit"
  shows "call_kept s x got s'"
proof (cases "\<exists>op. x = Sends op")
  case True
  then obtain op where Sends: "x = Sends op" by blast
  obtain w k c where s: "s = (w, k, c)" by (cases s)
  obtain w' k' c' where s': "s' = (w', k', c')" by (cases s')
  have "got = []" "conn_step kst_sys (w, k, c) op = Some (w', k', c')" using assms(3) Sends s s' by auto
  moreover have "conn_good (w, k, c)" "er_ok (c_in c)" using conn_all_parts(2,3) assms(1) s by auto
  moreover have "out_len (w, k, c) + length (op_input op) \<le> rb_limit" using assms(4) Sends s by simp
  ultimately show ?thesis using sends_in_order [of w k c op w' k' c']
    unfolding s s' Sends call_kept_def conn_all_def in_bytes_def conn_fd_def by simp
next
  case False
  then obtain g t where "call_step s x = Some (g, t)" "call_kept s x g t"
    using call_kept_in [OF assms(1,2) _ assms(5)] by blast
  then show ?thesis using assms(3) by simp
qed

lemma call_step_returns:
  assumes "conn_all s" and "call_ok x" and "kst_calm (fst (snd s))" and "call_sends x"
    and "out_len s + length (call_input x) \<le> rb_limit" and "length (in_bytes s) + length (call_arrival x) \<le> rb_limit"
  shows "\<exists>got s'. call_step s x = Some (got, s') \<and> kst_calm (fst (snd s'))"
proof (cases "\<exists>op. x = Sends op")
  case True
  then obtain op where Sends: "x = Sends op" by blast
  obtain w k c where s: "s = (w, k, c)" by (cases s)
  have "conn_sound s" using assms(1,3) conn_all_parts(3) s by (simp add: conn_sound_good)
  then show ?thesis using conn_step_spec [of s op] assms(4,5) Sends by (auto simp: conn_sound_def)
next
  case False
  then obtain got s' where "call_step s x = Some (got, s')" "ks_wr (fst (snd s')) = ks_wr (fst (snd s))"
    using call_kept_in [OF assms(1,2) _ assms(6)] by blast
  then show ?thesis using assms(3) by (simp add: kst_calm_def)
qed

lemma in_bytes_kept: "call_kept s x got s' \<Longrightarrow> length (in_bytes s') \<le> length (in_bytes s) + length (call_arrival x)"
  by (auto simp: call_kept_def dest: arg_cong [of _ _ length])

lemma call_run_kept:
  assumes "conn_all s" and "list_all call_ok xs" and "call_run s xs = Some (got, s')"
    and "out_len s + length (sent_by xs) \<le> rb_limit" and "length (in_bytes s) + length (arrived_by xs) \<le> rb_limit"
  shows "conn_all s' \<and> conn_stream s' = conn_stream s @ sent_by xs \<and> got @ in_bytes s' = in_bytes s @ arrived_by xs \<and>
    conn_fd s' = conn_fd s \<and> out_len s' \<le> out_len s + length (sent_by xs)"
  using assms
proof (induction xs arbitrary: s got)
  case (Cons x xs)
  obtain g1 s1 g2 where r: "call_step s x = Some (g1, s1)" "call_run s1 xs = Some (g2, s')" "got = g1 @ g2"
    using Cons.prems(3) by (auto simp: bind_Some_conv)
  have k: "call_kept s x g1 s1"
    using call_step_kept [OF Cons.prems(1) _ r(1)] Cons.prems(2,4,5) by (simp add: sent_by_def arrived_by_def)
  have "conn_all s' \<and> conn_stream s' = conn_stream s1 @ sent_by xs \<and> g2 @ in_bytes s' = in_bytes s1 @ arrived_by xs \<and>
      conn_fd s' = conn_fd s1 \<and> out_len s' \<le> out_len s1 + length (sent_by xs)"
    using Cons.IH [OF _ _ r(2)] Cons.prems(2,4,5) k in_bytes_kept [OF k]
    by (simp add: call_kept_def sent_by_def arrived_by_def)
  then show ?case using k r(3) by (simp add: call_kept_def sent_by_def arrived_by_def)
qed (simp add: sent_by_def arrived_by_def)

lemma call_run_returns:
  assumes "conn_all s" and "list_all call_ok xs" and "kst_calm (fst (snd s))" and "list_all call_sends xs"
    and "out_len s + length (sent_by xs) \<le> rb_limit" and "length (in_bytes s) + length (arrived_by xs) \<le> rb_limit"
  shows "call_run s xs \<noteq> None"
  using assms
proof (induction xs arbitrary: s)
  case (Cons x xs)
  obtain g1 s1 where r: "call_step s x = Some (g1, s1)" "kst_calm (fst (snd s1))"
    using call_step_returns [of s x] Cons.prems by (auto simp: sent_by_def arrived_by_def)
  have k: "call_kept s x g1 s1"
    using call_step_kept [OF Cons.prems(1) _ r(1)] Cons.prems(2,5,6) by (simp add: sent_by_def arrived_by_def)
  have "call_run s1 xs \<noteq> None"
    using Cons.IH [of s1] r(2) Cons.prems(2,4,5,6) k in_bytes_kept [OF k]
    by (simp add: call_kept_def sent_by_def arrived_by_def)
  then show ?case using r by auto
qed simp

text \<open>The only call that does not return is a write that the kernel refuses, with nothing pending.\<close>

definition blocked :: "world \<times> kst \<times> conn \<Rightarrow> conn_op \<Rightarrow> bool" where
  "blocked s op \<longleftrightarrow> (case s of (w, k, c) \<Rightarrow> op \<noteq> CFlush \<and> eb_contents (c_out c) = [] \<and> write_fatal k (op_input op))"

lemma call_step_blocked:
  assumes "conn_all s" and "call_ok x" and "call_step s x = None"
    and "out_len s + length (call_input x) \<le> rb_limit" and "length (in_bytes s) + length (call_arrival x) \<le> rb_limit"
  shows "\<exists>op. x = Sends op \<and> blocked s op"
proof (cases "\<exists>op. x = Sends op")
  case False
  then obtain g t where "call_step s x = Some (g, t)" using call_kept_in [OF assms(1,2) _ assms(5)] by blast
  then show ?thesis using assms(3) by simp
next
  case True
  then obtain op where x: "x = Sends op" by blast
  obtain w k c where s: "s = (w, k, c)" by (cases s)
  have c: "\<not> c_locked c" "eb_ok w (c_out c)" "pending_ok k c"
    using conn_all_parts(3) assms(1) s by (auto simp: conn_good_def)
  have none: "conn_step kst_sys (w, k, c) op = None" using assms(3) x s by simp
  have lim: "length (eb_contents (c_out c)) + length (op_input op) \<le> rb_limit" using assms(4) x s by (simp add: out_len_def)
  have "op \<noteq> CFlush" using none conn_WriteFlush_good [of w k c] conn_all_parts(3) assms(1) s by force
  moreover have "eb_IsEmpty (c_out c) \<and> write_fatal k (op_input op)"
  proof (rule ccontr)
    assume "\<not> ?thesis"
    then have nf: "\<not> eb_IsEmpty (c_out c) \<or> \<not> write_fatal k (op_input op)" by blast
    show False
    proof (cases op)
      case (CWrite p)
      then show False using none conn_Write_spec [OF c nf lim] by (auto simp: sent_ok_def)
    next
      case (CWritev bs)
      then show False using none conn_writev_spec [OF c, of bs] nf lim by (auto simp: sent_ok_def)
    qed (use \<open>op \<noteq> CFlush\<close> in simp)
  qed
  ultimately show ?thesis using x s eb_IsEmpty_iff [OF c(2)] by (simp add: blocked_def)
qed

lemma call_run_blocked:
  assumes "conn_all s" and "list_all call_ok xs" and "call_run s xs = None"
    and "out_len s + length (sent_by xs) \<le> rb_limit" and "length (in_bytes s) + length (arrived_by xs) \<le> rb_limit"
  shows "\<exists>ys op zs got s'. xs = ys @ Sends op # zs \<and> call_run s ys = Some (got, s') \<and> blocked s' op"
  using assms
proof (induction xs arbitrary: s)
  case (Cons x xs)
  show ?case
  proof (cases "call_step s x")
    case None
    then obtain op where "x = Sends op" "blocked s op"
      using call_step_blocked [OF Cons.prems(1) _ None] Cons.prems(2,4,5) by (auto simp: sent_by_def arrived_by_def)
    then show ?thesis by (intro exI [of _ "[]"]) simp
  next
    case (Some r)
    then obtain g1 s1 where r: "call_step s x = Some (g1, s1)" by (cases r) simp
    have k: "call_kept s x g1 s1"
      using call_step_kept [OF Cons.prems(1) _ r] Cons.prems(2,4,5) by (simp add: sent_by_def arrived_by_def)
    have "\<exists>ys op zs got s'. xs = ys @ Sends op # zs \<and> call_run s1 ys = Some (got, s') \<and> blocked s' op"
      using Cons.IH [of s1] r Cons.prems(2-5) k in_bytes_kept [OF k]
      by (simp add: call_kept_def sent_by_def arrived_by_def bind_eq_None_conv split_def)
    then obtain ys op zs g2 s' where "xs = ys @ Sends op # zs" "call_run s1 ys = Some (g2, s')" "blocked s' op" by blast
    then show ?thesis using r by (intro exI [of _ "x # ys"]) simp
  qed
qed simp

lemma newTCPConn_all:
  assumes "newTCPConn w0 pollFd fd addr cap = Some (c, w)" and "w_ok w0" and "0 < cap"
  shows "conn_all (w, k, c)" and "conn_stream (w, k, c) = ks_out k" and "out_len (w, k, c) = 0"
    and "in_bytes (w, k, c) = []" and "conn_fd (w, k, c) = fd"
  using newTCPConn_spec [OF assms(2,3), of pollFd fd addr] assms(1)
  by (auto simp: conn_all_def conn_good_def pending_ok_def conn_stream_def out_len_def in_bytes_def conn_fd_def
      er_ok_def er_contents_def)

text \<open>
  C2: what the application writes is what the peer gets. On a new connection, for every
  sequence of \<open>Write\<close>, \<open>writev\<close>, \<open>Read\<close>, \<open>Next\<close>, \<open>Peek\<close>, \<open>Discard\<close> and writable
  and readable events, and for every kernel whose \<open>epoll_ctl\<close> and \<open>close\<close> succeed (short
  writes, reads of any size, \<open>EAGAIN\<close>, \<open>EINTR\<close> and any other
  error, in any order): if the calls return, the bytes the peer has received followed by those
  still pending are exactly the bytes handed in, in order; the bytes taken out of the inbound
  buffer followed by those in it are exactly the bytes that arrived, in order; while any output is
  pending the descriptor is registered for the writable event that will send it; and a \<open>Close\<close>
  then returns, and leaves the peer with a prefix of the bytes handed in that extends what it
  had, and with all of them when the kernel refuses nothing more. The calls can only fail to
  return at a \<open>Write\<close> or \<open>writev\<close> that finds nothing pending and whose system call writes
  nothing or fails with an error other than \<open>EAGAIN\<close> (the case of \<open>conn_Write_failure_blocks\<close>);
  with a kernel that takes at least a byte of each write or answers \<open>EAGAIN\<close>, and writes that
  are not empty, they return. At most \<open>rb_limit\<close> bytes go each way.
\<close>

theorem conn_sends_in_order:
  assumes "newTCPConn w0 pollFd fd addr cap = Some (c, w)" and "w_ok w0" and "0 < cap"
    and "list_all call_ok xs" and "length (sent_by xs) \<le> rb_limit" and "length (arrived_by xs) \<le> rb_limit"
  shows "(case call_run (w, k, c) xs of
      Some (got, w', k', c') \<Rightarrow>
        ks_out k' @ eb_contents (c_out c') = ks_out k @ sent_by xs \<and>
        got @ er_contents (c_in c') = arrived_by xs \<and>
        (eb_contents (c_out c') \<noteq> [] \<longrightarrow> ks_ev k' fd = Some readWriteEvents) \<and>
        (\<exists>e w'' k'' c'' m. conn_Close kst_sys w' k' c' = Some (e, w'', k'', c'') \<and> m \<le> length (sent_by xs) \<and>
           ks_out k'' = ks_out k @ take m (sent_by xs) \<and> length (ks_out k') \<le> length (ks_out k'') \<and>
           (ks_wr k' = [] \<longrightarrow> m = length (sent_by xs)))
    | None \<Rightarrow>
        \<exists>ys op zs got w' k' c'. xs = ys @ Sends op # zs \<and> call_run (w, k, c) ys = Some (got, w', k', c') \<and>
          op \<noteq> CFlush \<and> eb_contents (c_out c') = [] \<and> write_fatal k' (op_input op)) \<and>
    (kst_calm k \<and> list_all call_sends xs \<longrightarrow> call_run (w, k, c) xs \<noteq> None)"
proof (intro conjI impI)
  note new = newTCPConn_all [OF assms(1-3), of k]
  have lim: "out_len (w, k, c) + length (sent_by xs) \<le> rb_limit"
      "length (in_bytes (w, k, c)) + length (arrived_by xs) \<le> rb_limit" using new assms(5,6) by simp_all
  show "call_run (w, k, c) xs \<noteq> None" if "kst_calm k \<and> list_all call_sends xs"
    using call_run_returns [OF new(1) assms(4) _ _ lim] that by simp
  show "case call_run (w, k, c) xs of
      Some (got, w', k', c') \<Rightarrow>
        ks_out k' @ eb_contents (c_out c') = ks_out k @ sent_by xs \<and>
        got @ er_contents (c_in c') = arrived_by xs \<and>
        (eb_contents (c_out c') \<noteq> [] \<longrightarrow> ks_ev k' fd = Some readWriteEvents) \<and>
        (\<exists>e w'' k'' c'' m. conn_Close kst_sys w' k' c' = Some (e, w'', k'', c'') \<and> m \<le> length (sent_by xs) \<and>
           ks_out k'' = ks_out k @ take m (sent_by xs) \<and> length (ks_out k') \<le> length (ks_out k'') \<and>
           (ks_wr k' = [] \<longrightarrow> m = length (sent_by xs)))
    | None \<Rightarrow>
        \<exists>ys op zs got w' k' c'. xs = ys @ Sends op # zs \<and> call_run (w, k, c) ys = Some (got, w', k', c') \<and>
          op \<noteq> CFlush \<and> eb_contents (c_out c') = [] \<and> write_fatal k' (op_input op)"
  proof (cases "call_run (w, k, c) xs")
    case None
    then show ?thesis using call_run_blocked [OF new(1) assms(4) None lim] by (force simp: blocked_def)
  next
    case (Some r)
    then obtain got w' k' c' where r: "call_run (w, k, c) xs = Some (got, w', k', c')" by (cases r) auto
    note kept = call_run_kept [OF new(1) assms(4) r lim]
    have ok: "conn_good (w', k', c')" "er_ok (c_in c')" using kept conn_all_parts(2,3) by blast+
    have out: "ks_out k' @ eb_contents (c_out c') = ks_out k @ sent_by xs" using kept new(2) by (simp add: conn_stream_def)
    have reg: "eb_contents (c_out c') \<noteq> [] \<longrightarrow> ks_ev k' fd = Some readWriteEvents"
      using ok(1) kept new(5) eb_obs(2) by (auto simp: conn_good_def pending_ok_def conn_fd_def)
    have "length (eb_contents (c_out c')) \<le> length (sent_by xs)" using kept new(3) by (simp add: out_len_def)
    then have "length (ks_out k) \<le> length (ks_out k')" using arg_cong [OF out, of length] by simp
    note close = closing_sends_prefix [OF ok out this]
    have "got @ er_contents (c_in c') = arrived_by xs" using kept new(4) by (simp add: in_bytes_def)
    then show ?thesis using out reg close unfolding r option.case prod.case by (intro conjI)
  qed
qed

text \<open>The witness: short writes, an interrupted read, and a kernel that refuses for a while.\<close>

definition order_calls :: "conn_call list" where
  "order_calls = [Sends (CWrite [1, 2, 3]), Arrives [Inl [7, 8], Inr EINTR, Inl [9], Inr EAGAIN], CRead [0, 0], Sends CFlush,
     Sends (CWritev [[4], [], [5]]), CPeek 1, Sends CFlush, CNext 1, CDiscard 5]"

theorem conn_sends_in_order_witness:
  "(case call_run (empty_world, slow_kernel, conn7) order_calls of
      Some (got, w', k', c') \<Rightarrow>
        ks_out k' @ eb_contents (c_out c') = ks_out slow_kernel @ sent_by order_calls \<and>
        got @ er_contents (c_in c') = arrived_by order_calls \<and>
        (eb_contents (c_out c') \<noteq> [] \<longrightarrow> ks_ev k' 7 = Some readWriteEvents) \<and>
        (\<exists>e w'' k'' c'' m. conn_Close kst_sys w' k' c' = Some (e, w'', k'', c'') \<and> m \<le> length (sent_by order_calls) \<and>
           ks_out k'' = ks_out slow_kernel @ take m (sent_by order_calls) \<and> length (ks_out k') \<le> length (ks_out k'') \<and>
           (ks_wr k' = [] \<longrightarrow> m = length (sent_by order_calls)))
    | None \<Rightarrow>
        \<exists>ys op zs got w' k' c'. order_calls = ys @ Sends op # zs \<and>
          call_run (empty_world, slow_kernel, conn7) ys = Some (got, w', k', c') \<and>
          op \<noteq> CFlush \<and> eb_contents (c_out c') = [] \<and> write_fatal k' (op_input op)) \<and>
   call_run (empty_world, slow_kernel, conn7) order_calls \<noteq> None"
proof -
  have "list_all call_ok order_calls" "length (sent_by order_calls) \<le> rb_limit" "length (arrived_by order_calls) \<le> rb_limit"
      "kst_calm slow_kernel" "list_all call_sends order_calls"
    by (simp_all add: order_calls_def sent_by_def arrived_by_def slow_kernel_def rb_limit_def sock_wf_def kst_calm_def)
  then show ?thesis
    using conn_sends_in_order [OF newTCPConn_empty_world _ _ \<open>list_all call_ok order_calls\<close>, of slow_kernel] by simp
qed

end
