(* ===== verification/ConnLive.thy ===== *)
theory ConnLive
  imports ConnProps
begin

text \<open>
  Pending output is sent. A writable event either uses up one answer of a slow kernel or, once
  the kernel is not slow any more, sends at least a byte; so as many events as answers and
  pending bytes are enough to send everything.
\<close>

section \<open>A writable event makes progress\<close>

lemma kst_write_script: "ks_wr (snd (snd (kst_write k fd p))) = tl (ks_wr k)"
  and kst_write_all: "ks_wr k = [] \<Longrightarrow> ks_out (snd (snd (kst_write k fd p))) = ks_out k @ p"
  by (auto simp: kst_write_def split: list.splits sum.splits)

text \<open>What the event does to the kernel, whichever way it goes.\<close>

lemma conn_WriteFlush_kernel:
  assumes "\<not> c_locked c" and "eb_Peek (c_out c) (-1) = Some (iov, ob)"
    and "conn_WriteFlush kst_sys w k c = Some (e, w', k', c')"
  shows "ks_wr k' = tl (ks_wr k) \<and> (ks_wr k = [] \<longrightarrow> ks_out k' = ks_out k @ concat (take iovMax iov))"
proof -
  define q where "q = concat (take iovMax iov)"
  obtain n err k1 where k1: "kst_write k (c_sysfd c) q = (n, err, k1)" by (cases "kst_write k (c_sysfd c) q")
  have "ks_wr k' = ks_wr k1 \<and> ks_out k' = ks_out k1"
    using assms(3) unfolding conn_WriteFlush_call [OF assms(1,2) k1 [unfolded q_def]]
    by (auto simp: Let_def ModRead_kst split: if_splits bind_splits)
  then show ?thesis using kst_write_script [of k "c_sysfd c" q] kst_write_all [of k "c_sysfd c" q] k1 by (simp add: q_def)
qed

text \<open>With data pending it is no error, and when all has been sent the event is switched off.\<close>

lemma conn_WriteFlush_pending:
  assumes "conn_sound (w, k, c)" and "eb_contents (c_out c) \<noteq> []"
    and "conn_WriteFlush kst_sys w k c = Some (e, w', k', c')"
  shows "e = None \<and> c_pa c' = c_pa c \<and> c_sysfd c' = c_sysfd c \<and> c_in c' = c_in c \<and>
    (eb_contents (c_out c') = [] \<longrightarrow> ks_ev k' (pa_FD (c_pa c)) = Some readEvents)"
proof -
  have s: "\<not> c_locked c" "eb_ok w (c_out c)" "kst_calm k" using assms(1) by (simp_all add: conn_sound_def)
  obtain iov ob where p: "eb_Peek (c_out c) (-1) = Some (iov, ob)" "eb_ok w ob"
      "eb_contents ob = eb_contents (c_out c)" "concat (take 2 iov) \<noteq> []"
    using eb_Peek_spec [OF s(2), of "-1"] assms(2) by blast
  define q where "q = concat (take iovMax iov)"
  have "q \<noteq> []" unfolding q_def by (rule sent_slices_nonempty [OF p(4)])
  then have nf: "\<not> write_fatal k q" by (rule kst_calm_write [OF s(3)])
  show ?thesis
  proof (cases rule: kst_write_cases [of k "c_sysfd c" q, case_names took failed])
    case (failed x xs)
    then have "x = EAGAIN" using nf by (simp add: write_fatal_def)
    then show ?thesis using assms(2,3) failed(2) p(3) conn_WriteFlush_call [OF s(1) p(1), folded q_def]
      by (auto simp: c_unlock_def)
  next
    case (took m k1)
    have m: "0 < m" using took_pos [OF nf took(5,6,7)] by simp
    then have run: "do { (_, _, w, ob') \<leftarrow> eb_Discard w ob (int m);
        if eb_IsEmpty ob' then Some (None, w, snd (ModRead kst_ctl (c_pa c) k1), c_unlock (c\<lparr>c_locked := True, c_out := ob'\<rparr>))
        else Some (None, w, k1, c_unlock (c\<lparr>c_locked := True, c_out := ob'\<rparr>)) } = Some (e, w', k', c')"
      using assms(3) conn_WriteFlush_call [OF s(1) p(1), folded q_def, OF took(1)] by (simp add: Let_def)
    obtain n e1 w1 ob1 where d: "eb_Discard w ob (int m) = Some (n, e1, w1, ob1)" "eb_ok w1 ob1"
      using eb_Discard_spec [OF p(2), of "int m"] run by (cases "eb_Discard w ob (int m)") auto
    then show ?thesis using run eb_IsEmpty_iff [OF d(2)] by (auto simp: c_unlock_def ModRead_kst split: if_splits)
  qed
qed

definition unsent_work :: "world \<times> kst \<times> conn \<Rightarrow> nat" where
  "unsent_work s = (case s of (w, k, c) \<Rightarrow> length (ks_wr k)) + out_len s"

lemma flush_progress:
  assumes "conn_sound s" and "0 < out_len s"
  shows "\<exists>s'. conn_step kst_sys s CFlush = Some s' \<and> conn_sound s' \<and> conn_stream s' = conn_stream s \<and>
    unsent_work s' < unsent_work s"
proof -
  obtain w k c where s: "s = (w, k, c)" by (cases s)
  have c: "\<not> c_locked c" "eb_ok w (c_out c)" using assms(1) by (simp_all add: conn_sound_def s)
  obtain e w' k' c' where f: "conn_WriteFlush kst_sys w k c = Some (e, w', k', c')" "conn_sound (w', k', c')"
      "conn_stream (w', k', c') = conn_stream s" "out_len (w', k', c') \<le> out_len s"
    using conn_WriteFlush_spec [of w k c] assms(1) s by auto
  have ne: "eb_contents (c_out c) \<noteq> []" using assms(2) s by (auto simp: out_len_def)
  obtain iov ob where p: "eb_Peek (c_out c) (-1) = Some (iov, ob)" "concat (take 2 iov) \<noteq> []"
    using eb_Peek_spec [OF c(2), of "-1"] ne by blast
  note kern = conn_WriteFlush_kernel [OF c(1) p(1) f(1)]
  have "unsent_work (w', k', c') < unsent_work s"
  proof (cases "ks_wr k")
    case (Cons x xs)
    then show ?thesis using kern f(4) by (simp add: unsent_work_def s)
  next
    case Nil
    have "concat (take iovMax iov) \<noteq> []" by (rule sent_slices_nonempty [OF p(2)])
    then have "length (ks_out k) < length (ks_out k')" using kern Nil by simp
    then have "out_len (w', k', c') < out_len s"
      using arg_cong [OF f(3), of length] by (simp add: conn_stream_def out_len_def s)
    then show ?thesis using kern Nil by (simp add: unsent_work_def s)
  qed
  then show ?thesis using f s by auto
qed

text \<open>A new connection has nothing pending.\<close>

lemma newTCPConn_sound:
  assumes "newTCPConn w0 pollFd fd addr cap = Some (c, w)" and "w_ok w0" and "0 < cap" and "kst_calm k"
  shows "conn_sound (w, k, c)" and "conn_stream (w, k, c) = ks_out k" and "out_len (w, k, c) = 0"
  using newTCPConn_spec [OF assms(2,3), of pollFd fd addr] assms(1,4)
  by (auto simp: conn_sound_def pending_ok_def conn_stream_def out_len_def)

end
