(* ===== verification/ServerSend.thy ===== *)
theory ServerSend
  imports ConnLive EngineCorrect
begin

text \<open>
  The sending side of a connection inside the server: the application writes to the connection
  in the table, and the event loop hands its writable events to the callback. The poller is
  level-triggered, so it reports a descriptor as writable while it is registered for that; what
  \<open>Write\<close> and \<open>WriteFlush\<close> register decides which events come.
\<close>

section \<open>Writing and polling\<close>

text \<open>
  A write by the application (\<open>CWrite\<close>, \<open>CWritev\<close>), or a round of the event loop (\<open>CFlush\<close>) in
  which the socket can take data: it has an event if \<open>EPOLLOUT\<close> is registered.
\<close>

fun send_step :: "kst srv_env \<Rightarrow> int \<Rightarrow> world \<times> kst \<times> 'h server \<Rightarrow> conn_op \<Rightarrow> (world \<times> kst \<times> 'h server) option" where
  "send_step env fd (w, k, sv) CFlush =
     (case ks_ev k fd of
        None \<Rightarrow> Some (w, k, sv)
      | Some ev \<Rightarrow>
          if and ev EPOLLOUT = 0 then Some (w, k, sv)
          else map_option snd (srv_Callback env fd (and ev EPOLLOUT) (w, k, sv)))"
| "send_step env fd (w, k, sv) op =
     (case cm_getConn (sv_conns sv) fd of
        None \<Rightarrow> Some (w, k, sv)
      | Some c \<Rightarrow> do {
          (w, k, c) \<leftarrow> conn_step (se_sys env) (w, k, c) op;
          Some (w, k, sv\<lparr>sv_conns := cm_addConn (sv_conns sv) fd c\<rparr>)
        })"

fun send_run :: "kst srv_env \<Rightarrow> int \<Rightarrow> world \<times> kst \<times> 'h server \<Rightarrow> conn_op list \<Rightarrow> (world \<times> kst \<times> 'h server) option" where
  "send_run env fd s [] = Some s"
| "send_run env fd s (x # xs) = do { s \<leftarrow> send_step env fd s x; send_run env fd s xs }"

lemma send_run_append: "send_run env fd s (xs @ ys) = do { s \<leftarrow> send_run env fd s xs; send_run env fd s ys }"
  by (induction xs arbitrary: s) (auto split: bind_splits)

section \<open>The registration follows the pending bytes\<close>

text \<open>The descriptor is registered for the writable event exactly while bytes are pending.\<close>

definition watched :: "int \<Rightarrow> world \<times> kst \<times> conn \<Rightarrow> bool" where
  "watched fd s \<longleftrightarrow> (case s of (w, k, c) \<Rightarrow> conn_sound (w, k, c) \<and> pa_FD (c_pa c) = fd \<and>
     ks_ev k fd = Some (if eb_contents (c_out c) = [] then readEvents else readWriteEvents))"

text \<open>Such a connection in the table of a server.\<close>

definition served :: "kst srv_env \<Rightarrow> int \<Rightarrow> world \<times> kst \<times> 'h server \<Rightarrow> conn \<Rightarrow> bool" where
  "served env fd s c \<longleftrightarrow> (case s of (w, k, sv) \<Rightarrow>
     se_sys env = kst_sys \<and> cm_getConn (sv_conns sv) fd = Some c \<and> fd \<noteq> sv_lnfd sv \<and> watched fd (w, k, c))"

lemma getConn_addConn [simp]: "cm_getConn (cm_addConn m fd c) fd = Some c"
  by (simp add: cm_getConn_def cm_addConn_def update_conv')

lemma pending_registered:
  "conn_sound (w, k, c) \<Longrightarrow> eb_contents (c_out c) \<noteq> [] \<Longrightarrow> ks_ev k (pa_FD (c_pa c)) = Some readWriteEvents"
  using eb_IsEmpty_iff [of w "c_out c"] by (simp add: conn_sound_def pending_ok_def)

lemma sent_frame:
  assumes "conn_sound (w, k, c)" and "op_input op \<noteq> []" and "out_len (w, k, c) + length (op_input op) \<le> rb_limit"
    and "conn_step kst_sys (w, k, c) op = Some (w', k', c')"
  shows "c_pa c' = c_pa c \<and> (eb_contents (c_out c') = [] \<longrightarrow> eb_contents (c_out c) = [] \<and> ks_ev k' = ks_ev k)"
proof -
  have c: "\<not> c_locked c" "eb_ok w (c_out c)" "pending_ok k c" "\<not> write_fatal k (op_input op)"
      "length (eb_contents (c_out c)) + length (op_input op) \<le> rb_limit"
    using assms(1,3) kst_calm_write [OF _ assms(2)] by (simp_all add: conn_sound_def out_len_def)
  have "sent_ok k c (op_input op) (case op of CWritev bs \<Rightarrow> conn_writev kst_sys w k c bs | _ \<Rightarrow> conn_Write kst_sys w k c (op_input op))"
    using c conn_Write_spec [of c w k "op_input op"] conn_writev_spec [of c w k] by (cases op) auto
  then show ?thesis using assms(2,4) by (cases op) (auto simp: sent_ok_def)
qed

lemma EPOLLOUT_bits: "and readEvents EPOLLOUT = 0" "and readWriteEvents EPOLLOUT \<noteq> 0" "and (and readWriteEvents EPOLLOUT) OutEvents \<noteq> 0"
  by code_simp+


lemma served_write:
  assumes "served env fd (w, k, sv) c" and "op_input op \<noteq> []" and "out_len (w, k, c) + length (op_input op) \<le> rb_limit"
  shows "\<exists>w' k' sv' c'. send_step env fd (w, k, sv) op = Some (w', k', sv') \<and> served env fd (w', k', sv') c' \<and>
    conn_stream (w', k', c') = conn_stream (w, k, c) @ op_input op \<and>
    out_len (w', k', c') \<le> out_len (w, k, c) + length (op_input op) \<and> sv_calls sv' = sv_calls sv"
proof -
  have c: "se_sys env = kst_sys" "cm_getConn (sv_conns sv) fd = Some c" "fd \<noteq> sv_lnfd sv" "conn_sound (w, k, c)"
      "pa_FD (c_pa c) = fd" "ks_ev k fd = Some (if eb_contents (c_out c) = [] then readEvents else readWriteEvents)"
    using assms(1) by (simp_all add: served_def watched_def)
  obtain w' k' c' where s': "conn_step kst_sys (w, k, c) op = Some (w', k', c')" "conn_sound (w', k', c')"
      "conn_stream (w', k', c') = conn_stream (w, k, c) @ op_input op" "out_len (w', k', c') \<le> out_len (w, k, c) + length (op_input op)"
    using conn_step_spec [OF c(4), of op] assms(2,3) by auto
  have "watched fd (w', k', c')"
    using sent_frame [OF c(4) assms(2,3) s'(1)] c(5,6) s'(2) pending_registered [OF s'(2)] by (simp add: watched_def)
  moreover have "send_step env fd (w, k, sv) op = Some (w', k', sv\<lparr>sv_conns := cm_addConn (sv_conns sv) fd c'\<rparr>)"
    using assms(2) c(1,2) s'(1) by (cases op) auto
  ultimately show ?thesis using s'(3,4) c(1,3)
    by (intro exI [of _ w'] exI [of _ k'] exI [of _ "sv\<lparr>sv_conns := cm_addConn (sv_conns sv) fd c'\<rparr>"] exI [of _ c'])
      (simp add: served_def)
qed

text \<open>A round with bytes pending makes progress; without, nothing happens at all.\<close>

lemma served_round:
  assumes "served env fd (w, k, sv) c" and "0 < out_len (w, k, c)"
  shows "\<exists>w' k' sv' c'. send_step env fd (w, k, sv) CFlush = Some (w', k', sv') \<and> served env fd (w', k', sv') c' \<and>
    conn_stream (w', k', c') = conn_stream (w, k, c) \<and> unsent_work (w', k', c') < unsent_work (w, k, c) \<and>
    out_len (w', k', c') \<le> out_len (w, k, c) \<and> sv_calls sv' = sv_calls sv"
proof -
  have ne: "eb_contents (c_out c) \<noteq> []" using assms(2) by (auto simp: out_len_def)
  have c: "se_sys env = kst_sys" "cm_getConn (sv_conns sv) fd = Some c" "fd \<noteq> sv_lnfd sv" "conn_sound (w, k, c)"
      "pa_FD (c_pa c) = fd" "ks_ev k fd = Some readWriteEvents"
    using assms(1) ne by (simp_all add: served_def watched_def)
  obtain w' k' c' where s': "conn_step kst_sys (w, k, c) CFlush = Some (w', k', c')" "conn_sound (w', k', c')"
      "conn_stream (w', k', c') = conn_stream (w, k, c)" "unsent_work (w', k', c') < unsent_work (w, k, c)"
    using flush_progress [OF c(4) assms(2)] by auto
  obtain e where f: "conn_WriteFlush kst_sys w k c = Some (e, w', k', c')" using s'(1) by auto
  have l: "out_len (w', k', c') \<le> out_len (w, k, c)" using conn_WriteFlush_spec [OF c(4)] f by auto
  note p = conn_WriteFlush_pending [OF c(4) ne f]
  have "watched fd (w', k', c')" using p c(5) s'(2) pending_registered [OF s'(2)] by (simp add: watched_def)
  moreover have "send_step env fd (w, k, sv) CFlush = Some (w', k', sv\<lparr>sv_conns := cm_addConn (sv_conns sv) fd c'\<rparr>)"
    using c p f EPOLLOUT_bits by (simp add: srv_Callback_def srv_eventWrite_def)
  ultimately show ?thesis using s'(3,4) l c(1,3)
    by (intro exI [of _ w'] exI [of _ k'] exI [of _ "sv\<lparr>sv_conns := cm_addConn (sv_conns sv) fd c'\<rparr>"] exI [of _ c'])
      (simp add: served_def)
qed

lemma idle_round:
  assumes "served env fd (w, k, sv) c" and "out_len (w, k, c) = 0"
  shows "send_step env fd (w, k, sv) CFlush = Some (w, k, sv)"
  using assms EPOLLOUT_bits by (simp add: served_def watched_def out_len_def)

lemma idle_rounds:
  assumes "served env fd (w, k, sv) c" and "out_len (w, k, c) = 0"
  shows "send_run env fd (w, k, sv) (replicate n CFlush) = Some (w, k, sv)"
  by (induction n) (simp_all add: idle_round [OF assms] del: send_step.simps)

section \<open>Every run\<close>

lemma send_run_spec:
  assumes "served env fd (w, k, sv) c" and "\<forall>op \<in> set ops. op = CFlush \<or> op_input op \<noteq> []"
    and "out_len (w, k, c) + length (concat (map op_input ops)) \<le> rb_limit"
  shows "\<exists>w' k' sv' c'. send_run env fd (w, k, sv) ops = Some (w', k', sv') \<and> served env fd (w', k', sv') c' \<and>
    conn_stream (w', k', c') = conn_stream (w, k, c) @ concat (map op_input ops) \<and> sv_calls sv' = sv_calls sv"
  using assms
proof (induction ops arbitrary: w k sv c)
  case (Cons op ops)
  have "\<exists>w1 k1 sv1 c1. send_step env fd (w, k, sv) op = Some (w1, k1, sv1) \<and> served env fd (w1, k1, sv1) c1 \<and>
      conn_stream (w1, k1, c1) = conn_stream (w, k, c) @ op_input op \<and>
      out_len (w1, k1, c1) \<le> out_len (w, k, c) + length (op_input op) \<and> sv_calls sv1 = sv_calls sv"
  proof (cases "op = CFlush")
    case True
    show ?thesis
    proof (cases "out_len (w, k, c) = 0")
      case out: True
      then show ?thesis using True Cons.prems(1) idle_round [OF Cons.prems(1)] by fastforce
    next
      case False
      then show ?thesis using True served_round [OF Cons.prems(1)] by fastforce
    qed
  next
    case False
    then show ?thesis using served_write [OF Cons.prems(1), of op] Cons.prems(2,3) by simp
  qed
  then obtain w1 k1 sv1 c1 where s1: "send_step env fd (w, k, sv) op = Some (w1, k1, sv1)" "served env fd (w1, k1, sv1) c1"
      "conn_stream (w1, k1, c1) = conn_stream (w, k, c) @ op_input op"
      "out_len (w1, k1, c1) \<le> out_len (w, k, c) + length (op_input op)" "sv_calls sv1 = sv_calls sv"
    by blast
  then show ?case using Cons.IH [OF s1(2)] Cons.prems(2,3) by (simp del: send_step.simps)
qed auto

lemma rounds_drain:
  assumes "served env fd (w, k, sv) c"
  shows "\<exists>N w' k' sv' c'. (\<forall>n \<ge> N. send_run env fd (w, k, sv) (replicate n CFlush) = Some (w', k', sv')) \<and>
    served env fd (w', k', sv') c' \<and> conn_stream (w', k', c') = conn_stream (w, k, c) \<and> out_len (w', k', c') = 0 \<and>
    sv_calls sv' = sv_calls sv"
  using assms
proof (induction "unsent_work (w, k, c)" arbitrary: w k sv c rule: less_induct)
  case less
  show ?case
  proof (cases "out_len (w, k, c) = 0")
    case True
    then show ?thesis using less.prems idle_rounds [OF less.prems True] by blast
  next
    case False
    then obtain w1 k1 sv1 c1 where s1: "send_step env fd (w, k, sv) CFlush = Some (w1, k1, sv1)" "served env fd (w1, k1, sv1) c1"
        "conn_stream (w1, k1, c1) = conn_stream (w, k, c)" "unsent_work (w1, k1, c1) < unsent_work (w, k, c)" "sv_calls sv1 = sv_calls sv"
      using served_round [OF less.prems] by auto
    from less.hyps [OF s1(4,2)] obtain N w' k' sv' c' where
      r: "\<forall>n \<ge> N. send_run env fd (w1, k1, sv1) (replicate n CFlush) = Some (w', k', sv')" "served env fd (w', k', sv') c'"
        "conn_stream (w', k', c') = conn_stream (w1, k1, c1)" "out_len (w', k', c') = 0" "sv_calls sv' = sv_calls sv1"
      by blast
    have "send_run env fd (w, k, sv) (replicate n CFlush) = Some (w', k', sv')" if "Suc N \<le> n" for n
    proof -
      from that obtain m where "n = Suc m" "N \<le> m" by (cases n) auto
      then show ?thesis using s1(1) r(1) by (simp del: send_step.simps)
    qed
    then show ?thesis using r s1(3,5) by (intro exI [of _ "Suc N"]) auto
  qed
qed

lemma run_then_rounds:
  assumes "served env fd (w, k, sv) c" and "\<forall>op \<in> set ops. op = CFlush \<or> op_input op \<noteq> []"
    and "out_len (w, k, c) + length (concat (map op_input ops)) \<le> rb_limit"
  shows "\<exists>N w' k' sv' c'. (\<forall>n \<ge> N. send_run env fd (w, k, sv) (ops @ replicate n CFlush) = Some (w', k', sv')) \<and>
    served env fd (w', k', sv') c' \<and> ks_out k' = conn_stream (w, k, c) @ concat (map op_input ops) \<and>
    eb_contents (c_out c') = [] \<and> sv_calls sv' = sv_calls sv"
proof -
  obtain w1 k1 sv1 c1 where s1: "send_run env fd (w, k, sv) ops = Some (w1, k1, sv1)" "served env fd (w1, k1, sv1) c1"
      "conn_stream (w1, k1, c1) = conn_stream (w, k, c) @ concat (map op_input ops)" "sv_calls sv1 = sv_calls sv"
    using send_run_spec [OF assms] by blast
  obtain N w' k' sv' c' where r: "\<forall>n \<ge> N. send_run env fd (w1, k1, sv1) (replicate n CFlush) = Some (w', k', sv')"
      "served env fd (w', k', sv') c'" "conn_stream (w', k', c') = conn_stream (w1, k1, c1)" "out_len (w', k', c') = 0"
      "sv_calls sv' = sv_calls sv1"
    using rounds_drain [OF s1(2)] by blast
  then show ?thesis using s1
    by (intro exI [of _ N] exI [of _ w'] exI [of _ k'] exI [of _ sv'] exI [of _ c']) (simp add: send_run_append conn_stream_def out_len_def)
qed

lemma new_served:
  assumes "newTCPConn w0 pollFd fd addr cap = Some (c, w)" and "w_ok w0" and "0 < cap" and "kst_calm k"
    and "se_sys env = kst_sys" and "cm_getConn (sv_conns sv) fd = Some c" and "fd \<noteq> sv_lnfd sv" and "ks_ev k fd = Some readEvents"
  shows "served env fd (w, k, sv) c"
  using newTCPConn_spec [OF assms(2,3), of pollFd fd addr] assms newTCPConn_sound [OF assms(1-4)]
  by (auto simp: served_def watched_def)

text \<open>
  C4: the server sends everything. A connection as \<open>accept\<close> leaves it is written to in any
  non-empty pieces between any rounds of the event loop, over any kernel that takes at least a byte of a
  write or answers \<open>EAGAIN\<close>, finitely often. After finitely many more rounds all bytes have
  reached the peer in order, and from then on nothing changes: the connection is still in the
  table with nothing pending, registered for reading only, however long the loop goes on. The
  handler hears nothing of it, so the server has not closed the connection on the way.
\<close>

theorem server_sends_everything:
  assumes "newTCPConn w0 pollFd fd addr cap = Some (c, w)" and "w_ok w0" and "0 < cap" and "kst_calm k"
    and "se_sys env = kst_sys" and "cm_getConn (sv_conns sv) fd = Some c" and "fd \<noteq> sv_lnfd sv" and "ks_ev k fd = Some readEvents"
    and "\<forall>op \<in> set ops. op = CFlush \<or> op_input op \<noteq> []" and "length (concat (map op_input ops)) \<le> rb_limit"
  shows "\<exists>N w' k' sv' c'. (\<forall>n \<ge> N. send_run env fd (w, k, sv) (ops @ replicate n CFlush) = Some (w', k', sv')) \<and>
    ks_out k' = ks_out k @ concat (map op_input ops) \<and> cm_getConn (sv_conns sv') fd = Some c' \<and>
    eb_contents (c_out c') = [] \<and> ks_ev k' fd = Some readEvents \<and> sv_calls sv' = sv_calls sv"
proof -
  note c = newTCPConn_sound [OF assms(1-4)] and v = new_served [OF assms(1-8)]
  obtain N w' k' sv' c' where "\<forall>n \<ge> N. send_run env fd (w, k, sv) (ops @ replicate n CFlush) = Some (w', k', sv')"
      "served env fd (w', k', sv') c'" "ks_out k' = ks_out k @ concat (map op_input ops)" "eb_contents (c_out c') = []"
      "sv_calls sv' = sv_calls sv"
    using run_then_rounds [OF v assms(9)] c(2,3) assms(10) by auto
  moreover from this have "cm_getConn (sv_conns sv') fd = Some c' \<and> ks_ev k' fd = Some readEvents"
    by (simp add: served_def watched_def)
  ultimately show ?thesis by blast
qed

text \<open>The witness: the accepted connection of \<open>EngineCorrect\<close> over a slow kernel.\<close>

definition table7 :: "defaultHead server" where
  "table7 = server3\<lparr>sv_conns := cm_addConn cm_init 7 accepted\<rparr>"

definition slow7 :: kst where
  "slow7 = slow_kernel\<lparr>ks_ev := [7 \<mapsto> readEvents]\<rparr>"

lemma table7_ok: "kst_calm slow7" "se_sys quiet_env = kst_sys" "cm_getConn (sv_conns table7) 7 = Some accepted" "7 \<noteq> sv_lnfd table7"
  "ks_ev slow7 7 = Some readEvents" "ks_out slow7 = []"
  by (simp_all add: table7_def slow7_def slow_kernel_def kst_calm_def quiet_env_def server3_def)

theorem server_sends_everything_witness:
  "\<exists>N w' k' sv' c'. (\<forall>n \<ge> N. send_run quiet_env 7 (empty_world, slow7, table7)
      ([CWrite [1, 2, 3], CFlush, CWritev [[4], [], [5]]] @ replicate n CFlush) = Some (w', k', sv')) \<and>
    ks_out k' = ks_out slow7 @ concat (map op_input [CWrite [1, 2, 3], CFlush, CWritev [[4], [], [5]]]) \<and>
    cm_getConn (sv_conns sv') 7 = Some c' \<and> eb_contents (c_out c') = [] \<and> ks_ev k' 7 = Some readEvents \<and> sv_calls sv' = sv_calls table7"
  by (rule server_sends_everything [OF newTCPConn_accepted w_ok_empty _ table7_ok(1-5)]) (simp_all add: rb_limit_def)

end
