(* ===== verification/EndToEnd.thy ===== *)
theory EndToEnd
  imports ServerSend Facade
begin

text \<open>
  The server and the client joined: the bytes that the server has handed to its kernel are the
  stream the client reads, cut into reads in any way.
\<close>

section \<open>The network\<close>

text \<open>A stream delivered in reads of the given sizes, the rest in one, and then its end.\<close>

fun cut_into :: "nat list \<Rightarrow> byte list \<Rightarrow> rscript" where
  "cut_into [] bs = [(bs, None), ([], Some EOF)]"
| "cut_into (n # ns) bs = (take n bs, None) # cut_into ns (drop n bs)"

lemma cut_into_script [simp]: "script_data (cut_into ns bs) = bs" "script_clean (cut_into ns bs)"
  by (induction ns arbitrary: bs) (simp_all add: script_clean_def)

text \<open>
  The world a client of \<open>host\<close> dials into: the network hands it the stream of its server, and
  nobody answers under another name.
\<close>

definition network :: "string \<Rightarrow> nat list \<Rightarrow> byte list \<Rightarrow> string \<Rightarrow> string \<Rightarrow> goerror + rscript" where
  "network host ns bs n a =
     (if n = ''tcp'' \<and> a = host then Inr (cut_into ns bs) else Inl (OtherError ''connection refused''))"

text \<open>The client with the default decoder: \<open>Open\<close> and the goroutine it starts.\<close>

definition client_run :: "world \<Rightarrow> string \<Rightarrow> string \<Rightarrow> nat list \<Rightarrow> byte list \<Rightarrow>
    (call list \<times> world \<times> client \<times> rscript) option" where
  "client_run w url host ns bs =
     (case cli_Open (network host ns bs) NewClient url [] of
        (None, Some c, cli, calls) \<Rightarrow> cli_process script_read (Some (default_header, dd_NewHead)) w cli (replicate 1024 0) c calls
      | (_, _, cli, calls) \<Rightarrow> Some (calls, w, cli, []))"

text \<open>What the client is told of frames: the connection, each frame in order, the end.\<close>

definition delivered :: "(defaultHead \<times> byte list) list \<Rightarrow> call list" where
  "delivered fs = OnOpen # map (traffic default_header) fs @ [OnClose, ConnClose, ConnClose]"

lemma client_run_open:
  "parseProtoAddr url = (''tcp'', host) \<Longrightarrow> client_run w url host ns bs =
    cli_process script_read (Some (default_header, dd_NewHead)) w \<lparr>cl_in = \<lparr>er_rb = None\<rparr>\<rparr> (replicate 1024 0) (cut_into ns bs) [OnOpen]"
  by (simp add: client_run_def cli_Open_def network_def NewClient_def)

text \<open>
  A client that dials a server whose stream is a prefix of the frames' bytes is handed the
  complete frames of it.
\<close>

lemma client_run_prefix:
  assumes "parseProtoAddr url = (''tcp'', host)" and "w_ok w" and "list_all (frame_ok default_header) fs"
    and "bs @ lost = frames_bytes default_header fs" and "length (frames_bytes default_header fs) \<le> rb_limit"
  shows "\<exists>ds rest left r. fs = ds @ rest \<and> bs = frames_bytes default_header ds @ left \<and>
    left @ lost = frames_bytes default_header rest \<and> starved default_header rest left \<and>
    client_run w url host ns bs = Some (delivered ds, r)"
proof -
  obtain ds rest left r where d: "fs = ds @ rest" "left @ lost = frames_bytes default_header rest"
      "starved default_header rest left" "client_run w url host ns bs = Some (delivered ds, r)"
    using dh_client_prefix [OF assms(2,3), of "cut_into ns bs" lost "[OnOpen]"] assms(4,5)
    unfolding client_run_open [OF assms(1)] delivered_def by auto
  have "bs @ lost = (frames_bytes default_header ds @ left) @ lost" using assms(4) d(1,2) by simp
  with d show ?thesis by blast
qed

lemma client_run_all:
  assumes "parseProtoAddr url = (''tcp'', host)" and "w_ok w" and "list_all (frame_ok default_header) fs"
    and "length (frames_bytes default_header fs) \<le> rb_limit"
  shows "\<exists>r. client_run w url host ns (frames_bytes default_header fs) = Some (delivered fs, r)"
proof -
  obtain ds rest left r where d: "fs = ds @ rest" "left = frames_bytes default_header rest" "starved default_header rest left"
      "client_run w url host ns (frames_bytes default_header fs) = Some (delivered ds, r)"
    using client_run_prefix [OF assms(1-3), of "frames_bytes default_header fs" "[]" ns] assms(4) by auto
  then have "rest = []" using starved_complete by blast
  with d show ?thesis by (intro exI [of _ r]) simp
qed

section \<open>From one end to the other\<close>

text \<open>
  C8: what the client has got at any moment. Write the bytes of frames to a connection in the
  server's table, in any non-empty pieces, with rounds of the event loop in between, over any kernel that
  takes at least a byte of a write or answers \<open>EAGAIN\<close>, and let the connection end there. The
  calls return; the client that opens the server's address returns however the network cuts what
  was sent, and its handler has been called for the connection, for exactly the frames sent
  completely, once each and in order, and for the end. What it has read beyond them is less than
  the next frame.
\<close>

theorem client_gets_complete_frames:
  assumes "newTCPConn w0 pollFd fd addr cap = Some (c, w)" and "w_ok w0" and "0 < cap" and "kst_calm k"
    and "se_sys env = kst_sys" and "cm_getConn (sv_conns sv) fd = Some c" and "fd \<noteq> sv_lnfd sv" and "ks_ev k fd = Some readEvents"
    and "ks_out k = []" and "\<forall>op \<in> set ops. op = CFlush \<or> op_input op \<noteq> []"
    and "concat (map op_input ops) = frames_bytes default_header fs" and "list_all (frame_ok default_header) fs"
    and "length (frames_bytes default_header fs) \<le> rb_limit" and "w_ok w2" and "parseProtoAddr url = (''tcp'', host)"
  shows "\<exists>w' k' sv' ds rest left r. send_run env fd (w, k, sv) ops = Some (w', k', sv') \<and>
    fs = ds @ rest \<and> ks_out k' = frames_bytes default_header ds @ left \<and> starved default_header rest left \<and>
    client_run w2 url host ns (ks_out k') = Some (delivered ds, r)"
proof -
  note c = newTCPConn_sound [OF assms(1-4)] and v = new_served [OF assms(1-8)]
  obtain w' k' sv' c' where r: "send_run env fd (w, k, sv) ops = Some (w', k', sv')"
      "conn_stream (w', k', c') = frames_bytes default_header fs"
    using send_run_spec [OF v assms(10)] c(2,3) assms(9,11,13) by auto
  then have "ks_out k' @ eb_contents (c_out c') = frames_bytes default_header fs" by (simp add: conn_stream_def)
  with client_run_prefix [OF assms(15,14,12) this assms(13), of ns] r(1) show ?thesis by blast
qed

text \<open>
  C1: every frame arrives. In the same setting, after finitely many more rounds of the event
  loop the client that opens the server's address gets every frame, once and in order, with the
  header and the body that were written, and this stays so however many rounds follow.
\<close>

theorem every_frame_reaches_the_client:
  assumes "newTCPConn w0 pollFd fd addr cap = Some (c, w)" and "w_ok w0" and "0 < cap" and "kst_calm k"
    and "se_sys env = kst_sys" and "cm_getConn (sv_conns sv) fd = Some c" and "fd \<noteq> sv_lnfd sv" and "ks_ev k fd = Some readEvents"
    and "ks_out k = []" and "\<forall>op \<in> set ops. op = CFlush \<or> op_input op \<noteq> []"
    and "concat (map op_input ops) = frames_bytes default_header fs" and "list_all (frame_ok default_header) fs"
    and "length (frames_bytes default_header fs) \<le> rb_limit" and "w_ok w2" and "parseProtoAddr url = (''tcp'', host)"
  shows "\<exists>N. \<forall>n \<ge> N. \<exists>w' k' sv' r. send_run env fd (w, k, sv) (ops @ replicate n CFlush) = Some (w', k', sv') \<and>
    client_run w2 url host ns (ks_out k') = Some (delivered fs, r)"
proof -
  note c = newTCPConn_sound [OF assms(1-4)] and v = new_served [OF assms(1-8)]
  obtain N w' k' sv' where r: "\<forall>n \<ge> N. send_run env fd (w, k, sv) (ops @ replicate n CFlush) = Some (w', k', sv')"
      "ks_out k' = frames_bytes default_header fs"
    using run_then_rounds [OF v assms(10)] c(2,3) assms(9,11,13) by auto
  obtain x where "client_run w2 url host ns (ks_out k') = Some (delivered fs, x)"
    using client_run_all [OF assms(15,14,12,13), of ns] r(2) by auto
  with r(1) show ?thesis by blast
qed

text \<open>The witnesses: two frames written in three pieces to a slow kernel, read in pieces.\<close>

abbreviation two_frames :: "(defaultHead \<times> byte list) list" where
  "two_frames \<equiv> [(\<lparr>dh_bodyLen = 1, dh_msgId = 9\<rparr>, [65]), (\<lparr>dh_bodyLen = 2, dh_msgId = 7\<rparr>, [66, 67])]"

definition three_pieces :: "conn_op list" where
  "three_pieces = [CWrite [1, 0, 0, 0, 9, 0, 0, 0, 65, 2], CFlush, CWritev [[0, 0, 0], [], [7, 0, 0]], CWrite [0, 66, 67]]"

lemma three_pieces_ok:
  "\<forall>op \<in> set three_pieces. op = CFlush \<or> op_input op \<noteq> []"
  "concat (map op_input three_pieces) = frames_bytes default_header two_frames" "list_all (frame_ok default_header) two_frames"
  "length (frames_bytes default_header two_frames) \<le> rb_limit"
  by (simp_all add: three_pieces_def frames_bytes_def frame_bytes_def default_header_def dh_Encode_def le_put_4
      frame_ok_def dh_GetBodyLen_def rb_limit_def)

lemma localhost_url: "parseProtoAddr ''TCP://localhost:9000'' = (''tcp'', ''localhost:9000'')"
  by code_simp

theorem client_gets_complete_frames_witness:
  "\<exists>w' k' sv' ds rest left r. send_run quiet_env 7 (empty_world, slow7, table7) three_pieces = Some (w', k', sv') \<and>
    two_frames = ds @ rest \<and> ks_out k' = frames_bytes default_header ds @ left \<and> starved default_header rest left \<and>
    client_run empty_world ''TCP://localhost:9000'' ''localhost:9000'' [3, 0, 5] (ks_out k') = Some (delivered ds, r)"
  by (rule client_gets_complete_frames
      [OF newTCPConn_accepted w_ok_empty _ table7_ok three_pieces_ok w_ok_empty localhost_url]) simp

theorem every_frame_reaches_the_client_witness:
  "\<exists>N. \<forall>n \<ge> N. \<exists>w' k' sv' r. send_run quiet_env 7 (empty_world, slow7, table7) (three_pieces @ replicate n CFlush) =
      Some (w', k', sv') \<and>
    client_run empty_world ''TCP://localhost:9000'' ''localhost:9000'' [3, 0, 5] (ks_out k') = Some (delivered two_frames, r)"
  by (rule every_frame_reaches_the_client
      [OF newTCPConn_accepted w_ok_empty _ table7_ok three_pieces_ok w_ok_empty localhost_url]) simp

end
