(* ===== verification/TaskWake.thy ===== *)
theory TaskWake
  imports Queue
begin

text \<open>
  The wake-up protocol of \<open>internal/netpoll/epoll_optimized_poller.go\<close>: goroutines hand tasks
  to a sleeping event loop through two lock-free queues, a flag and an event descriptor.
  \<open>Trigger\<close> and \<open>UrgentTrigger\<close> (with the flag \<open>u\<close> of the queue) and the part of \<open>Polling\<close>
  that runs tasks are step functions: one step per atomic access of the queues, of the flag
  and of the event descriptor. A write that finds the counter of the descriptor full leaves
  it readable, which is all the protocol uses; the other errors of the write are the subject
  of theory \<open>TaskPoller\<close>. Events of connections do not touch this state.
\<close>

section \<open>State\<close>

text \<open>
  Goroutine 0 is the event loop; the others trigger. A trigger is at one of the accesses of
  \<open>Enqueue\<close>, before the compare-and-swap of the flag, or before the write. The event loop
  waits, is about to read the descriptor, is inside \<open>Dequeue\<close> of a queue (with the count of
  the asynchronous tasks of this round), has a task to run, or is behind the tasks: at the
  store to the flag, at the two tests for emptiness, at the compare-and-swap, at the write.
  The last two fields are history: the tasks handed to the two calls and the tasks run.
\<close>

datatype trig_pc = TIdle | TEnq bool | TCas | TWrite

datatype pol_pc = PWait | PRead | PDeq bool nat | PRun bool nat | PStore | PCheck bool | PCas | PWrite

record 'a wsys =
  ws_q :: "bool \<Rightarrow> 'a qsys"
  ws_wakeupCall :: int
  ws_event :: bool
  ws_trig :: "trig_pc list"
  ws_pol :: pol_pc
  ws_called :: "bool \<Rightarrow> 'a list"
  ws_ran :: "bool \<Rightarrow> 'a list"

text \<open>The asynchronous tasks of one round, as \<open>epoll_events.go\<close> has it.\<close>

definition MaxAsyncTasksAtOneTime :: nat where
  "MaxAsyncTasksAtOneTime = 256"

definition w_start :: "nat \<Rightarrow> 'a wsys" where
  "w_start n = \<lparr>ws_q = (\<lambda>u. q_start n), ws_wakeupCall = 0, ws_event = False, ws_trig = replicate n TIdle,
     ws_pol = PWait, ws_called = (\<lambda>u. []), ws_ran = (\<lambda>u. [])\<rparr>"

section \<open>Trigger\<close>

definition set_pc :: "nat \<Rightarrow> 'a pc \<Rightarrow> 'a qsys \<Rightarrow> 'a qsys" where
  "set_pc i pc Q = Q\<lparr>qs_pcs := (qs_pcs Q)[i := pc]\<rparr>"

definition begin_Trigger :: "bool \<Rightarrow> nat \<Rightarrow> 'a \<Rightarrow> 'a wsys \<Rightarrow> 'a wsys" where
  "begin_Trigger u i task s =
     s\<lparr>ws_q := (ws_q s)(u := set_pc i (EnqNew (Some task)) (ws_q s u)), ws_trig := (ws_trig s)[i := TEnq u],
       ws_called := (ws_called s)(u := ws_called s u @ [task])\<rparr>"

definition Trigger_step :: "nat \<Rightarrow> 'a wsys \<Rightarrow> 'a wsys option" where
  "Trigger_step i s =
     (case ws_trig s ! i of
        TIdle \<Rightarrow> None
      | TEnq u \<Rightarrow>
          if qs_pcs (ws_q s u) ! i = EnqDone
          then Some (s\<lparr>ws_q := (ws_q s)(u := set_pc i Idle (ws_q s u)), ws_trig := (ws_trig s)[i := TCas]\<rparr>)
          else do {
            (q, pc) \<leftarrow> Enqueue_step (qs_q (ws_q s u)) (qs_pcs (ws_q s u) ! i);
            Some (s\<lparr>ws_q := (ws_q s)(u := q_advance (ws_q s u) i q pc)\<rparr>)
          }
      | TCas \<Rightarrow>
          Some (if ws_wakeupCall s = 0 then s\<lparr>ws_wakeupCall := 1, ws_trig := (ws_trig s)[i := TWrite]\<rparr>
                else s\<lparr>ws_trig := (ws_trig s)[i := TIdle]\<rparr>)
      | TWrite \<Rightarrow> Some (s\<lparr>ws_event := True, ws_trig := (ws_trig s)[i := TIdle]\<rparr>))"

section \<open>The event loop\<close>

definition begin_Dequeue :: "bool \<Rightarrow> nat \<Rightarrow> 'a wsys \<Rightarrow> 'a wsys" where
  "begin_Dequeue u k s =
     s\<lparr>ws_q := (ws_q s)(u := (set_pc 0 DeqHead (ws_q s u))\<lparr>qs_saw := (qs_saw (ws_q s u))[0 := q_contents (qs_q (ws_q s u)) = []]\<rparr>),
       ws_pol := PDeq u k\<rparr>"

text \<open>The test of the loop over the asynchronous tasks.\<close>

definition async_loop :: "nat \<Rightarrow> 'a wsys \<Rightarrow> 'a wsys" where
  "async_loop k s = (if k < MaxAsyncTasksAtOneTime then begin_Dequeue False k s else s\<lparr>ws_pol := PStore\<rparr>)"

text \<open>\<open>Dequeue\<close> has returned a task, or nil.\<close>

fun Dequeue_result :: "'a pc \<Rightarrow> 'a option option" where
  "Dequeue_result (DeqDone task) = Some task"
| "Dequeue_result DeqNil = Some None"
| "Dequeue_result _ = None"

definition Polling_step :: "'a wsys \<Rightarrow> 'a wsys option" where
  "Polling_step s =
     (case ws_pol s of
        PWait \<Rightarrow> if ws_event s then Some (s\<lparr>ws_pol := PRead\<rparr>) else None
      | PRead \<Rightarrow> Some (begin_Dequeue True 0 (s\<lparr>ws_event := False\<rparr>))
      | PDeq u k \<Rightarrow>
          (let Q = ws_q s u in
           case Dequeue_result (qs_pcs Q ! 0) of
             None \<Rightarrow> do {
               (q, pc) \<leftarrow> Dequeue_step (qs_q Q) (qs_pcs Q ! 0);
               Some (s\<lparr>ws_q := (ws_q s)(u := q_advance Q 0 q pc)\<rparr>)
             }
           | Some (Some task) \<Rightarrow>
               Some (s\<lparr>ws_q := (ws_q s)(u := set_pc 0 Idle Q), ws_ran := (ws_ran s)(u := ws_ran s u @ [task]), ws_pol := PRun u k\<rparr>)
           | Some None \<Rightarrow>
               let s = s\<lparr>ws_q := (ws_q s)(u := set_pc 0 Idle Q), ws_pol := PStore\<rparr> in
               Some (if u then async_loop 0 s else s))
      | PRun u k \<Rightarrow> Some (if u then begin_Dequeue True 0 s else async_loop (k + 1) s)
      | PStore \<Rightarrow> Some (s\<lparr>ws_wakeupCall := 0, ws_pol := PCheck False\<rparr>)
      | PCheck u \<Rightarrow>
          Some (s\<lparr>ws_pol := if \<not> q_IsEmpty (qs_q (ws_q s u)) then PCas else if u then PWait else PCheck True\<rparr>)
      | PCas \<Rightarrow>
          Some (if ws_wakeupCall s = 0 then s\<lparr>ws_wakeupCall := 1, ws_pol := PWrite\<rparr> else s\<lparr>ws_pol := PWait\<rparr>)
      | PWrite \<Rightarrow> Some (s\<lparr>ws_event := True, ws_pol := PWait\<rparr>))"

section \<open>Runs\<close>

inductive w_step :: "'a wsys \<Rightarrow> 'a wsys \<Rightarrow> bool" where
  call: "0 < i \<Longrightarrow> i < length (ws_trig s) \<Longrightarrow> ws_trig s ! i = TIdle \<Longrightarrow> w_step s (begin_Trigger u i task s)"
| trigger: "0 < i \<Longrightarrow> i < length (ws_trig s) \<Longrightarrow> Trigger_step i s = Some s' \<Longrightarrow> w_step s s'"
| polling: "Polling_step s = Some s' \<Longrightarrow> w_step s s'"

text \<open>
  The states that goroutine 0 and \<open>n - 1\<close> others reach, while no queue holds as many tasks as
  its 32-bit counter can tell apart.
\<close>

inductive w_reach :: "nat \<Rightarrow> 'a wsys \<Rightarrow> bool" for n where
  start: "w_reach n (w_start n)"
| more: "w_reach n s \<Longrightarrow> w_step s s' \<Longrightarrow> (\<And>u. length (q_contents (qs_q (ws_q s' u))) < 2 ^ 32) \<Longrightarrow> w_reach n s'"

end
