(* ===== verification/TaskPoller.thy ===== *)
theory TaskPoller
  imports Netpoll TaskWake
begin

unbundle bit_operations_syntax

text \<open>
  \<open>internal/netpoll/epoll_optimized_poller.go\<close>, \<open>kqueue_default_poller.go\<close>,
  \<open>kqueue_optimized_poller.go\<close> and \<open>kqueue_events.go\<close>: the pollers that also run tasks. The
  three share the task calls and the frame of the polling loop; they differ in the system
  calls and in how an event leads to its callback. Here a call runs to its end, and what other
  goroutines do meanwhile happens in the functions that wait, call back or run a task, which
  may change the whole state; theory \<open>TaskWake\<close> has the interleavings.
\<close>

section \<open>State\<close>

text \<open>The interface \<open>AsyncTaskQueue\<close>; a call may panic.\<close>

record ('q, 't) AsyncTaskQueue =
  tq_Enqueue :: "'q \<Rightarrow> 't \<Rightarrow> 'q option"
  tq_Dequeue :: "'q \<Rightarrow> ('t option \<times> 'q) option"
  tq_IsEmpty :: "'q \<Rightarrow> bool"

text \<open>
  The poller, with the pool of tasks and, in \<open>po_k\<close>, the kernel and the rest of the program.
  \<open>po_epa\<close> is the descriptor behind the attachment for waking up, which only the epoll poller
  has; it may be nil.
\<close>

record ('q, 'f, 'x, 'k) poller =
  po_fd :: int
  po_epa :: "int option"
  po_wakeupCall :: int
  po_asyncTaskQueue :: 'q
  po_urgentAsyncTaskQueue :: 'q
  po_taskPool :: "('f, 'x) task list"
  po_k :: 'k

text \<open>What the pollers take from outside: the queue, the meaning of a task function, the wake-up.\<close>

record ('q, 'f, 'x, 'k) poll_env =
  pv_queue :: "('q, ('f, 'x) task) AsyncTaskQueue"
  pv_newQueue :: 'q
  pv_apply :: "'f \<Rightarrow> 'x option \<Rightarrow> ('q, 'f, 'x, 'k) poller \<Rightarrow> (goerror option \<times> ('q, 'f, 'x, 'k) poller) option"

text \<open>\<open>CompareAndSwapInt32(&p.wakeupCall, 0, 1)\<close>.\<close>

definition cas_wakeup :: "('q, 'f, 'x, 'k) poller \<Rightarrow> bool \<times> ('q, 'f, 'x, 'k) poller" where
  "cas_wakeup p = (if po_wakeupCall p = 0 then (True, p\<lparr>po_wakeupCall := 1\<rparr>) else (False, p))"

text \<open>The write to the event descriptor, or the call that triggers the user event.\<close>

type_synonym 'p notify = "'p \<Rightarrow> (goerror option \<times> 'p) option"

section \<open>Trigger\<close>

text \<open>\<open>GetTask\<close> and the two assignments.\<close>

definition new_task :: "'f option \<Rightarrow> 'x option \<Rightarrow> ('q, 'f, 'x, 'k) poller \<Rightarrow> ('f, 'x) task \<times> ('q, 'f, 'x, 'k) poller" where
  "new_task fn arg p =
     (case GetTask (po_taskPool p) of
        (task, pool) \<Rightarrow> (task\<lparr>tk_Run := fn, tk_Arg := arg\<rparr>, p\<lparr>po_taskPool := pool\<rparr>))"

text \<open>Everything after \<open>Enqueue\<close>.\<close>

definition wake_up ::
  "('q, 'f, 'x, 'k) poller notify \<Rightarrow> string \<Rightarrow> ('q, 'f, 'x, 'k) poller \<Rightarrow> (goerror option \<times> ('q, 'f, 'x, 'k) poller) option" where
  "wake_up notify name p =
     (case cas_wakeup p of
        (True, p) \<Rightarrow>
          do {
            (err, p) \<leftarrow> notify p;
            Some (NewSyscallError name (if err = Some EAGAIN then None else err), p)
          }
      | (False, p) \<Rightarrow> Some (NewSyscallError name None, p))"

definition po_UrgentTrigger ::
  "('q, 'f, 'x, 'k) poll_env \<Rightarrow> ('q, 'f, 'x, 'k) poller notify \<Rightarrow> string \<Rightarrow> 'f option \<Rightarrow> 'x option \<Rightarrow>
   ('q, 'f, 'x, 'k) poller \<Rightarrow> (goerror option \<times> ('q, 'f, 'x, 'k) poller) option" where
  "po_UrgentTrigger env notify name fn arg p =
     (case new_task fn arg p of
        (task, p) \<Rightarrow>
          do {
            q \<leftarrow> tq_Enqueue (pv_queue env) (po_urgentAsyncTaskQueue p) task;
            wake_up notify name (p\<lparr>po_urgentAsyncTaskQueue := q\<rparr>)
          })"

definition po_Trigger ::
  "('q, 'f, 'x, 'k) poll_env \<Rightarrow> ('q, 'f, 'x, 'k) poller notify \<Rightarrow> string \<Rightarrow> 'f option \<Rightarrow> 'x option \<Rightarrow>
   ('q, 'f, 'x, 'k) poller \<Rightarrow> (goerror option \<times> ('q, 'f, 'x, 'k) poller) option" where
  "po_Trigger env notify name fn arg p =
     (case new_task fn arg p of
        (task, p) \<Rightarrow>
          do {
            q \<leftarrow> tq_Enqueue (pv_queue env) (po_asyncTaskQueue p) task;
            wake_up notify name (p\<lparr>po_asyncTaskQueue := q\<rparr>)
          })"

section \<open>Running tasks\<close>

text \<open>\<open>task.Run(task.Arg)\<close>; a nil function panics.\<close>

definition run_task ::
  "('q, 'f, 'x, 'k) poll_env \<Rightarrow> ('f, 'x) task \<Rightarrow> ('q, 'f, 'x, 'k) poller \<Rightarrow> (goerror option \<times> ('q, 'f, 'x, 'k) poller) option" where
  "run_task env task p = (case tk_Run task of None \<Rightarrow> None | Some f \<Rightarrow> pv_apply env f (tk_Arg task) p)"

text \<open>The loops stop at \<open>ErrEngineShutdown\<close>; every other error is only logged.\<close>

partial_function (option) run_urgent ::
  "('q, 'f, 'x, 'k) poll_env \<Rightarrow> ('q, 'f, 'x, 'k) poller \<Rightarrow> (goerror option \<times> ('q, 'f, 'x, 'k) poller) option" where
  "run_urgent env p =
     do {
       (task, q) \<leftarrow> tq_Dequeue (pv_queue env) (po_urgentAsyncTaskQueue p);
       let p = p\<lparr>po_urgentAsyncTaskQueue := q\<rparr>;
       (case task of
          None \<Rightarrow> Some (None, p)
        | Some task \<Rightarrow>
            do {
              (err, p) \<leftarrow> run_task env task p;
              if err = Some ErrEngineShutdown then Some (err, p)
              else run_urgent env (p\<lparr>po_taskPool := PutTask task (po_taskPool p)\<rparr>)
            })
     }"

fun run_async ::
  "('q, 'f, 'x, 'k) poll_env \<Rightarrow> nat \<Rightarrow> ('q, 'f, 'x, 'k) poller \<Rightarrow> (goerror option \<times> ('q, 'f, 'x, 'k) poller) option" where
  "run_async env 0 p = Some (None, p)"
| "run_async env (Suc k) p =
     do {
       (task, q) \<leftarrow> tq_Dequeue (pv_queue env) (po_asyncTaskQueue p);
       let p = p\<lparr>po_asyncTaskQueue := q\<rparr>;
       (case task of
          None \<Rightarrow> Some (None, p)
        | Some task \<Rightarrow>
            do {
              (err, p) \<leftarrow> run_task env task p;
              if err = Some ErrEngineShutdown then Some (err, p)
              else run_async env k (p\<lparr>po_taskPool := PutTask task (po_taskPool p)\<rparr>)
            })
     }"

text \<open>The block under \<open>if doChores\<close>: an error to return, and the new value of \<open>doChores\<close>.\<close>

definition do_chores ::
  "('q, 'f, 'x, 'k) poll_env \<Rightarrow> nat \<Rightarrow> ('q, 'f, 'x, 'k) poller notify \<Rightarrow> ('q, 'f, 'x, 'k) poller \<Rightarrow>
   (goerror option \<times> bool \<times> ('q, 'f, 'x, 'k) poller) option" where
  "do_chores env maxTasks notify p =
     do {
       (err, p) \<leftarrow> run_urgent env p;
       if err \<noteq> None then Some (err, False, p)
       else do {
         (err, p) \<leftarrow> run_async env maxTasks p;
         if err \<noteq> None then Some (err, False, p)
         else do {
           let p = p\<lparr>po_wakeupCall := 0\<rparr>;
           let Q = pv_queue env;
           if \<not> tq_IsEmpty Q (po_asyncTaskQueue p) \<or> \<not> tq_IsEmpty Q (po_urgentAsyncTaskQueue p) then
             (case cas_wakeup p of
                (True, p) \<Rightarrow>
                  do {
                    (err, p) \<leftarrow> notify p;
                    Some (None, err \<noteq> None \<and> err \<noteq> Some EAGAIN, p)
                  }
              | (False, p) \<Rightarrow> Some (None, False, p))
           else Some (None, False, p)
         }
       }
     }"

section \<open>The polling loop\<close>

text \<open>
  The errors of a callback that end the loop, and the events of a round: each leads to an
  error to return, the new \<open>doChores\<close>, and the state.
\<close>

definition stops :: "goerror option \<Rightarrow> bool" where
  "stops err \<longleftrightarrow> err = Some ErrAcceptSocket \<or> err = Some ErrEngineShutdown"

fun handle_events ::
  "('ev \<Rightarrow> bool \<Rightarrow> 'p \<Rightarrow> (goerror option \<times> bool \<times> 'p) option) \<Rightarrow> 'ev list \<Rightarrow> bool \<Rightarrow> 'p \<Rightarrow>
   (goerror option \<times> bool \<times> 'p) option" where
  "handle_events handle [] doChores p = Some (None, doChores, p)"
| "handle_events handle (ev # evs) doChores p =
     do {
       (err, doChores, p) \<leftarrow> handle ev doChores p;
       if err \<noteq> None then Some (err, doChores, p) else handle_events handle evs doChores p
     }"

text \<open>\<open>Forever\<close> is \<open>msec = -1\<close> or a nil timespec, \<open>Now\<close> is 0 or a zero timespec.\<close>

datatype timeout = Forever | Now

text \<open>\<open>wait\<close> is given the size of the event list; it answers the count, the error and the events.\<close>

type_synonym ('ev, 'p) poll_wait = "int \<Rightarrow> timeout \<Rightarrow> 'p \<Rightarrow> int \<times> goerror option \<times> 'ev list \<times> 'p"

partial_function (option) poller_loop ::
  "('ev, 'p) poll_wait \<Rightarrow> ('ev \<Rightarrow> bool \<Rightarrow> 'p \<Rightarrow> (goerror option \<times> bool \<times> 'p) option) \<Rightarrow>
   ('p \<Rightarrow> (goerror option \<times> bool \<times> 'p) option) \<Rightarrow> (int \<Rightarrow> int) \<Rightarrow> (int \<Rightarrow> int) \<Rightarrow>
   int \<Rightarrow> timeout \<Rightarrow> bool \<Rightarrow> 'p \<Rightarrow> (goerror option \<times> 'p) option" where
  "poller_loop wait handle chores expand shrink cap msec doChores p =
     (case wait cap msec p of
        (n, err, evs, p) \<Rightarrow>
          if n = 0 \<or> (n < 0 \<and> err = Some EINTR) then poller_loop wait handle chores expand shrink cap Forever doChores p
          else if err \<noteq> None then Some (err, p)
          else do {
            (err, doChores, p) \<leftarrow> handle_events handle (take (nat n) evs) doChores p;
            if err \<noteq> None then Some (err, p)
            else do {
              (err, doChores, p) \<leftarrow> (if doChores then chores p else Some (None, False, p));
              if err \<noteq> None then Some (err, p)
              else
                let cap = (if n = cap then expand cap else if n < drop_bit 1 cap then shrink cap else cap) in
                poller_loop wait handle chores expand shrink cap Now doChores p
            }
          })"

section \<open>The epoll poller\<close>

record 'k epoll_sys =
  ep_create :: "'k \<Rightarrow> int \<times> goerror option \<times> 'k"
  ep_eventfd :: "'k \<Rightarrow> int \<times> goerror option \<times> 'k"
  ep_close :: "'k \<Rightarrow> int \<Rightarrow> goerror option \<times> 'k"
  ep_ctl :: "'k \<Rightarrow> int \<Rightarrow> ctl_op \<Rightarrow> int \<Rightarrow> (32 word \<times> PollAttachment) option \<Rightarrow> goerror option \<times> 'k"
  ep_write :: "'k \<Rightarrow> int \<Rightarrow> byte list \<Rightarrow> int \<times> goerror option \<times> 'k"
  ep_read :: "'k \<Rightarrow> int \<Rightarrow> nat \<Rightarrow> int \<times> goerror option \<times> 'k"

text \<open>\<open>errnoErr\<close> boxes common error numbers; the raw calls answer an unsigned word.\<close>

definition errnoErr :: "goerror \<Rightarrow> goerror" where
  "errnoErr e = (if e = EAGAIN then EAGAIN else if e = EINVAL then EINVAL else if e = ENOENT then ENOENT else e)"

definition epollCtl ::
  "('k \<Rightarrow> int \<Rightarrow> ctl_op \<Rightarrow> int \<Rightarrow> 'ev option \<Rightarrow> goerror option \<times> 'k) \<Rightarrow> 'k \<Rightarrow> int \<Rightarrow> ctl_op \<Rightarrow> int \<Rightarrow> 'ev option \<Rightarrow> goerror option \<times> 'k" where
  "epollCtl raw k epfd ctl fd event = (case raw k epfd ctl fd event of (errno, k) \<Rightarrow> (map_option errnoErr errno, k))"

definition epollWait ::
  "(int \<Rightarrow> timeout \<Rightarrow> 'p \<Rightarrow> 64 word \<times> goerror option \<times> 'ev list \<times> 'p) \<Rightarrow> ('ev, 'p) poll_wait" where
  "epollWait raw cap msec p = (case raw cap msec p of (np, errno, evs, p) \<Rightarrow> (sint np, map_option errnoErr errno, evs, p))"

text \<open>A pointer to no attachment panics.\<close>

definition epo_AddRead :: "'k epoll_sys \<Rightarrow> ('q, 'f, 'x, 'k) poller \<Rightarrow> PollAttachment \<Rightarrow> goerror option \<times> ('q, 'f, 'x, 'k) poller" where
  "epo_AddRead sys p pa =
     (case epollCtl (ep_ctl sys) (po_k p) (po_fd p) CtlAdd (pa_FD pa) (Some (readEvents, pa)) of
        (e, k) \<Rightarrow> (NewSyscallError ''epoll_ctl add'' e, p\<lparr>po_k := k\<rparr>))"

definition epo_AddWrite :: "'k epoll_sys \<Rightarrow> ('q, 'f, 'x, 'k) poller \<Rightarrow> PollAttachment \<Rightarrow> goerror option \<times> ('q, 'f, 'x, 'k) poller" where
  "epo_AddWrite sys p pa =
     (case epollCtl (ep_ctl sys) (po_k p) (po_fd p) CtlAdd (pa_FD pa) (Some (writeEvents, pa)) of
        (e, k) \<Rightarrow> (NewSyscallError ''epoll_ctl add'' e, p\<lparr>po_k := k\<rparr>))"

definition epo_AddReadWrite :: "'k epoll_sys \<Rightarrow> ('q, 'f, 'x, 'k) poller \<Rightarrow> PollAttachment \<Rightarrow> goerror option \<times> ('q, 'f, 'x, 'k) poller" where
  "epo_AddReadWrite sys p pa =
     (case epollCtl (ep_ctl sys) (po_k p) (po_fd p) CtlAdd (pa_FD pa) (Some (readWriteEvents, pa)) of
        (e, k) \<Rightarrow> (NewSyscallError ''epoll_ctl add'' e, p\<lparr>po_k := k\<rparr>))"

definition epo_ModRead :: "'k epoll_sys \<Rightarrow> ('q, 'f, 'x, 'k) poller \<Rightarrow> PollAttachment \<Rightarrow> goerror option \<times> ('q, 'f, 'x, 'k) poller" where
  "epo_ModRead sys p pa =
     (case epollCtl (ep_ctl sys) (po_k p) (po_fd p) CtlMod (pa_FD pa) (Some (readEvents, pa)) of
        (e, k) \<Rightarrow> (NewSyscallError ''epoll_ctl mod'' e, p\<lparr>po_k := k\<rparr>))"

definition epo_ModReadWrite :: "'k epoll_sys \<Rightarrow> ('q, 'f, 'x, 'k) poller \<Rightarrow> PollAttachment \<Rightarrow> goerror option \<times> ('q, 'f, 'x, 'k) poller" where
  "epo_ModReadWrite sys p pa =
     (case epollCtl (ep_ctl sys) (po_k p) (po_fd p) CtlMod (pa_FD pa) (Some (readWriteEvents, pa)) of
        (e, k) \<Rightarrow> (NewSyscallError ''epoll_ctl mod'' e, p\<lparr>po_k := k\<rparr>))"

definition epo_Delete :: "'k epoll_sys \<Rightarrow> ('q, 'f, 'x, 'k) poller \<Rightarrow> int \<Rightarrow> goerror option \<times> ('q, 'f, 'x, 'k) poller" where
  "epo_Delete sys p fd =
     (case epollCtl (ep_ctl sys) (po_k p) (po_fd p) CtlDel fd None of
        (e, k) \<Rightarrow> (NewSyscallError ''epoll_ctl del'' e, p\<lparr>po_k := k\<rparr>))"

text \<open>\<open>Close\<close> reads the attachment only after the first descriptor is closed.\<close>

definition epo_Close :: "'k epoll_sys \<Rightarrow> ('q, 'f, 'x, 'k) poller \<Rightarrow> (goerror option \<times> ('q, 'f, 'x, 'k) poller) option" where
  "epo_Close sys p =
     (case ep_close sys (po_k p) (po_fd p) of
        (e, k) \<Rightarrow>
          let err = NewSyscallError ''close'' e; p = p\<lparr>po_k := k\<rparr> in
          if err \<noteq> None then Some (err, p)
          else do {
            efd \<leftarrow> po_epa p;
            (case ep_close sys (po_k p) efd of (e, k) \<Rightarrow> Some (NewSyscallError ''close'' e, p\<lparr>po_k := k\<rparr>))
          })"

text \<open>\<open>new(Poller)\<close>: the queues are nil interfaces until the end of \<open>OpenPoller\<close>.\<close>

definition new_Poller :: "'q \<Rightarrow> ('f, 'x) task list \<Rightarrow> 'k \<Rightarrow> ('q, 'f, 'x, 'k) poller" where
  "new_Poller nilq pool k =
     \<lparr>po_fd = 0, po_epa = None, po_wakeupCall = 0, po_asyncTaskQueue = nilq, po_urgentAsyncTaskQueue = nilq,
      po_taskPool = pool, po_k = k\<rparr>"

text \<open>The poller (nil is \<open>None\<close>), the error, and the kernel.\<close>

definition epo_OpenPoller ::
  "('q, 'f, 'x, 'k) poll_env \<Rightarrow> 'k epoll_sys \<Rightarrow> 'q \<Rightarrow> ('f, 'x) task list \<Rightarrow> 'k \<Rightarrow>
   (('q, 'f, 'x, 'k) poller option \<times> goerror option \<times> 'k) option" where
  "epo_OpenPoller env sys nilq pool k =
     (let poller = new_Poller nilq pool k in
      case ep_create sys k of
        (fd, Some err, k) \<Rightarrow> Some (None, Some (SyscallError ''epoll_create1'' err), k)
      | (fd, None, k) \<Rightarrow>
          let poller = poller\<lparr>po_fd := fd, po_k := k\<rparr> in
          (case ep_eventfd sys (po_k poller) of
             (efd, Some err, k) \<Rightarrow>
               do {
                 (_, poller) \<leftarrow> epo_Close sys (poller\<lparr>po_k := k\<rparr>);
                 Some (None, Some (SyscallError ''eventfd'' err), po_k poller)
               }
           | (efd, None, k) \<Rightarrow>
               let poller = poller\<lparr>po_k := k, po_epa := Some efd\<rparr> in
               (case epo_AddRead sys poller \<lparr>pa_PollFd = 0, pa_FD = efd\<rparr> of
                  (Some err, poller) \<Rightarrow>
                    do { (_, poller) \<leftarrow> epo_Close sys poller; Some (None, Some err, po_k poller) }
                | (None, poller) \<Rightarrow>
                    Some (Some (poller\<lparr>po_asyncTaskQueue := pv_newQueue env, po_urgentAsyncTaskQueue := pv_newQueue env\<rparr>),
                      None, po_k poller))))"

text \<open>The eight bytes of the number 1, and the write of them.\<close>

definition wake_bytes :: "byte list" where
  "wake_bytes = [1, 0, 0, 0, 0, 0, 0, 0]"

definition epo_notify :: "'k epoll_sys \<Rightarrow> ('q, 'f, 'x, 'k) poller notify" where
  "epo_notify sys p =
     do {
       efd \<leftarrow> po_epa p;
       (case ep_write sys (po_k p) efd wake_bytes of (_, err, k) \<Rightarrow> Some (err, p\<lparr>po_k := k\<rparr>))
     }"

definition epo_Trigger ::
  "('q, 'f, 'x, 'k) poll_env \<Rightarrow> 'k epoll_sys \<Rightarrow> 'f option \<Rightarrow> 'x option \<Rightarrow> ('q, 'f, 'x, 'k) poller \<Rightarrow>
   (goerror option \<times> ('q, 'f, 'x, 'k) poller) option" where
  "epo_Trigger env sys fn arg p = po_Trigger env (epo_notify sys) ''write'' fn arg p"

definition epo_UrgentTrigger ::
  "('q, 'f, 'x, 'k) poll_env \<Rightarrow> 'k epoll_sys \<Rightarrow> 'f option \<Rightarrow> 'x option \<Rightarrow> ('q, 'f, 'x, 'k) poller \<Rightarrow>
   (goerror option \<times> ('q, 'f, 'x, 'k) poller) option" where
  "epo_UrgentTrigger env sys fn arg p = po_UrgentTrigger env (epo_notify sys) ''write'' fn arg p"

text \<open>An event carries its attachment; the callback is that of the attachment.\<close>

type_synonym ('ev, 'p) poll_callback = "PollAttachment \<Rightarrow> int \<Rightarrow> 'ev \<Rightarrow> 'p \<Rightarrow> (goerror option \<times> 'p) option"

definition epo_event ::
  "'k epoll_sys \<Rightarrow> (32 word, ('q, 'f, 'x, 'k) poller) poll_callback \<Rightarrow> PollAttachment \<times> 32 word \<Rightarrow> bool \<Rightarrow>
   ('q, 'f, 'x, 'k) poller \<Rightarrow> (goerror option \<times> bool \<times> ('q, 'f, 'x, 'k) poller) option" where
  "epo_event sys callback ev doChores p =
     do {
       efd \<leftarrow> po_epa p;
       if pa_FD (fst ev) \<noteq> efd then
         do { (err, p) \<leftarrow> callback (fst ev) (pa_FD (fst ev)) (snd ev) p; Some (if stops err then err else None, doChores, p) }
       else (case ep_read sys (po_k p) efd 8 of (_, _, k) \<Rightarrow> Some (None, True, p\<lparr>po_k := k\<rparr>))
     }"

text \<open>The size of the event list of \<open>epoll_events.go\<close>.\<close>

definition epo_expand :: "int \<Rightarrow> int" where
  "epo_expand cap = el_size (el_expand \<lparr>el_size = cap, el_events = []\<rparr>)"

definition epo_shrink :: "int \<Rightarrow> int" where
  "epo_shrink cap = el_size (el_shrink \<lparr>el_size = cap, el_events = []\<rparr>)"

definition epo_Polling ::
  "('q, 'f, 'x, 'k) poll_env \<Rightarrow> 'k epoll_sys \<Rightarrow>
   (int \<Rightarrow> timeout \<Rightarrow> ('q, 'f, 'x, 'k) poller \<Rightarrow>
     64 word \<times> goerror option \<times> (PollAttachment \<times> 32 word) list \<times> ('q, 'f, 'x, 'k) poller) \<Rightarrow>
   (32 word, ('q, 'f, 'x, 'k) poller) poll_callback \<Rightarrow> ('q, 'f, 'x, 'k) poller \<Rightarrow> (goerror option \<times> ('q, 'f, 'x, 'k) poller) option" where
  "epo_Polling env sys wait callback p =
     poller_loop (epollWait wait) (epo_event sys callback) (do_chores env MaxAsyncTasksAtOneTime (epo_notify sys)) epo_expand epo_shrink
       InitPollEventsCap Forever False p"

section \<open>The kqueue pollers\<close>

text \<open>The values of FreeBSD; only that the filters differ matters.\<close>

definition EV_ADD :: "16 word" where "EV_ADD = 0x1"
definition EV_DELETE :: "16 word" where "EV_DELETE = 0x2"
definition EV_CLEAR :: "16 word" where "EV_CLEAR = 0x20"
definition EV_ERROR :: "16 word" where "EV_ERROR = 0x4000"
definition EV_EOF :: "16 word" where "EV_EOF = 0x8000"
definition NOTE_TRIGGER :: "32 word" where "NOTE_TRIGGER = 0x1000000"
definition EVFilterRead :: int where "EVFilterRead = -1"
definition EVFilterWrite :: int where "EVFilterWrite = -2"
definition EVFILT_USER :: int where "EVFILT_USER = -11"
definition EVFilterSock :: int where "EVFilterSock = -0xd"

record Kevent_t =
  Ident :: "64 word"
  Filter :: int
  Flags :: "16 word"
  Fflags :: "32 word"
  Udata :: "PollAttachment option"

definition zero_Kevent :: Kevent_t where
  "zero_Kevent = \<lparr>Ident = 0, Filter = 0, Flags = 0, Fflags = 0, Udata = None\<rparr>"

text \<open>\<open>keventIdent(fd)\<close>, and a change of the interest in a descriptor.\<close>

definition keventIdent :: "int \<Rightarrow> 64 word" where
  "keventIdent fd = word_of_int fd"

definition kq_change :: "16 word \<Rightarrow> int \<Rightarrow> int \<Rightarrow> Kevent_t" where
  "kq_change flags flt fd = zero_Kevent\<lparr>Ident := keventIdent fd, Flags := flags, Filter := flt\<rparr>"

record 'k kqueue_sys =
  kq_kqueue :: "'k \<Rightarrow> int \<times> goerror option \<times> 'k"
  kq_kevent :: "'k \<Rightarrow> int \<Rightarrow> Kevent_t list \<Rightarrow> int \<times> goerror option \<times> 'k"
  kq_close :: "'k \<Rightarrow> int \<Rightarrow> goerror option \<times> 'k"

definition kq_submit ::
  "'k kqueue_sys \<Rightarrow> string \<Rightarrow> Kevent_t list \<Rightarrow> ('q, 'f, 'x, 'k) poller \<Rightarrow> goerror option \<times> ('q, 'f, 'x, 'k) poller" where
  "kq_submit sys name changes p =
     (case kq_kevent sys (po_k p) (po_fd p) changes of (_, err, k) \<Rightarrow> (NewSyscallError name err, p\<lparr>po_k := k\<rparr>))"

definition kqd_Close :: "'k kqueue_sys \<Rightarrow> ('q, 'f, 'x, 'k) poller \<Rightarrow> goerror option \<times> ('q, 'f, 'x, 'k) poller" where
  "kqd_Close sys p = (case kq_close sys (po_k p) (po_fd p) of (e, k) \<Rightarrow> (NewSyscallError ''close'' e, p\<lparr>po_k := k\<rparr>))"

definition kqd_OpenPoller ::
  "('q, 'f, 'x, 'k) poll_env \<Rightarrow> 'k kqueue_sys \<Rightarrow> 'q \<Rightarrow> ('f, 'x) task list \<Rightarrow> 'k \<Rightarrow>
   ('q, 'f, 'x, 'k) poller option \<times> goerror option \<times> 'k" where
  "kqd_OpenPoller env sys nilq pool k =
     (let poller = new_Poller nilq pool k in
      case kq_kqueue sys k of
        (fd, Some err, k) \<Rightarrow> (None, Some (SyscallError ''kqueue'' err), k)
      | (fd, None, k) \<Rightarrow>
          let poller = poller\<lparr>po_fd := fd, po_k := k\<rparr> in
          (case kq_kevent sys (po_k poller) (po_fd poller)
                [zero_Kevent\<lparr>Ident := 0, Filter := EVFILT_USER, Flags := EV_ADD OR EV_CLEAR\<rparr>] of
             (_, Some err, k) \<Rightarrow>
               (None, Some (SyscallError ''kevent add|clear'' err), po_k (snd (kqd_Close sys (poller\<lparr>po_k := k\<rparr>))))
           | (_, None, k) \<Rightarrow>
               let poller = poller\<lparr>po_k := k\<rparr> in
               (Some (poller\<lparr>po_asyncTaskQueue := pv_newQueue env, po_urgentAsyncTaskQueue := pv_newQueue env\<rparr>), None, po_k poller)))"

definition kq_note :: "Kevent_t list" where
  "kq_note = [zero_Kevent\<lparr>Ident := 0, Filter := EVFILT_USER, Fflags := NOTE_TRIGGER\<rparr>]"

definition kq_notify :: "'k kqueue_sys \<Rightarrow> ('q, 'f, 'x, 'k) poller notify" where
  "kq_notify sys p = (case kq_kevent sys (po_k p) (po_fd p) kq_note of (_, err, k) \<Rightarrow> Some (err, p\<lparr>po_k := k\<rparr>))"

definition kqd_Trigger ::
  "('q, 'f, 'x, 'k) poll_env \<Rightarrow> 'k kqueue_sys \<Rightarrow> 'f option \<Rightarrow> 'x option \<Rightarrow> ('q, 'f, 'x, 'k) poller \<Rightarrow>
   (goerror option \<times> ('q, 'f, 'x, 'k) poller) option" where
  "kqd_Trigger env sys fn arg p = po_Trigger env (kq_notify sys) ''kevent trigger'' fn arg p"

definition kqd_UrgentTrigger ::
  "('q, 'f, 'x, 'k) poll_env \<Rightarrow> 'k kqueue_sys \<Rightarrow> 'f option \<Rightarrow> 'x option \<Rightarrow> ('q, 'f, 'x, 'k) poller \<Rightarrow>
   (goerror option \<times> ('q, 'f, 'x, 'k) poller) option" where
  "kqd_UrgentTrigger env sys fn arg p = po_UrgentTrigger env (kq_notify sys) ''kevent trigger'' fn arg p"

text \<open>\<open>kqueue_events.go\<close>: the event list; its array always has the length \<open>size\<close>.\<close>

definition kq_InitPollEventsCap :: int where "kq_InitPollEventsCap = 64"
definition kq_MaxPollEventsCap :: int where "kq_MaxPollEventsCap = 512"
definition kq_MinPollEventsCap :: int where "kq_MinPollEventsCap = 16"
definition kq_MaxAsyncTasksAtOneTime :: nat where "kq_MaxAsyncTasksAtOneTime = 128"

definition kq_expand :: "int \<Rightarrow> int" where
  "kq_expand cap = (let newSize = push_bit 1 cap in if newSize \<le> kq_MaxPollEventsCap then newSize else cap)"

definition kq_shrink :: "int \<Rightarrow> int" where
  "kq_shrink cap = (let newSize = drop_bit 1 cap in if newSize \<ge> kq_MinPollEventsCap then newSize else cap)"

text \<open>The filter the callback is given.\<close>

definition kq_filter :: "Kevent_t \<Rightarrow> int" where
  "kq_filter ev = (if Flags ev AND EV_EOF \<noteq> 0 \<or> Flags ev AND EV_ERROR \<noteq> 0 then EVFilterSock else Filter ev)"

definition kqd_event ::
  "(int \<Rightarrow> int \<Rightarrow> 'p \<Rightarrow> (goerror option \<times> 'p) option) \<Rightarrow> Kevent_t \<Rightarrow> bool \<Rightarrow> 'p \<Rightarrow> (goerror option \<times> bool \<times> 'p) option" where
  "kqd_event callback ev doChores p =
     (let fd = sint (Ident ev) in
      if fd \<noteq> 0 then do { (err, p) \<leftarrow> callback fd (kq_filter ev) p; Some (if stops err then err else None, doChores, p) }
      else Some (None, True, p))"

definition kqd_Polling ::
  "('q, 'f, 'x, 'k) poll_env \<Rightarrow> 'k kqueue_sys \<Rightarrow> (Kevent_t, ('q, 'f, 'x, 'k) poller) poll_wait \<Rightarrow>
   (int \<Rightarrow> int \<Rightarrow> ('q, 'f, 'x, 'k) poller \<Rightarrow> (goerror option \<times> ('q, 'f, 'x, 'k) poller) option) \<Rightarrow>
   ('q, 'f, 'x, 'k) poller \<Rightarrow> (goerror option \<times> ('q, 'f, 'x, 'k) poller) option" where
  "kqd_Polling env sys wait callback p =
     poller_loop wait (kqd_event callback) (do_chores env kq_MaxAsyncTasksAtOneTime (kq_notify sys)) kq_expand kq_shrink
       kq_InitPollEventsCap Forever False p"

definition kqd_AddReadWrite :: "'k kqueue_sys \<Rightarrow> ('q, 'f, 'x, 'k) poller \<Rightarrow> PollAttachment \<Rightarrow> goerror option \<times> ('q, 'f, 'x, 'k) poller" where
  "kqd_AddReadWrite sys p pa =
     kq_submit sys ''kevent add'' [kq_change EV_ADD EVFilterRead (pa_FD pa), kq_change EV_ADD EVFilterWrite (pa_FD pa)] p"

definition kqd_AddRead :: "'k kqueue_sys \<Rightarrow> ('q, 'f, 'x, 'k) poller \<Rightarrow> PollAttachment \<Rightarrow> goerror option \<times> ('q, 'f, 'x, 'k) poller" where
  "kqd_AddRead sys p pa = kq_submit sys ''kevent add'' [kq_change EV_ADD EVFilterRead (pa_FD pa)] p"

definition kqd_AddWrite :: "'k kqueue_sys \<Rightarrow> ('q, 'f, 'x, 'k) poller \<Rightarrow> PollAttachment \<Rightarrow> goerror option \<times> ('q, 'f, 'x, 'k) poller" where
  "kqd_AddWrite sys p pa = kq_submit sys ''kevent add'' [kq_change EV_ADD EVFilterWrite (pa_FD pa)] p"

definition kqd_ModRead :: "'k kqueue_sys \<Rightarrow> ('q, 'f, 'x, 'k) poller \<Rightarrow> PollAttachment \<Rightarrow> goerror option \<times> ('q, 'f, 'x, 'k) poller" where
  "kqd_ModRead sys p pa = kq_submit sys ''kevent delete'' [kq_change EV_DELETE EVFilterWrite (pa_FD pa)] p"

definition kqd_ModReadWrite :: "'k kqueue_sys \<Rightarrow> ('q, 'f, 'x, 'k) poller \<Rightarrow> PollAttachment \<Rightarrow> goerror option \<times> ('q, 'f, 'x, 'k) poller" where
  "kqd_ModReadWrite sys p pa = kq_submit sys ''kevent add'' [kq_change EV_ADD EVFilterWrite (pa_FD pa)] p"

definition kqd_Delete :: "('q, 'f, 'x, 'k) poller \<Rightarrow> int \<Rightarrow> goerror option \<times> ('q, 'f, 'x, 'k) poller" where
  "kqd_Delete p fd = (None, p)"

text \<open>
  The optimized poller keeps the attachment in the event and calls its callback; an event of a
  descriptor that carries none panics. Its other text is that of the default one.
\<close>

definition kqo_event ::
  "(int, 'p) poll_callback \<Rightarrow> Kevent_t \<Rightarrow> bool \<Rightarrow> 'p \<Rightarrow> (goerror option \<times> bool \<times> 'p) option" where
  "kqo_event callback ev doChores p =
     (if Ident ev \<noteq> 0 then
        do {
          pa \<leftarrow> Udata ev;
          (err, p) \<leftarrow> callback pa (sint (Ident ev)) (kq_filter ev) p;
          Some (if stops err then err else None, doChores, p)
        }
      else Some (None, True, p))"

definition kqo_Polling ::
  "('q, 'f, 'x, 'k) poll_env \<Rightarrow> 'k kqueue_sys \<Rightarrow> (Kevent_t, ('q, 'f, 'x, 'k) poller) poll_wait \<Rightarrow>
   (int, ('q, 'f, 'x, 'k) poller) poll_callback \<Rightarrow> ('q, 'f, 'x, 'k) poller \<Rightarrow> (goerror option \<times> ('q, 'f, 'x, 'k) poller) option" where
  "kqo_Polling env sys wait callback p =
     poller_loop wait (kqo_event callback) (do_chores env kq_MaxAsyncTasksAtOneTime (kq_notify sys)) kq_expand kq_shrink
       kq_InitPollEventsCap Forever False p"

definition kqo_change :: "16 word \<Rightarrow> int \<Rightarrow> PollAttachment \<Rightarrow> Kevent_t" where
  "kqo_change flags flt pa = (kq_change flags flt (pa_FD pa))\<lparr>Udata := Some pa\<rparr>"

definition kqo_AddReadWrite :: "'k kqueue_sys \<Rightarrow> ('q, 'f, 'x, 'k) poller \<Rightarrow> PollAttachment \<Rightarrow> goerror option \<times> ('q, 'f, 'x, 'k) poller" where
  "kqo_AddReadWrite sys p pa =
     (let ev = kqo_change EV_ADD EVFilterRead pa in kq_submit sys ''kevent add'' [ev, ev\<lparr>Filter := EVFilterWrite\<rparr>] p)"

definition kqo_AddRead :: "'k kqueue_sys \<Rightarrow> ('q, 'f, 'x, 'k) poller \<Rightarrow> PollAttachment \<Rightarrow> goerror option \<times> ('q, 'f, 'x, 'k) poller" where
  "kqo_AddRead sys p pa = kq_submit sys ''kevent add'' [kqo_change EV_ADD EVFilterRead pa] p"

definition kqo_AddWrite :: "'k kqueue_sys \<Rightarrow> ('q, 'f, 'x, 'k) poller \<Rightarrow> PollAttachment \<Rightarrow> goerror option \<times> ('q, 'f, 'x, 'k) poller" where
  "kqo_AddWrite sys p pa = kq_submit sys ''kevent add'' [kqo_change EV_ADD EVFilterWrite pa] p"

definition kqo_ModRead :: "'k kqueue_sys \<Rightarrow> ('q, 'f, 'x, 'k) poller \<Rightarrow> PollAttachment \<Rightarrow> goerror option \<times> ('q, 'f, 'x, 'k) poller" where
  "kqo_ModRead sys p pa = kq_submit sys ''kevent delete'' [kqo_change EV_DELETE EVFilterWrite pa] p"

definition kqo_ModReadWrite :: "'k kqueue_sys \<Rightarrow> ('q, 'f, 'x, 'k) poller \<Rightarrow> PollAttachment \<Rightarrow> goerror option \<times> ('q, 'f, 'x, 'k) poller" where
  "kqo_ModReadWrite sys p pa = kq_submit sys ''kevent add'' [kqo_change EV_ADD EVFilterWrite pa] p"

definition kqo_Delete :: "('q, 'f, 'x, 'k) poller \<Rightarrow> int \<Rightarrow> goerror option \<times> ('q, 'f, 'x, 'k) poller" where
  "kqo_Delete p fd = (None, p)"

text \<open>These have the same text as in the default poller.\<close>

definition kqo_Close :: "'k kqueue_sys \<Rightarrow> ('q, 'f, 'x, 'k) poller \<Rightarrow> goerror option \<times> ('q, 'f, 'x, 'k) poller" where
  "kqo_Close = kqd_Close"

definition kqo_OpenPoller ::
  "('q, 'f, 'x, 'k) poll_env \<Rightarrow> 'k kqueue_sys \<Rightarrow> 'q \<Rightarrow> ('f, 'x) task list \<Rightarrow> 'k \<Rightarrow>
   ('q, 'f, 'x, 'k) poller option \<times> goerror option \<times> 'k" where
  "kqo_OpenPoller = kqd_OpenPoller"

definition kqo_Trigger ::
  "('q, 'f, 'x, 'k) poll_env \<Rightarrow> 'k kqueue_sys \<Rightarrow> 'f option \<Rightarrow> 'x option \<Rightarrow> ('q, 'f, 'x, 'k) poller \<Rightarrow>
   (goerror option \<times> ('q, 'f, 'x, 'k) poller) option" where
  "kqo_Trigger = kqd_Trigger"

definition kqo_UrgentTrigger ::
  "('q, 'f, 'x, 'k) poll_env \<Rightarrow> 'k kqueue_sys \<Rightarrow> 'f option \<Rightarrow> 'x option \<Rightarrow> ('q, 'f, 'x, 'k) poller \<Rightarrow>
   (goerror option \<times> ('q, 'f, 'x, 'k) poller) option" where
  "kqo_UrgentTrigger = kqd_UrgentTrigger"

end
