(* ===== verification/TaskWakeCorrect.thy ===== *)
theory TaskWakeCorrect
  imports TaskWake QueueCorrect "HOL-Library.Multiset"
begin

text \<open>
  No wake-up is lost. The invariant has one part per queue, which follows the goroutines
  through \<open>Enqueue\<close> and \<open>Dequeue\<close> of theory \<open>Queue\<close>, and one part about the flag and the
  event descriptor; together they give that a state in which nobody can move has run every
  task that was triggered.
\<close>

section \<open>One queue\<close>

text \<open>A task pointer in the queue is never nil: only the first node has no task.\<close>

definition has_tasks :: "'a qsys \<Rightarrow> bool" where
  "has_tasks Q \<longleftrightarrow> 0 < length (q_heap (qs_q Q)) \<and>
     (\<forall>n. 0 < n \<and> n < length (q_heap (qs_q Q)) \<longrightarrow> nd_value (q_heap (qs_q Q) ! n) \<noteq> None) \<and>
     (\<forall>pc \<in> set (qs_pcs Q). pc \<noteq> EnqNew None \<and> own_node pc \<noteq> Some 0) \<and> None \<notin> set (qs_enqd Q)"

text \<open>The task a goroutine has taken and not yet returned.\<close>

fun taken :: "'a pc \<Rightarrow> 'a option list" where
  "taken (DeqCount task) = [task]" | "taken (DeqDone task) = [task]" | "taken _ = []"

text \<open>
  Queue \<open>Q\<close> of \<open>n\<close> goroutines, where \<open>e\<close> says who is inside \<open>Enqueue\<close>, \<open>d\<close> whether goroutine 0
  is inside \<open>Dequeue\<close>, and \<open>tasks\<close> are the tasks run.
\<close>

definition queue_inv :: "nat \<Rightarrow> (nat \<Rightarrow> bool) \<Rightarrow> bool \<Rightarrow> 'a list \<Rightarrow> 'a qsys \<Rightarrow> bool" where
  "queue_inv n e d tasks Q \<longleftrightarrow> 0 < n \<and> q_reach n Q \<and> has_tasks Q \<and>
     (\<forall>i. 0 < i \<and> i < n \<longrightarrow> (if e i then in_Enqueue (qs_pcs Q ! i) \<or> qs_pcs Q ! i = EnqDone else qs_pcs Q ! i = Idle)) \<and>
     (if d then in_Dequeue (qs_pcs Q ! 0) \<or> Dequeue_result (qs_pcs Q ! 0) \<noteq> None else qs_pcs Q ! 0 = Idle) \<and>
     qs_deqd Q = map Some tasks @ taken (qs_pcs Q ! 0)"

lemma queue_invD:
  assumes "queue_inv n e d tasks Q"
  shows "0 < n" and "q_reach n Q" and "has_tasks Q" and "length (qs_pcs Q) = n"
    and "0 < i \<Longrightarrow> i < n \<Longrightarrow> if e i then in_Enqueue (qs_pcs Q ! i) \<or> qs_pcs Q ! i = EnqDone else qs_pcs Q ! i = Idle"
    and "if d then in_Dequeue (qs_pcs Q ! 0) \<or> Dequeue_result (qs_pcs Q ! 0) \<noteq> None else qs_pcs Q ! 0 = Idle"
    and "qs_deqd Q = map Some tasks @ taken (qs_pcs Q ! 0)"
  using assms qinv_reach [of n Q] by (auto simp: queue_inv_def)

lemma queue_inv_start: "0 < n \<Longrightarrow> (\<And>i. i < n \<Longrightarrow> \<not> e i) \<Longrightarrow> queue_inv n e False [] (q_start n)"
  by (simp add: queue_inv_def q_reach.start)
    (auto simp add: q_start_def has_tasks_def NewLockFreeQueue_def)

text \<open>Nobody else is affected when goroutine \<open>i\<close> moves.\<close>

lemma in_step_cases:
  "Enqueue_step q pc = Some r \<Longrightarrow> in_Enqueue pc"
  "Dequeue_step q pc = Some r \<Longrightarrow> in_Dequeue pc"
  by (cases pc; simp)+

lemma Enqueue_step_stays: "Enqueue_step q pc = Some (q', pc') \<Longrightarrow> in_Enqueue pc' \<or> pc' = EnqDone"
  by (cases pc) (auto split: bind_splits option.splits if_splits prod.splits)

lemma Dequeue_step_stays: "Dequeue_step q pc = Some (q', pc') \<Longrightarrow> in_Dequeue pc' \<or> Dequeue_result pc' \<noteq> None"
  by (cases pc) (auto split: bind_splits option.splits if_splits prod.splits)

lemma Dequeue_step_taken:
  "Dequeue_step q pc = Some (q', pc') \<Longrightarrow> taken pc' = taken pc @ log_deq pc pc'"
  by (cases pc) (auto split: bind_splits option.splits if_splits prod.splits)

lemma log_enq_steps: "Dequeue_step q pc = Some (q', pc') \<Longrightarrow> log_enq Q pc pc' = []"
  "Enqueue_step q pc = Some (q', pc') \<Longrightarrow> log_deq pc pc' = []"
  by (cases pc; simp)+

lemma log_enq_link:
  "log_enq q pc pc' = [] \<or> (\<exists>n tail. pc = EnqLink n tail \<and> log_enq q pc pc' = [nd_value (q_heap q ! n)])"
  by (induction q pc pc' rule: log_enq.induct) auto

text \<open>Task pointers.\<close>

lemma has_tasks_pcs:
  assumes "has_tasks Q" and "pc \<noteq> EnqNew None" and "own_node pc \<noteq> Some 0"
  shows "has_tasks (Q\<lparr>qs_pcs := (qs_pcs Q)[i := pc], qs_saw := x\<rparr>)"
  using assms set_update_subset_insert [of "qs_pcs Q" i pc] by (auto simp: has_tasks_def)

lemma has_tasks_Enqueue:
  assumes "has_tasks Q" and "i < length (qs_pcs Q)" and "Enqueue_step (qs_q Q) (qs_pcs Q ! i) = Some (q, pc)"
    and "\<And>n. own_node (qs_pcs Q ! i) = Some n \<Longrightarrow> n < length (q_heap (qs_q Q))"
  shows "has_tasks (q_advance Q i q pc)"
proof -
  have h: "0 < length (q_heap (qs_q Q))" "None \<notin> set (qs_enqd Q)" "qs_pcs Q ! i \<noteq> EnqNew None"
      "own_node (qs_pcs Q ! i) \<noteq> Some 0"
      "\<And>n. 0 < n \<Longrightarrow> n < length (q_heap (qs_q Q)) \<Longrightarrow> nd_value (q_heap (qs_q Q) ! n) \<noteq> None"
      "\<And>p. p \<in> set ((qs_pcs Q)[i := pc]) \<Longrightarrow> p \<noteq> pc \<Longrightarrow> p \<noteq> EnqNew None \<and> own_node p \<noteq> Some 0"
    using assms(1,2) set_update_subset_insert [of "qs_pcs Q" i pc] nth_mem [OF assms(2)]
    unfolding has_tasks_def by (blast, blast, blast, blast, blast, blast)
  have p: "pc \<noteq> EnqNew None \<and> own_node pc \<noteq> Some 0"
    using assms(3) h(1,4) by (cases "qs_pcs Q ! i") (auto split: bind_splits option.splits if_splits prod.splits)
  have "None \<notin> set (log_enq (qs_q Q) (qs_pcs Q ! i) pc)"
    using log_enq_link [of "qs_q Q" "qs_pcs Q ! i" pc]
  proof (elim disjE exE conjE)
    fix n tail
    assume n: "qs_pcs Q ! i = EnqLink n tail" "log_enq (qs_q Q) (qs_pcs Q ! i) pc = [nd_value (q_heap (qs_q Q) ! n)]"
    then have "0 < n" "n < length (q_heap (qs_q Q))" using h(4) assms(4) [of n] by auto
    then show ?thesis using h(5) [of n] n(2) by auto
  qed simp
  moreover have "0 < length (q_heap q) \<and> (\<forall>n. 0 < n \<and> n < length (q_heap q) \<longrightarrow> nd_value (q_heap q ! n) \<noteq> None)"
    using assms(3) h(1,3,5)
    by (cases "qs_pcs Q ! i")
      (auto simp: cas_tail_def cas_next_def q_node_def nth_append nth_list_update less_Suc_eq split: bind_splits if_splits prod.splits)
  ultimately show ?thesis using h(2,6) p by (auto simp: has_tasks_def q_advance_def)
qed

lemma has_tasks_Dequeue:
  assumes "has_tasks Q" and "i < length (qs_pcs Q)" and "Dequeue_step (qs_q Q) (qs_pcs Q ! i) = Some (q, pc)"
  shows "has_tasks (q_advance Q i q pc)"
proof -
  have "q_heap q = q_heap (qs_q Q)" "pc \<noteq> EnqNew None" "own_node pc = None"
    using assms(3) by (cases "qs_pcs Q ! i"; auto simp: cas_tail_def cas_head_def split: bind_splits option.splits if_splits prod.splits)+
  then show ?thesis
    using assms(1) log_enq_steps(1) [OF assms(3)] set_update_subset_insert [of "qs_pcs Q" i pc]
    by (auto simp: has_tasks_def q_advance_def)
qed

lemma has_tasks_set_pc:
  assumes "has_tasks Q" and "pc \<noteq> EnqNew None" and "own_node pc \<noteq> Some 0"
  shows "has_tasks (set_pc i pc Q)"
  using has_tasks_pcs [OF assms, where i = i and x = "qs_saw Q"] by (simp add: set_pc_def)

lemma queue_inv_own:
  assumes "queue_inv n e d tasks Q" and "i < n" and "own_node (qs_pcs Q ! i) = Some a"
  shows "a < length (q_heap (qs_q Q))"
proof -
  obtain ch h t where "qinv ch h t Q" using qinv_reach queue_invD(2) [OF assms(1)] by blast
  then show ?thesis using assms queue_invD(4) [OF assms(1)] unfolding qinv_def by blast
qed

lemma queue_inv_other:
  assumes "queue_inv n e d tasks Q" and "q_reach n Q'" and "has_tasks Q'"
    and "0 < i" and "i < n" and "qs_pcs Q' = (qs_pcs Q)[i := pc]" and "qs_deqd Q' = qs_deqd Q"
    and "if b then in_Enqueue pc \<or> pc = EnqDone else pc = Idle"
  shows "queue_inv n (e(i := b)) d tasks Q'"
proof -
  note I = queue_invD [OF assms(1)]
  have "qs_pcs Q' ! 0 = qs_pcs Q ! 0" using assms(4,6) by simp
  moreover have "if (e(i := b)) j then in_Enqueue (qs_pcs Q' ! j) \<or> qs_pcs Q' ! j = EnqDone else qs_pcs Q' ! j = Idle"
    if "0 < j" "j < n" for j
    using I(4) I(5) [OF that] assms(5,6,8) by (cases "i = j") simp_all
  ultimately show ?thesis unfolding queue_inv_def using I(1,6,7) assms(2,3,7) by presburger
qed

lemma queue_inv_zero:
  assumes "queue_inv n e d tasks Q" and "q_reach n Q'" and "has_tasks Q'"
    and "qs_pcs Q' = (qs_pcs Q)[0 := pc]" and "qs_deqd Q' = map Some tasks' @ taken pc"
    and "if b then in_Dequeue pc \<or> Dequeue_result pc \<noteq> None else pc = Idle"
  shows "queue_inv n e b tasks' Q'"
proof -
  note I = queue_invD [OF assms(1)]
  have "qs_pcs Q' ! 0 = pc" using I(1,4) assms(4) by simp
  moreover have "if e j then in_Enqueue (qs_pcs Q' ! j) \<or> qs_pcs Q' ! j = EnqDone else qs_pcs Q' ! j = Idle"
    if "0 < j" "j < n" for j
    using I(5) [OF that] that assms(4) by simp
  ultimately show ?thesis unfolding queue_inv_def using I(1) assms(2,3,5,6) by presburger
qed

text \<open>The moves.\<close>

lemma queue_inv_call_Enqueue:
  assumes "queue_inv n e d tasks Q" and "0 < i" and "i < n" and "\<not> e i"
  shows "queue_inv n (e(i := True)) d tasks (set_pc i (EnqNew (Some task)) Q)"
proof -
  note I = queue_invD [OF assms(1)]
  have "qs_pcs Q ! i = Idle" using I(5) [OF assms(2,3)] assms(4) by simp
  then have "q_reach n (set_pc i (EnqNew (Some task)) Q)"
    unfolding set_pc_def using I(2,4) assms(3) by (intro q_reach.more [OF _ call_Enqueue]) auto
  moreover have "has_tasks (set_pc i (EnqNew (Some task)) Q)"
    by (rule has_tasks_set_pc [OF I(3)]) auto
  ultimately show ?thesis by (rule queue_inv_other [OF assms(1) _ _ assms(2,3)]) (auto simp: set_pc_def)
qed

lemma queue_inv_Enqueue:
  assumes "queue_inv n e d tasks Q" and "0 < i" and "i < n" and "e i" and "Enqueue_step (qs_q Q) (qs_pcs Q ! i) = Some (q, pc)"
  shows "queue_inv n e d tasks (q_advance Q i q pc)"
proof -
  note I = queue_invD [OF assms(1)]
  have "q_reach n (q_advance Q i q pc)"
    using I(2,4) assms(3,5) by (intro q_reach.more [OF _ step_Enqueue]) auto
  moreover have "has_tasks (q_advance Q i q pc)"
    using has_tasks_Enqueue [OF I(3) _ assms(5)] I(4) assms(3) queue_inv_own [OF assms(1,3)] by blast
  ultimately have "queue_inv n (e(i := True)) d tasks (q_advance Q i q pc)"
    by (rule queue_inv_other [OF assms(1) _ _ assms(2,3)])
      (use Enqueue_step_stays [OF assms(5)] log_enq_steps(2) [OF assms(5)] in \<open>simp_all add: q_advance_def\<close>)
  then show ?thesis using assms(4) by (simp add: fun_upd_idem)
qed

lemma queue_inv_Enqueue_returns:
  assumes "queue_inv n e d tasks Q" and "0 < i" and "i < n" and "qs_pcs Q ! i = EnqDone"
  shows "queue_inv n (e(i := False)) d tasks (set_pc i Idle Q)"
proof -
  note I = queue_invD [OF assms(1)]
  have "q_reach n (set_pc i Idle Q)"
    unfolding set_pc_def using I(2,4) assms(3,4) by (intro q_reach.more [OF _ return]) auto
  moreover have "has_tasks (set_pc i Idle Q)"
    by (rule has_tasks_set_pc [OF I(3)]) auto
  ultimately show ?thesis by (rule queue_inv_other [OF assms(1) _ _ assms(2,3)]) (auto simp: set_pc_def)
qed

lemma queue_inv_call_Dequeue:
  assumes "queue_inv n e False tasks Q"
  shows "queue_inv n e True tasks ((set_pc 0 DeqHead Q)\<lparr>qs_saw := (qs_saw Q)[0 := q_contents (qs_q Q) = []]\<rparr>)"
    (is "queue_inv n e True tasks ?Q")
proof -
  note I = queue_invD [OF assms]
  have z: "qs_pcs Q ! 0 = Idle" "0 < length (qs_pcs Q)" using I(1,4,6) by simp_all
  have "q_reach n ?Q"
    unfolding set_pc_def using I(2) call_Dequeue [OF z(2,1)] by (auto intro: q_reach.more)
  moreover have "has_tasks ?Q"
    using has_tasks_pcs [OF I(3), where pc = DeqHead and i = 0] by (simp add: set_pc_def)
  ultimately show ?thesis by (rule queue_inv_zero [OF assms]) (use I(7) z in \<open>auto simp: set_pc_def\<close>)
qed

lemma queue_inv_Dequeue:
  assumes "queue_inv n e True tasks Q" and "Dequeue_step (qs_q Q) (qs_pcs Q ! 0) = Some (q, pc)"
  shows "queue_inv n e True tasks (q_advance Q 0 q pc)"
proof -
  note I = queue_invD [OF assms(1)]
  have "q_reach n (q_advance Q 0 q pc)"
    using I(1,2,4) assms(2) by (intro q_reach.more [OF _ step_Dequeue]) auto
  moreover have "has_tasks (q_advance Q 0 q pc)" using has_tasks_Dequeue [OF I(3) _ assms(2)] I(1,4) by simp
  ultimately show ?thesis
    by (rule queue_inv_zero [OF assms(1)])
      (use I(7) Dequeue_step_stays [OF assms(2)] Dequeue_step_taken [OF assms(2)] in \<open>simp_all add: q_advance_def\<close>)
qed

lemma queue_inv_Dequeue_returns:
  assumes "queue_inv n e True tasks Q" and "Dequeue_result (qs_pcs Q ! 0) = Some r"
  shows "queue_inv n e False (tasks @ (case r of None \<Rightarrow> [] | Some task \<Rightarrow> [task])) (set_pc 0 Idle Q)"
proof -
  note I = queue_invD [OF assms(1)]
  have pc: "qs_pcs Q ! 0 = DeqNil \<and> r = None \<or> qs_pcs Q ! 0 = DeqDone r"
    using assms(2) by (cases "qs_pcs Q ! 0") auto
  have "q_reach n (set_pc 0 Idle Q)"
    unfolding set_pc_def using I(1,2,4) pc by (intro q_reach.more [OF _ return]) auto
  moreover have "has_tasks (set_pc 0 Idle Q)"
    by (rule has_tasks_set_pc [OF I(3)]) auto
  moreover have "None \<notin> set (qs_deqd Q)"
    using q_reach_fifo [OF I(2)] I(3) unfolding has_tasks_def by (metis UnI1 set_append)
  then have "qs_deqd Q = map Some (tasks @ (case r of None \<Rightarrow> [] | Some task \<Rightarrow> [task]))"
    using I(7) pc by (cases r) auto
  ultimately show ?thesis by (intro queue_inv_zero [OF assms(1)]) (auto simp: set_pc_def)
qed

section \<open>The flag and the event\<close>

text \<open>A goroutine has linked its node; a trigger that has linked its node will look at the flag.\<close>

fun linked_pc :: "'a pc \<Rightarrow> bool" where
  "linked_pc (EnqSwing _ _) = True" | "linked_pc EnqCount = True" | "linked_pc EnqDone = True" | "linked_pc _ = False"

definition notifies :: "bool \<Rightarrow> trig_pc \<Rightarrow> 'a pc \<Rightarrow> bool" where
  "notifies u t pc \<longleftrightarrow> (case t of TIdle \<Rightarrow> False | TEnq v \<Rightarrow> v = u \<and> linked_pc pc | TCas \<Rightarrow> True | TWrite \<Rightarrow> True)"

definition notifying :: "bool \<Rightarrow> trig_pc list \<Rightarrow> 'a pc list \<Rightarrow> bool" where
  "notifying u T P \<longleftrightarrow> (\<exists>i. 0 < i \<and> i < length T \<and> notifies u (T ! i) (P ! i))"

definition writing :: "trig_pc list \<Rightarrow> bool" where
  "writing T \<longleftrightarrow> (\<exists>i. 0 < i \<and> i < length T \<and> T ! i = TWrite)"

text \<open>The event loop will still look at queue \<open>u\<close>; the event loop will reset the flag or write.\<close>

fun attentive :: "bool \<Rightarrow> pol_pc \<Rightarrow> bool" where
  "attentive u PWait = False" | "attentive u (PCheck v) = (v \<longrightarrow> u)" | "attentive u _ = True"

fun committed :: "pol_pc \<Rightarrow> bool" where
  "committed PWait = False" | "committed (PCheck _) = False" | "committed PCas = False" | "committed _ = True"

definition signal_inv :: "nat \<Rightarrow> 'a wsys \<Rightarrow> bool" where
  "signal_inv n s \<longleftrightarrow> length (ws_trig s) = n \<and> (ws_wakeupCall s = 0 \<or> ws_wakeupCall s = 1) \<and>
     (ws_wakeupCall s = 1 \<longrightarrow> ws_event s \<or> writing (ws_trig s) \<or> committed (ws_pol s)) \<and>
     (\<forall>u. q_contents (qs_q (ws_q s u)) \<noteq> [] \<longrightarrow>
        ws_event s \<or> notifying u (ws_trig s) (qs_pcs (ws_q s u)) \<or> attentive u (ws_pol s))"

definition queues_inv :: "nat \<Rightarrow> 'a wsys \<Rightarrow> bool" where
  "queues_inv n s \<longleftrightarrow>
     (\<forall>u. queue_inv n (\<lambda>i. ws_trig s ! i = TEnq u) (\<exists>k. ws_pol s = PDeq u k) (ws_ran s u) (ws_q s u))"

lemma trig_update:
  "i < length T \<Longrightarrow> (\<lambda>j. T[i := t] ! j = TEnq u) = (\<lambda>j. T ! j = TEnq u)(i := (t = TEnq u))"
  by (auto simp: nth_list_update)

lemma notifying_update:
  assumes "notifying u T P" and "i < length T" and "length P = length T" and "notifies u (T ! i) (P ! i) \<Longrightarrow> notifies u t pc"
  shows "notifying u (T[i := t]) (P[i := pc])"
proof -
  obtain j where j: "0 < j" "j < length T" "notifies u (T ! j) (P ! j)" using assms(1) by (auto simp: notifying_def)
  have "notifies u (T[i := t] ! j) (P[i := pc] ! j)" using assms(2,3,4) j by (cases "i = j") simp_all
  then show ?thesis using j by (auto simp: notifying_def)
qed

lemma notifying_here:
  assumes "0 < i" and "i < length T" and "length P = length T" and "notifies u t pc"
  shows "notifying u (T[i := t]) (P[i := pc])"
  using assms by (auto simp: notifying_def intro!: exI [of _ i])

lemma writing_update: "writing T \<Longrightarrow> i < length T \<Longrightarrow> T ! i \<noteq> TWrite \<or> t = TWrite \<Longrightarrow> writing (T[i := t])"
  unfolding writing_def by (metis length_list_update nth_list_update_eq nth_list_update_neq)

lemma queues_inv_pcs: "queues_inv n s \<Longrightarrow> length (qs_pcs (ws_q s u)) = n \<and> 0 < n"
  using queue_invD(1,4) unfolding queues_inv_def by blast

text \<open>A step of an operation moves at most one task, and a goroutine that links one says so.\<close>

lemma Enqueue_step_contents:
  assumes "queue_inv n e d tasks Q" and "0 < i" and "i < n" and "e i" and "Enqueue_step (qs_q Q) (qs_pcs Q ! i) = Some (q, pc)"
  shows "(linked_pc (qs_pcs Q ! i) \<longrightarrow> linked_pc pc) \<and> (q_contents q = q_contents (qs_q Q) \<or> linked_pc pc)"
proof -
  have r: "q_reach n Q" "q_reach n (q_advance Q i q pc)"
    using queue_invD(2) [OF assms(1)] queue_invD(2) [OF queue_inv_Enqueue [OF assms]] by blast+
  have "linked_pc pc" if "linked_pc (qs_pcs Q ! i)" using that assms(5) by (cases "qs_pcs Q ! i") auto
  moreover have "linked_pc pc" if "log_enq (qs_q Q) (qs_pcs Q ! i) pc \<noteq> []"
    using that by (cases "(qs_q Q, qs_pcs Q ! i, pc)" rule: log_enq.cases) auto
  ultimately show ?thesis using q_advance_contents [OF r] log_enq_steps(2) [OF assms(5)] by auto
qed

lemma Dequeue_step_contents:
  assumes "queue_inv n e True tasks Q" and "Dequeue_step (qs_q Q) (qs_pcs Q ! 0) = Some (q, pc)"
  shows "q_contents q \<noteq> [] \<Longrightarrow> q_contents (qs_q Q) \<noteq> []"
proof -
  have r: "q_reach n Q" "q_reach n (q_advance Q 0 q pc)"
    using queue_invD(2) [OF assms(1)] queue_invD(2) [OF queue_inv_Dequeue [OF assms]] by blast+
  show "q_contents q \<noteq> [] \<Longrightarrow> q_contents (qs_q Q) \<noteq> []"
    using q_advance_contents [OF r] log_enq_steps(1) [OF assms(2), of "qs_q Q"] by auto
qed

text \<open>When the loop is not in \<open>Dequeue\<close>, a queue that looks empty is empty or has a trigger on its way.\<close>

lemma looks_empty:
  assumes "queue_inv n e False tasks Q" and "length (q_contents (qs_q Q)) < 2 ^ 32" and "q_IsEmpty (qs_q Q)"
    and "q_contents (qs_q Q) \<noteq> []" and "length T = n" and "\<And>i. 0 < i \<Longrightarrow> i < n \<Longrightarrow> e i \<longleftrightarrow> T ! i = TEnq u"
  shows "notifying u T (qs_pcs Q)"
proof -
  note I = queue_invD [OF assms(1)]
  obtain pc where "pc \<in> set (qs_pcs Q)" "uncounted pc \<noteq> 0"
    using q_IsEmpty_exact [OF I(2) _ assms(2)] assms(3,4) by blast
  then obtain i where i: "i < n" "uncounted (qs_pcs Q ! i) \<noteq> 0" using I(4) by (metis in_set_conv_nth)
  have "i \<noteq> 0" using i(2) I(6) by (intro notI) simp
  then have p: "0 < i" by simp
  have "e i \<and> linked_pc (qs_pcs Q ! i)"
    using I(5) [OF p i(1)] i(2) by (cases "qs_pcs Q ! i") (auto split: if_splits)
  then show ?thesis using p i(1) assms(5) assms(6) [OF p i(1)] by (auto simp: notifying_def notifies_def)
qed

section \<open>The steps\<close>

text \<open>A goroutine other than the loop moves: its own pc, one queue, and nothing of the loop.\<close>

lemma queues_inv_trigger:
  assumes "queues_inv n s" and "i < length (ws_trig s)"
    and "ws_trig s' = (ws_trig s)[i := t]" and "ws_pol s' = ws_pol s" and "ws_ran s' = ws_ran s"
    and "\<And>v. v \<noteq> u \<Longrightarrow> ws_q s' v = ws_q s v \<and> ws_trig s ! i \<noteq> TEnq v \<and> t \<noteq> TEnq v"
    and "queue_inv n ((\<lambda>j. ws_trig s ! j = TEnq u)(i := (t = TEnq u))) (\<exists>k. ws_pol s = PDeq u k) (ws_ran s u) (ws_q s' u)"
  shows "queues_inv n s'"
  unfolding queues_inv_def
proof
  fix v
  show "queue_inv n (\<lambda>i. ws_trig s' ! i = TEnq v) (\<exists>k. ws_pol s' = PDeq v k) (ws_ran s' v) (ws_q s' v)"
  proof (cases "v = u")
    case True
    then show ?thesis using assms(2-5,7) by (simp add: trig_update)
  next
    case False
    then have "(\<lambda>j. ws_trig s' ! j = TEnq v) = (\<lambda>j. ws_trig s ! j = TEnq v)"
      using assms(2,3,6) by (auto simp: nth_list_update)
    then show ?thesis using assms(1,4-6) False by (simp add: queues_inv_def)
  qed
qed

lemma inv_call:
  assumes "queues_inv n s" and "signal_inv n s" and "0 < i" and "i < length (ws_trig s)" and "ws_trig s ! i = TIdle"
  shows "queues_inv n (begin_Trigger u i task s) \<and> signal_inv n (begin_Trigger u i task s)"
proof
  have n: "i < n" using assms(2,4) by (simp add: signal_inv_def)
  have q: "queue_inv n (\<lambda>j. ws_trig s ! j = TEnq u) (\<exists>k. ws_pol s = PDeq u k) (ws_ran s u) (ws_q s u)"
    using assms(1) by (simp add: queues_inv_def)
  show "queues_inv n (begin_Trigger u i task s)"
    by (rule queues_inv_trigger [OF assms(1,4), where t = "TEnq u" and u = u])
      (use queue_inv_call_Enqueue [OF q assms(3) n] assms(5) in \<open>simp_all add: begin_Trigger_def\<close>)
  have "notifying v ((ws_trig s)[i := t]) (qs_pcs (ws_q s v))"
    if "notifying v (ws_trig s) (qs_pcs (ws_q s v))" for v t
    using notifying_update [OF that assms(4), where pc = "qs_pcs (ws_q s v) ! i" and t = t] assms(2,5) queues_inv_pcs [OF assms(1), of v]
    by (simp add: signal_inv_def notifies_def)
  moreover have "notifying v ((ws_trig s)[i := t]) ((qs_pcs (ws_q s v))[i := pc])"
    if "notifying v (ws_trig s) (qs_pcs (ws_q s v))" for v t pc
    using notifying_update [OF that assms(4), where pc = pc and t = t] assms(2,5) queues_inv_pcs [OF assms(1), of v]
    by (simp add: signal_inv_def notifies_def)
  ultimately show "signal_inv n (begin_Trigger u i task s)"
    using assms(2,5) writing_update [OF _ assms(4)]
    by (auto simp: signal_inv_def begin_Trigger_def set_pc_def)
qed

lemma inv_trigger:
  assumes "queues_inv n s" and "signal_inv n s" and "0 < i" and "i < length (ws_trig s)" and "Trigger_step i s = Some s'"
  shows "queues_inv n s' \<and> signal_inv n s'"
proof -
  have S: "length (ws_trig s) = n" "ws_wakeupCall s = 0 \<or> ws_wakeupCall s = 1"
      "ws_wakeupCall s = 1 \<Longrightarrow> ws_event s \<or> writing (ws_trig s) \<or> committed (ws_pol s)"
      "\<And>u. q_contents (qs_q (ws_q s u)) \<noteq> [] \<Longrightarrow>
         ws_event s \<or> notifying u (ws_trig s) (qs_pcs (ws_q s u)) \<or> attentive u (ws_pol s)"
    using assms(2) by (auto simp: signal_inv_def)
  have n: "i < n" using S(1) assms(4) by simp
  have P: "length (qs_pcs (ws_q s u)) = length (ws_trig s)" for u using queues_inv_pcs [OF assms(1), of u] S(1) by simp
  have q: "queue_inv n (\<lambda>j. ws_trig s ! j = TEnq u) (\<exists>k. ws_pol s = PDeq u k) (ws_ran s u) (ws_q s u)" for u
    using assms(1) by (simp add: queues_inv_def)
  have keep: "notifying v ((ws_trig s)[i := t]) (qs_pcs (ws_q s v))"
    if "notifying v (ws_trig s) (qs_pcs (ws_q s v))" "notifies v (ws_trig s ! i) (qs_pcs (ws_q s v) ! i) \<Longrightarrow> notifies v t (qs_pcs (ws_q s v) ! i)" for v t
    using notifying_update [OF that(1) assms(4) P that(2)] by simp
  consider u where "ws_trig s ! i = TEnq u" "qs_pcs (ws_q s u) ! i = EnqDone" |
      u where "ws_trig s ! i = TEnq u" "qs_pcs (ws_q s u) ! i \<noteq> EnqDone" | "ws_trig s ! i = TCas" | "ws_trig s ! i = TWrite"
    using assms(5) by (cases "ws_trig s ! i") (auto simp: Trigger_step_def)
  then show ?thesis
  proof cases
    case (1 u)
    then have s': "s' = s\<lparr>ws_q := (ws_q s)(u := set_pc i Idle (ws_q s u)), ws_trig := (ws_trig s)[i := TCas]\<rparr>"
      using assms(5) by (simp add: Trigger_step_def)
    have "queues_inv n s'"
      by (rule queues_inv_trigger [OF assms(1,4), where t = TCas and u = u])
        (use queue_inv_Enqueue_returns [OF q assms(3) n 1(2)] 1(1) in \<open>simp_all add: s'\<close>)
    moreover have "notifying v ((ws_trig s)[i := TCas]) P" if "length P = length (ws_trig s)" for v and P :: "'a pc list"
      using notifying_here [OF assms(3,4) that, where t = TCas and pc = "P ! i"] by (simp add: notifies_def)
    ultimately show ?thesis using S P writing_update [OF _ assms(4)] 1(1)
      by (auto simp: signal_inv_def s' set_pc_def)
  next
    case (2 u)
    then obtain q' pc where st: "Enqueue_step (qs_q (ws_q s u)) (qs_pcs (ws_q s u) ! i) = Some (q', pc)"
        "s' = s\<lparr>ws_q := (ws_q s)(u := q_advance (ws_q s u) i q' pc)\<rparr>"
      using assms(5) by (auto simp: Trigger_step_def split: bind_splits)
    have t: "(ws_trig s)[i := TEnq u] = ws_trig s" using 2(1) by (metis list_update_id)
    have "queues_inv n s'"
      by (rule queues_inv_trigger [OF assms(1,4), where t = "TEnq u" and u = u])
        (use queue_inv_Enqueue [OF q assms(3) n _ st(1)] 2(1) in \<open>simp_all add: st(2) t fun_upd_idem\<close>)
    moreover have c: "linked_pc (qs_pcs (ws_q s u) ! i) \<longrightarrow> linked_pc pc" "q_contents q' = q_contents (qs_q (ws_q s u)) \<or> linked_pc pc"
      using Enqueue_step_contents [OF q assms(3) n _ st(1)] 2(1) by simp_all
    have "notifying u (ws_trig s) ((qs_pcs (ws_q s u))[i := pc])"
      if "notifying u (ws_trig s) (qs_pcs (ws_q s u)) \<or> linked_pc pc"
      using that notifying_update [OF _ assms(4) P, where t = "TEnq u" and pc = pc] notifying_here [OF assms(3,4) P, where t = "TEnq u" and pc = pc] c(1) 2(1)
      unfolding t by (auto simp: notifies_def)
    then have "q_contents q' \<noteq> [] \<Longrightarrow>
        ws_event s \<or> notifying u (ws_trig s) ((qs_pcs (ws_q s u))[i := pc]) \<or> attentive u (ws_pol s)"
      using S(4) [of u] c(2) by metis
    ultimately show ?thesis using S by (auto simp: signal_inv_def st(2) q_advance_def)
  next
    case 3
    then have s': "s' = (if ws_wakeupCall s = 0 then s\<lparr>ws_wakeupCall := 1, ws_trig := (ws_trig s)[i := TWrite]\<rparr>
        else s\<lparr>ws_trig := (ws_trig s)[i := TIdle]\<rparr>)"
      using assms(5) by (simp add: Trigger_step_def)
    have "queues_inv n s'"
      by (rule queues_inv_trigger [OF assms(1,4), where t = "if ws_wakeupCall s = 0 then TWrite else TIdle" and u = True])
        (use q [of True] 3 in \<open>auto simp: s' fun_upd_idem\<close>)
    moreover have "notifying v ((ws_trig s)[i := TWrite]) (qs_pcs (ws_q s v))" for v
      using notifying_here [OF assms(3,4) P [of v], where t = TWrite and u = v and pc = "qs_pcs (ws_q s v) ! i"] by (simp add: notifies_def)
    moreover have "writing ((ws_trig s)[i := TWrite])" using assms(3,4) by (auto simp: writing_def)
    moreover have "notifying v ((ws_trig s)[i := TIdle]) (qs_pcs (ws_q s v))" if "writing (ws_trig s)" for v
      using writing_update [OF that assms(4), of TIdle] 3 by (fastforce simp: writing_def notifying_def notifies_def)
    moreover have "attentive v (ws_pol s)" if "committed (ws_pol s)" for v using that by (cases "ws_pol s") auto
    ultimately show ?thesis using S writing_update [OF _ assms(4), of TIdle] 3 by (auto simp: signal_inv_def s')
  next
    case 4
    then have s': "s' = s\<lparr>ws_event := True, ws_trig := (ws_trig s)[i := TIdle]\<rparr>"
      using assms(5) by (simp add: Trigger_step_def)
    have "queues_inv n s'"
      by (rule queues_inv_trigger [OF assms(1,4), where t = TIdle and u = True])
        (use q [of True] 4 in \<open>auto simp: s' fun_upd_idem\<close>)
    then show ?thesis using S by (auto simp: signal_inv_def s')
  qed
qed

text \<open>The loop is in no \<open>Dequeue\<close>: what the queues satisfy then, and from there into one.\<close>

definition queues_free :: "nat \<Rightarrow> 'a wsys \<Rightarrow> bool" where
  "queues_free n s \<longleftrightarrow> (\<forall>u. queue_inv n (\<lambda>i. ws_trig s ! i = TEnq u) False (ws_ran s u) (ws_q s u))"

lemma queues_free_iff: "\<forall>u k. ws_pol s \<noteq> PDeq u k \<Longrightarrow> queues_inv n s = queues_free n s"
  by (simp add: queues_inv_def queues_free_def)

lemma queues_free_cong:
  "ws_trig s' = ws_trig s \<Longrightarrow> ws_ran s' = ws_ran s \<Longrightarrow> ws_q s' = ws_q s \<Longrightarrow> queues_free n s' = queues_free n s"
  by (simp add: queues_free_def)

lemma queues_inv_begin:
  assumes "queues_free n s"
  shows "queues_inv n (begin_Dequeue u k s)"
proof -
  have q: "queue_inv n (\<lambda>i. ws_trig s ! i = TEnq v) False (ws_ran s v) (ws_q s v)" for v
    using assms by (simp add: queues_free_def)
  show ?thesis using q queue_inv_call_Dequeue [OF q [of u]] by (simp add: queues_inv_def begin_Dequeue_def)
qed

lemma queues_inv_async:
  assumes "queues_free n s"
  shows "queues_inv n (async_loop k s)"
  using queues_inv_begin [OF assms] assms by (auto simp: async_loop_def queues_inv_def queues_free_def)

text \<open>While the loop attends to both queues, the signal part needs nothing of the queues.\<close>

lemma signal_inv_attentive:
  assumes "signal_inv n s" and "ws_trig s' = ws_trig s" and "ws_wakeupCall s' = ws_wakeupCall s"
    and "committed (ws_pol s')"
  shows "signal_inv n s'"
proof -
  have "attentive u (ws_pol s')" for u using assms(4) by (cases "ws_pol s'") auto
  then show ?thesis using assms by (simp add: signal_inv_def)
qed

lemma begin_fields [simp]:
  "ws_trig (begin_Dequeue u k s) = ws_trig s" "ws_wakeupCall (begin_Dequeue u k s) = ws_wakeupCall s"
  "committed (ws_pol (begin_Dequeue u k s))"
  "ws_trig (async_loop k s) = ws_trig s" "ws_wakeupCall (async_loop k s) = ws_wakeupCall s"
  "committed (ws_pol (async_loop k s))"
  by (simp_all add: begin_Dequeue_def async_loop_def)

lemma inv_dequeue:
  assumes "queues_inv n s" and "signal_inv n s" and "ws_pol s = PDeq u k" and "Polling_step s = Some s'"
  shows "queues_inv n s' \<and> signal_inv n s'"
proof -
  let ?Q = "ws_q s u" and ?e = "\<lambda>i. ws_trig s ! i = TEnq u"
  have q: "queue_inv n ?e True (ws_ran s u) ?Q"
    using assms(1) [unfolded queues_inv_def, rule_format, of u] assms(3) by simp
  have o: "queue_inv n (\<lambda>i. ws_trig s ! i = TEnq v) False (ws_ran s v) (ws_q s v)" if "v \<noteq> u" for v
    using assms(1) [unfolded queues_inv_def, rule_format, of v] assms(3) that by simp
  show ?thesis
  proof (cases "Dequeue_result (qs_pcs ?Q ! 0)")
    case None
    then obtain q' pc where st: "Dequeue_step (qs_q ?Q) (qs_pcs ?Q ! 0) = Some (q', pc)"
        "s' = s\<lparr>ws_q := (ws_q s)(u := q_advance ?Q 0 q' pc)\<rparr>"
      using assms(3,4) by (auto simp: Polling_step_def Let_def split: bind_splits)
    have "queues_inv n s'" using queue_inv_Dequeue [OF q st(1)] o by (auto simp: queues_inv_def st(2) assms(3))
    then show ?thesis using signal_inv_attentive [OF assms(2), of s'] by (simp add: st(2) assms(3))
  next
    case (Some r)
    note ret = queue_inv_Dequeue_returns [OF q Some]
    show ?thesis
    proof (cases r)
      case None
      let ?s = "s\<lparr>ws_q := (ws_q s)(u := set_pc 0 Idle ?Q), ws_pol := PStore\<rparr>"
      have s': "s' = (if u then async_loop 0 ?s else ?s)"
        using assms(3,4) Some None by (simp add: Polling_step_def Let_def)
      have f: "queues_free n ?s" using ret o by (auto simp: queues_free_def None)
      then have "queues_inv n ?s" by (simp add: queues_free_iff)
      then have "queues_inv n s'" using queues_inv_async [OF f, of 0] unfolding s' by (cases u) (simp_all only: if_True if_False)
      then show ?thesis using signal_inv_attentive [OF assms(2), of s'] by (simp add: s')
    next
      case (Some task)
      then have s': "s' = s\<lparr>ws_q := (ws_q s)(u := set_pc 0 Idle ?Q), ws_ran := (ws_ran s)(u := ws_ran s u @ [task]), ws_pol := PRun u k\<rparr>"
        using assms(3,4) \<open>Dequeue_result (qs_pcs ?Q ! 0) = Some r\<close> by (simp add: Polling_step_def Let_def)
      have "queues_inv n s'" using ret o by (auto simp: queues_inv_def s' Some)
      then show ?thesis using signal_inv_attentive [OF assms(2), of s'] by (simp add: s')
    qed
  qed
qed

lemma inv_polling:
  assumes "queues_inv n s" and "signal_inv n s" and "Polling_step s = Some s'"
    and "\<And>u. length (q_contents (qs_q (ws_q s u))) < 2 ^ 32"
  shows "queues_inv n s' \<and> signal_inv n s'"
proof (cases "\<exists>u k. ws_pol s = PDeq u k")
  case True
  then show ?thesis using inv_dequeue [OF assms(1,2) _ assms(3)] by blast
next
  case False
  then have f: "queues_free n s" using assms(1) queues_free_iff by blast
  have free: "queues_inv n s'" if "\<forall>u k. ws_pol s' \<noteq> PDeq u k" "ws_trig s' = ws_trig s" "ws_ran s' = ws_ran s" "ws_q s' = ws_q s"
    using f queues_free_iff [OF that(1)] queues_free_cong [OF that(2-4)] by blast
  note S = assms(2) [unfolded signal_inv_def]
  note same = signal_inv_attentive [OF assms(2), of s']
  show ?thesis
  proof (cases "ws_pol s")
    case PWait
    then have "s' = s\<lparr>ws_pol := PRead\<rparr>" using assms(3) by (simp add: Polling_step_def split: if_splits)
    then show ?thesis using free same by simp
  next
    case PRead
    then have "s' = begin_Dequeue True 0 (s\<lparr>ws_event := False\<rparr>)" using assms(3) by (simp add: Polling_step_def)
    moreover have "queues_free n (s\<lparr>ws_event := False\<rparr>)" using f by (simp add: queues_free_def)
    ultimately show ?thesis using same queues_inv_begin by simp
  next
    case (PRun u k)
    then have "s' = (if u then begin_Dequeue True 0 s else async_loop (k + 1) s)" using assms(3) by (simp add: Polling_step_def)
    then show ?thesis using same queues_inv_begin [OF f] queues_inv_async [OF f] by simp
  next
    case PStore
    then have s': "s' = s\<lparr>ws_wakeupCall := 0, ws_pol := PCheck False\<rparr>" using assms(3) by (simp add: Polling_step_def)
    then have "signal_inv n s'" using S by (simp add: signal_inv_def)
    then show ?thesis using free by (simp add: s')
  next
    case (PCheck u)
    then have s': "s' = s\<lparr>ws_pol := if \<not> q_IsEmpty (qs_q (ws_q s u)) then PCas else if u then PWait else PCheck True\<rparr>"
      using assms(3) by (simp add: Polling_step_def)
    have e: "notifying u (ws_trig s) (qs_pcs (ws_q s u))"
      if "q_IsEmpty (qs_q (ws_q s u))" "q_contents (qs_q (ws_q s u)) \<noteq> []"
      using looks_empty [OF _ assms(4) that, where T = "ws_trig s" and u = u] f S by (auto simp: queues_free_def)
    have "signal_inv n s'" using S e unfolding signal_inv_def
      by (cases u) (auto simp: s' PCheck)
    then show ?thesis using free by (simp add: s')
  next
    case PCas
    then have "s' = (if ws_wakeupCall s = 0 then s\<lparr>ws_wakeupCall := 1, ws_pol := PWrite\<rparr> else s\<lparr>ws_pol := PWait\<rparr>)"
      using assms(3) by (simp add: Polling_step_def)
    moreover have "notifying v (ws_trig s) (qs_pcs (ws_q s v))" if "writing (ws_trig s)" for v
      using that by (force simp: writing_def notifying_def notifies_def)
    ultimately show ?thesis using free S by (auto simp: signal_inv_def PCas)
  next
    case PWrite
    then have s': "s' = s\<lparr>ws_event := True, ws_pol := PWait\<rparr>" using assms(3) by (simp add: Polling_step_def)
    then have "signal_inv n s'" using S by (simp add: signal_inv_def)
    then show ?thesis using free by (simp add: s')
  qed (use False in auto)
qed

section \<open>Every task once\<close>

text \<open>The task a goroutine is about to put into the queue.\<close>

definition pending_task :: "'a lockFreeQueue \<Rightarrow> 'a pc \<Rightarrow> 'a option multiset" where
  "pending_task q pc =
     (case pc of EnqNew task \<Rightarrow> {#task#}
      | _ \<Rightarrow> (case own_node pc of Some n \<Rightarrow> {#nd_value (q_heap q ! n)#} | None \<Rightarrow> {#}))"

definition called_inv :: "'a list \<Rightarrow> 'a qsys \<Rightarrow> bool" where
  "called_inv called Q \<longleftrightarrow>
     image_mset Some (mset called) = mset (qs_enqd Q) + sum_list (map (pending_task (qs_q Q)) (qs_pcs Q))"

lemma sum_mset_update:
  "i < length xs \<Longrightarrow> sum_list (map f (xs[i := x])) + f (xs ! i) = sum_list (map f xs) + (f x :: 'b multiset)"
  by (induction xs arbitrary: i) (auto simp: nth_Cons ac_simps split: nat.splits)

lemma Enqueue_step_values:
  assumes "Enqueue_step q pc = Some (q', pc')" and "n < length (q_heap q)"
  shows "nd_value (q_heap q' ! n) = nd_value (q_heap q ! n)"
  using assms
  by (cases pc) (auto simp: cas_tail_def cas_next_def q_node_def nth_append nth_list_update split: bind_splits if_splits prod.splits)

lemma Enqueue_step_pending:
  assumes "Enqueue_step q pc = Some (q', pc')" and "\<And>n. own_node pc = Some n \<Longrightarrow> n < length (q_heap q)"
  shows "pending_task q' pc' + mset (log_enq q pc pc') = pending_task q pc"
  using assms Enqueue_step_values [OF assms(1)]
  by (cases pc) (auto simp: pending_task_def split: bind_splits option.splits if_splits prod.splits)

lemma Dequeue_step_pending:
  assumes "Dequeue_step q pc = Some (q', pc')"
  shows "pending_task q' x = pending_task q x" and "pending_task q' pc' = {#}" and "pending_task q pc = {#}"
proof -
  have "q_heap q' = q_heap q"
    using assms by (cases pc) (auto simp: cas_tail_def cas_head_def split: bind_splits option.splits if_splits prod.splits)
  then show "pending_task q' x = pending_task q x" by (cases x) (simp_all add: pending_task_def)
  show "pending_task q' pc' = {#}" "pending_task q pc = {#}"
    using assms by (cases pc; auto simp: pending_task_def split: bind_splits option.splits if_splits prod.splits)+
qed

lemma pending_simps [simp]:
  "pending_task q Idle = {#}" "pending_task q EnqDone = {#}" "pending_task q DeqHead = {#}"
  "pending_task q (EnqNew task) = {#task#}" "Dequeue_result pc = Some r \<Longrightarrow> pending_task q pc = {#}"
  by (simp_all add: pending_task_def) (cases pc; simp)

lemma called_inv_set_pc:
  assumes "called_inv called Q" and "i < length (qs_pcs Q)"
    and "pending_task (qs_q Q) (qs_pcs Q ! i) = {#}" and "pending_task (qs_q Q) pc = image_mset Some (mset new)"
  shows "called_inv (called @ new) (set_pc i pc Q)"
proof -
  have "sum_list (map (pending_task (qs_q Q)) ((qs_pcs Q)[i := pc])) =
      sum_list (map (pending_task (qs_q Q)) (qs_pcs Q)) + image_mset Some (mset new)"
    using sum_mset_update [OF assms(2), of "pending_task (qs_q Q)" pc] assms(3,4) by simp
  then show ?thesis using assms(1) by (simp add: called_inv_def set_pc_def)
qed

lemma called_inv_idle:
  assumes "called_inv called Q" and "i < length (qs_pcs Q)"
    and "pending_task (qs_q Q) (qs_pcs Q ! i) = {#}" and "pending_task (qs_q Q) pc = {#}"
  shows "called_inv called (set_pc i pc Q)" and "called_inv called ((set_pc i pc Q)\<lparr>qs_saw := x\<rparr>)"
  using called_inv_set_pc [OF assms(1-3), of pc "[]"] assms(4) by (simp_all add: called_inv_def)

lemma mset_move:
  assumes "A + p = B + c" and "c + l = p"
  shows "A + l = (B :: 'b multiset)"
proof -
  have "(A + l) + c = A + (c + l)" by (simp add: ac_simps)
  also have "\<dots> = B + c" using assms by simp
  finally show ?thesis by simp
qed

lemma called_inv_Enqueue:
  assumes "called_inv called Q" and "queue_inv n e d tasks Q" and "i < n" and "Enqueue_step (qs_q Q) (qs_pcs Q ! i) = Some (q, pc)"
  shows "called_inv called (q_advance Q i q pc)"
proof -
  have l: "length (qs_pcs Q) = n" by (rule queue_invD(4) [OF assms(2)])
  have same: "pending_task q (qs_pcs Q ! j) = pending_task (qs_q Q) (qs_pcs Q ! j)" if "j < n" for j
    using queue_inv_own [OF assms(2) that] Enqueue_step_values [OF assms(4)]
    by (cases "qs_pcs Q ! j") (simp_all add: pending_task_def)
  then have "map (pending_task q) (qs_pcs Q) = map (pending_task (qs_q Q)) (qs_pcs Q)"
    using l by (intro nth_equalityI) simp_all
  moreover have "sum_list (map (pending_task q) ((qs_pcs Q)[i := pc])) + pending_task q (qs_pcs Q ! i) =
      sum_list (map (pending_task q) (qs_pcs Q)) + pending_task q pc"
    using sum_mset_update [of i "qs_pcs Q" "pending_task q" pc] l assms(3) by simp
  moreover have "pending_task q pc + mset (log_enq (qs_q Q) (qs_pcs Q ! i) pc) = pending_task q (qs_pcs Q ! i)"
    using Enqueue_step_pending [OF assms(4)] queue_inv_own [OF assms(2,3)] same [OF assms(3)] by metis
  ultimately have "sum_list (map (pending_task q) ((qs_pcs Q)[i := pc])) + mset (log_enq (qs_q Q) (qs_pcs Q ! i) pc) =
      sum_list (map (pending_task (qs_q Q)) (qs_pcs Q))"
    using mset_move by metis
  then show ?thesis using assms(1) by (simp add: called_inv_def q_advance_def ac_simps)
qed

lemma called_inv_Dequeue:
  assumes "called_inv called Q" and "0 < length (qs_pcs Q)" and "Dequeue_step (qs_q Q) (qs_pcs Q ! 0) = Some (q, pc)"
  shows "called_inv called (q_advance Q 0 q pc)"
proof -
  note d = Dequeue_step_pending [OF assms(3)]
  have f: "pending_task q = pending_task (qs_q Q)" using d(1) by blast
  have "sum_list (map (pending_task q) ((qs_pcs Q)[0 := pc])) = sum_list (map (pending_task (qs_q Q)) (qs_pcs Q))"
    using sum_mset_update [OF assms(2), of "pending_task q" pc] d(2,3) f by simp
  then show ?thesis using assms(1) log_enq_steps(1) [OF assms(3)] by (simp add: called_inv_def q_advance_def)
qed

definition tasks_inv :: "'a wsys \<Rightarrow> bool" where
  "tasks_inv s \<longleftrightarrow> (\<forall>u. called_inv (ws_called s u) (ws_q s u))"

lemma tasks_inv_update:
  assumes "tasks_inv s" and "ws_called s' = (ws_called s)(u := ws_called s u @ new)"
    and "ws_q s' = (ws_q s)(u := Q)" and "called_inv (ws_called s u @ new) Q"
  shows "tasks_inv s'"
  using assms by (simp add: tasks_inv_def)

lemma tasks_call:
  assumes "queues_inv n s" and "tasks_inv s" and "i < n" and "0 < i" and "ws_trig s ! i = TIdle"
  shows "tasks_inv (begin_Trigger u i task s)"
proof (rule tasks_inv_update [OF assms(2), where u = u and new = "[task]"])
  have q: "queue_inv n (\<lambda>j. ws_trig s ! j = TEnq u) (\<exists>k. ws_pol s = PDeq u k) (ws_ran s u) (ws_q s u)"
    using assms(1) by (simp add: queues_inv_def)
  have "qs_pcs (ws_q s u) ! i = Idle" using queue_invD(5) [OF q assms(4,3)] assms(5) by simp
  moreover have "called_inv (ws_called s u) (ws_q s u)" using assms(2) by (simp add: tasks_inv_def)
  ultimately show "called_inv (ws_called s u @ [task]) (set_pc i (EnqNew (Some task)) (ws_q s u))"
    using queue_invD(4) [OF q] assms(3) by (intro called_inv_set_pc) simp_all
qed (simp_all add: begin_Trigger_def)

lemma tasks_trigger:
  assumes "queues_inv n s" and "tasks_inv s" and "i < n" and "Trigger_step i s = Some s'"
  shows "tasks_inv s'"
proof -
  have q: "queue_inv n (\<lambda>j. ws_trig s ! j = TEnq u) (\<exists>k. ws_pol s = PDeq u k) (ws_ran s u) (ws_q s u)" for u
    using assms(1) by (simp add: queues_inv_def)
  have c: "called_inv (ws_called s u) (ws_q s u)" for u using assms(2) by (simp add: tasks_inv_def)
  have idle: "called_inv (ws_called s u) (set_pc i Idle (ws_q s u))" if "qs_pcs (ws_q s u) ! i = EnqDone" for u
    using called_inv_idle(1) [OF c, of i u Idle] that queue_invD(4) [OF q] assms(3) by simp
  show ?thesis using assms(2,4) idle called_inv_Enqueue [OF c q assms(3)]
    by (auto simp: Trigger_step_def tasks_inv_def split: trig_pc.splits if_splits bind_splits)
qed

lemma tasks_begin:
  assumes "tasks_inv s" and "qs_pcs (ws_q s u) ! 0 = Idle" and "0 < length (qs_pcs (ws_q s u))"
  shows "tasks_inv (begin_Dequeue u k s)"
  using assms called_inv_idle(2) [OF _ assms(3), of "ws_called s u" DeqHead] by (auto simp: tasks_inv_def begin_Dequeue_def)

lemma tasks_async:
  assumes "tasks_inv s" and "qs_pcs (ws_q s False) ! 0 = Idle" and "0 < length (qs_pcs (ws_q s False))"
  shows "tasks_inv (async_loop k s)"
  using tasks_begin [OF assms] assms(1) by (auto simp: async_loop_def tasks_inv_def)

lemma tasks_polling:
  assumes "queues_inv n s" and "tasks_inv s" and "Polling_step s = Some s'"
  shows "tasks_inv s'"
proof -
  have q: "queue_inv n (\<lambda>j. ws_trig s ! j = TEnq u) (\<exists>k. ws_pol s = PDeq u k) (ws_ran s u) (ws_q s u)" for u
    using assms(1) by (simp add: queues_inv_def)
  have c: "called_inv (ws_called s u) (ws_q s u)" for u using assms(2) by (simp add: tasks_inv_def)
  have l: "0 < length (qs_pcs (ws_q s u))" for u using queues_inv_pcs [OF assms(1)] by simp
  have idle: "qs_pcs (ws_q s u) ! 0 = Idle" if "\<forall>k. ws_pol s \<noteq> PDeq u k" for u
    using queue_invD(6) [OF q [of u]] that by simp
  have same: "tasks_inv t" if "ws_q t = ws_q s" "ws_called t = ws_called s" for t
    using that assms(2) by (simp add: tasks_inv_def)
  show ?thesis
  proof (cases "ws_pol s")
    case (PDeq u k)
    let ?Q = "ws_q s u"
    show ?thesis
    proof (cases "Dequeue_result (qs_pcs ?Q ! 0)")
      case None
      then show ?thesis using assms(2,3) PDeq called_inv_Dequeue [OF c l]
        by (auto simp: Polling_step_def tasks_inv_def Let_def split: bind_splits)
    next
      case (Some r)
      then have i: "called_inv (ws_called s u) (set_pc 0 Idle ?Q)"
        using called_inv_idle(1) [OF c l, where u1 = u and pc = Idle] by simp
      have t: "tasks_inv t" if "ws_q t = (ws_q s)(u := set_pc 0 Idle ?Q)" "ws_called t = ws_called s" for t
        using that assms(2) i by (simp add: tasks_inv_def)
      let ?s = "s\<lparr>ws_q := (ws_q s)(u := set_pc 0 Idle ?Q), ws_pol := PStore\<rparr>"
      have "u \<Longrightarrow> tasks_inv (async_loop 0 ?s)" using tasks_async [OF t, of ?s 0] idle [of False] l PDeq by simp
      then show ?thesis using assms(3) PDeq Some t [of s']
        by (cases r; cases u) (auto simp: Polling_step_def Let_def)
    qed
  next
    case (PRun u k)
    then show ?thesis using assms(3) tasks_begin [OF assms(2)] tasks_async [OF assms(2)] idle l
      by (auto simp: Polling_step_def split: if_splits)
  next
    case PRead
    then show ?thesis using assms(3) tasks_begin [OF same] idle l by (auto simp: Polling_step_def)
  qed (use assms(3) same in \<open>auto simp: Polling_step_def split: if_splits\<close>)
qed

section \<open>Reachable states\<close>

lemma sum_replicate: "sum_list (replicate k {#}) = {#}"
  by (induction k) simp_all

lemma w_reach_inv:
  fixes s :: "'a wsys"
  assumes "w_reach n s" and "0 < n"
  shows "queues_inv n s \<and> signal_inv n s \<and> tasks_inv s \<and> (\<forall>u. length (q_contents (qs_q (ws_q s u))) < 2 ^ 32)"
  using assms(1)
proof induction
  case start
  have "sum_list (map (pending_task q) (replicate n Idle)) = {#}" for q :: "'a lockFreeQueue" by (simp add: sum_replicate)
  moreover have "queue_inv n (\<lambda>i. replicate n TIdle ! i = TEnq u) False [] (q_start n :: 'a qsys)" for u
    by (rule queue_inv_start [OF assms(2)]) simp
  moreover have "qs_q (q_start n :: 'a qsys) = NewLockFreeQueue" "q_contents (NewLockFreeQueue :: 'a lockFreeQueue) = []"
      "qs_enqd (q_start n :: 'a qsys) = []" "qs_pcs (q_start n :: 'a qsys) = replicate n Idle"
    by (simp_all add: q_start_def NewLockFreeQueue_def q_contents_def)
  ultimately show ?case by (simp add: w_start_def queues_inv_def signal_inv_def tasks_inv_def called_inv_def)
next
  case (more s s')
  then have I: "queues_inv n s" "signal_inv n s" "tasks_inv s" "\<And>u. length (q_contents (qs_q (ws_q s u))) < 2 ^ 32" by auto
  have n: "length (ws_trig s) = n" using I(2) by (simp add: signal_inv_def)
  from \<open>w_step s s'\<close> have "queues_inv n s' \<and> signal_inv n s' \<and> tasks_inv s'"
  proof cases
    case (call i u task)
    then show ?thesis using inv_call [OF I(1,2)] tasks_call [OF I(1,3)] n by simp
  next
    case (trigger i)
    then show ?thesis using inv_trigger [OF I(1,2)] tasks_trigger [OF I(1,3)] n by simp
  next
    case polling
    then show ?thesis using inv_polling [OF I(1,2) _ I(4)] tasks_polling [OF I(1,3)] by simp
  qed
  then show ?case using more.hyps(3) by blast
qed

lemma w_reach_order:
  fixes s :: "'a wsys"
  assumes "w_reach n s" and "0 < n"
  shows "map Some (ws_ran s u) @ taken (qs_pcs (ws_q s u) ! 0) @ q_contents (qs_q (ws_q s u)) = qs_enqd (ws_q s u)"
proof -
  have q: "queue_inv n (\<lambda>j. ws_trig s ! j = TEnq u) (\<exists>k. ws_pol s = PDeq u k) (ws_ran s u) (ws_q s u)"
    using w_reach_inv [OF assms] by (simp add: queues_inv_def)
  show ?thesis using q_reach_fifo [OF queue_invD(2) [OF q]] queue_invD(7) [OF q] by simp
qed

text \<open>
  C13: tasks are run in order and at most once. In every state that any interleaving of triggers
  and the event loop reaches, for each of the two queues, the tasks run, the one the loop has
  taken but not started, and the tasks queued are, in this order, the tasks the triggers have
  put in; and no task was run more often than it was triggered.
\<close>

theorem triggered_tasks_in_order:
  fixes s :: "'a wsys"
  assumes "w_reach n s" and "0 < n"
  shows "map Some (ws_ran s u) @ taken (qs_pcs (ws_q s u) ! 0) @ q_contents (qs_q (ws_q s u)) = qs_enqd (ws_q s u) \<and>
    mset (ws_ran s u) \<subseteq># mset (ws_called s u)"
proof -
  have c: "image_mset Some (mset (ws_called s u)) = mset (qs_enqd (ws_q s u)) +
      sum_list (map (pending_task (qs_q (ws_q s u))) (qs_pcs (ws_q s u)))"
    using w_reach_inv [OF assms] by (simp add: tasks_inv_def called_inv_def)
  have "mset (map Some (ws_ran s u)) \<subseteq># mset (qs_enqd (ws_q s u))"
    unfolding w_reach_order [OF assms, of u, symmetric] by (simp add: mset_append)
  then have "image_mset Some (mset (ws_ran s u)) \<subseteq># image_mset Some (mset (ws_called s u))"
    unfolding c by (simp add: subset_mset.add_increasing2)
  then have "image_mset the (image_mset Some (mset (ws_ran s u))) \<subseteq># image_mset the (image_mset Some (mset (ws_called s u)))"
    by (rule image_mset_subseteq_mono)
  then show ?thesis using w_reach_order [OF assms] by (simp add: multiset.map_comp comp_def)
qed

text \<open>Who can move.\<close>

lemma Trigger_step_stuck:
  fixes s :: "'a wsys"
  assumes "w_reach n s" and "0 < n" and "0 < i" and "i < n" and "Trigger_step i s = None"
  shows "ws_trig s ! i = TIdle"
proof (cases "ws_trig s ! i")
  case (TEnq u)
  have q: "queue_inv n (\<lambda>j. ws_trig s ! j = TEnq u) (\<exists>k. ws_pol s = PDeq u k) (ws_ran s u) (ws_q s u)"
    using w_reach_inv [OF assms(1,2)] by (simp add: queues_inv_def)
  have "in_Enqueue (qs_pcs (ws_q s u) ! i)"
    using queue_invD(5) [OF q assms(3,4)] TEnq assms(5) by (auto simp: Trigger_step_def)
  then obtain r where "Enqueue_step (qs_q (ws_q s u)) (qs_pcs (ws_q s u) ! i) = Some r"
    using steps_defined [OF queue_invD(2) [OF q] assms(4)] by blast
  then show ?thesis using TEnq assms(5) by (cases r) (simp add: Trigger_step_def split: if_splits)
qed (use assms(5) in \<open>simp_all add: Trigger_step_def\<close>)

lemma Polling_step_stuck:
  fixes s :: "'a wsys"
  assumes "w_reach n s" and "0 < n" and "Polling_step s = None"
  shows "ws_pol s = PWait \<and> \<not> ws_event s"
proof (cases "ws_pol s")
  case (PDeq u k)
  have q: "queue_inv n (\<lambda>j. ws_trig s ! j = TEnq u) (\<exists>k. ws_pol s = PDeq u k) (ws_ran s u) (ws_q s u)"
    using w_reach_inv [OF assms(1,2)] by (simp add: queues_inv_def)
  have "Dequeue_result (qs_pcs (ws_q s u) ! 0) = None"
    using assms(3) PDeq by (auto simp: Polling_step_def Let_def split: option.splits if_splits)
  then have "in_Dequeue (qs_pcs (ws_q s u) ! 0)" using queue_invD(6) [OF q] PDeq by simp
  then obtain r where "Dequeue_step (qs_q (ws_q s u)) (qs_pcs (ws_q s u) ! 0) = Some r"
    using steps_defined [OF queue_invD(2) [OF q] assms(2)] by blast
  then show ?thesis using assms(3) PDeq \<open>Dequeue_result _ = None\<close> by (cases r) (simp add: Polling_step_def Let_def)
qed (use assms(3) in \<open>auto simp: Polling_step_def split: if_splits\<close>)

text \<open>
  C5: no wake-up is lost. Consider any number of goroutines that call \<open>Trigger\<close> and
  \<open>UrgentTrigger\<close> and the event loop, interleaved at every atomic access of the queues, the
  flag and the event descriptor, whose writes work. If a reachable state is one in which nobody can move (the loop
  sleeps with no event pending and no trigger is in progress), then both queues are empty and
  the tasks run are exactly the tasks triggered, each as often as it was triggered, and in the
  order in which they were put into their queue. So a task is never left behind in a queue
  while the loop sleeps.
\<close>

theorem no_lost_wakeup:
  fixes s :: "'a wsys"
  assumes "w_reach n s" and "0 < n"
    and "\<forall>i. 0 < i \<and> i < n \<longrightarrow> Trigger_step i s = None" and "Polling_step s = None"
  shows "q_contents (qs_q (ws_q s u)) = [] \<and> qs_enqd (ws_q s u) = map Some (ws_ran s u) \<and>
    mset (ws_ran s u) = mset (ws_called s u)"
proof -
  have I: "queues_inv n s" "signal_inv n s" "tasks_inv s" using w_reach_inv [OF assms(1,2)] by blast+
  have q: "queue_inv n (\<lambda>j. ws_trig s ! j = TEnq u) (\<exists>k. ws_pol s = PDeq u k) (ws_ran s u) (ws_q s u)"
    using I(1) by (simp add: queues_inv_def)
  have t: "ws_trig s ! i = TIdle" if "0 < i" "i < n" for i
    by (rule Trigger_step_stuck [OF assms(1,2) that]) (rule assms(3) [rule_format, OF conjI [OF that]])
  have p: "ws_pol s = PWait" "\<not> ws_event s" using Polling_step_stuck [OF assms(1,2,4)] by auto
  have pcs: "qs_pcs (ws_q s u) ! i = Idle" if "i < n" for i
  proof (cases "i = 0")
    case True
    then show ?thesis using queue_invD(6) [OF q] p(1) by simp
  next
    case False
    then have "0 < i" by simp
    then show ?thesis using queue_invD(5) [OF q _ that] t [OF _ that] by simp
  qed
  have "\<not> notifying u (ws_trig s) (qs_pcs (ws_q s u))"
    using t I(2) by (auto simp: notifying_def notifies_def signal_inv_def)
  then have e: "q_contents (qs_q (ws_q s u)) = []" using I(2) p by (auto simp: signal_inv_def)
  moreover have enqd: "qs_enqd (ws_q s u) = map Some (ws_ran s u)"
    using w_reach_order [OF assms(1,2), of u] e pcs [OF assms(2)] by simp
  moreover have "mset (ws_ran s u) = mset (ws_called s u)"
  proof -
    have "map (pending_task (qs_q (ws_q s u))) (qs_pcs (ws_q s u)) = replicate n {#}"
      using pcs queue_invD(4) [OF q] by (intro nth_equalityI) simp_all
    then have "sum_list (map (pending_task (qs_q (ws_q s u))) (qs_pcs (ws_q s u))) = {#}"
      by (simp only: sum_replicate)
    then have "image_mset Some (mset (ws_called s u)) = image_mset Some (mset (ws_ran s u))"
      using I(3) enqd by (simp add: tasks_inv_def called_inv_def)
    then have "image_mset the (image_mset Some (mset (ws_called s u))) = image_mset the (image_mset Some (mset (ws_ran s u)))"
      by (rule arg_cong)
    then show ?thesis by (simp only: multiset.map_comp comp_def option.sel multiset.map_ident)
  qed
  ultimately show ?thesis by blast
qed

section \<open>A run\<close>

text \<open>
  A schedule is a list of calls (the queue, the goroutine, the task) and of moves of a
  goroutine; it is played while the counters are in range.
\<close>

datatype 'a move = Call bool nat 'a | Go nat

definition w_move :: "'a move \<Rightarrow> 'a wsys \<Rightarrow> 'a wsys option" where
  "w_move m s =
     (case m of
        Call u i task \<Rightarrow>
          if 0 < i \<and> i < length (ws_trig s) \<and> ws_trig s ! i = TIdle then Some (begin_Trigger u i task s) else None
      | Go i \<Rightarrow>
          if i = 0 then Polling_step s else if i < length (ws_trig s) then Trigger_step i s else None)"

fun w_play :: "'a move list \<Rightarrow> 'a wsys \<Rightarrow> 'a wsys option" where
  "w_play [] s = Some s"
| "w_play (m # ms) s =
     do {
       s \<leftarrow> w_move m s;
       if length (q_contents (qs_q (ws_q s True))) < 1000 \<and> length (q_contents (qs_q (ws_q s False))) < 1000
       then w_play ms s else None
     }"

lemma w_move_step: "w_move m s = Some s' \<Longrightarrow> w_step s s'"
  by (auto simp: w_move_def split: move.splits if_splits intro: w_step.intros)

lemma w_play_reach: "w_play ms s = Some s' \<Longrightarrow> w_reach n s \<Longrightarrow> w_reach n s'"
proof (induction ms arbitrary: s)
  case (Cons m ms)
  then obtain s1 where s1: "w_move m s = Some s1" "w_play ms s1 = Some s'"
      "length (q_contents (qs_q (ws_q s1 True))) < 1000" "length (q_contents (qs_q (ws_q s1 False))) < 1000"
    by (auto split: bind_splits if_splits)
  have "length (q_contents (qs_q (ws_q s1 u))) < 2 ^ 32" for u using s1(3,4) by (cases u) simp_all
  then show ?case using Cons s1 w_reach.more [OF Cons.prems(2) w_move_step [OF s1(1)]] by blast
qed simp

text \<open>
  Goroutine 1 triggers a task while goroutine 2 triggers an urgent one and loses the race for
  the flag; the loop wakes once, runs the urgent task first and then the other, and sleeps.
\<close>

definition wake_schedule :: "nat move list" where
  "wake_schedule = [Call False 1 7, Call True 2 8] @ replicate 10 (Go 1) @ replicate 9 (Go 2) @ replicate 33 (Go 0)"

definition all_run :: "nat wsys" where
  "all_run = the (w_play wake_schedule (w_start 3))"

lemma all_run_facts:
  "case w_play wake_schedule (w_start 3) of
     None \<Rightarrow> False
   | Some s \<Rightarrow> ws_pol s = PWait \<and> \<not> ws_event s \<and> ws_trig s = [TIdle, TIdle, TIdle] \<and> ws_ran s True = [8] \<and> ws_ran s False = [7]"
  by code_simp

lemma all_run: "w_reach 3 all_run" "ws_ran all_run True = [8]" "ws_ran all_run False = [7]"
    "\<forall>i. 0 < i \<and> i < 3 \<longrightarrow> Trigger_step i all_run = None" "Polling_step all_run = None"
proof -
  obtain s where s: "w_play wake_schedule (w_start 3) = Some s" "ws_pol s = PWait" "\<not> ws_event s"
      "ws_trig s = [TIdle, TIdle, TIdle]" "ws_ran s True = [8]" "ws_ran s False = [7]"
    using all_run_facts by (auto split: option.splits)
  have a: "all_run = s" using s(1) by (simp add: all_run_def)
  show "w_reach 3 all_run" unfolding a by (rule w_play_reach [OF s(1) w_reach.start])
  show "ws_ran all_run True = [8]" "ws_ran all_run False = [7]" using s a by simp_all
  show "Polling_step all_run = None" using s a by (simp add: Polling_step_def)
  have "ws_trig s ! i = TIdle" if "i < 3" for i using that s(4) by (cases i; cases "i - 1"; simp add: nth_Cons')
  then show "\<forall>i. 0 < i \<and> i < 3 \<longrightarrow> Trigger_step i all_run = None" using a by (simp add: Trigger_step_def)
qed

theorem triggered_tasks_in_order_witness:
  "map Some [8] @ taken (qs_pcs (ws_q all_run True) ! 0) @ q_contents (qs_q (ws_q all_run True)) = qs_enqd (ws_q all_run True)"
  using triggered_tasks_in_order [OF all_run(1), of True] all_run(2) by simp

theorem no_lost_wakeup_witness:
  "qs_enqd (ws_q all_run True) = [Some 8] \<and> qs_enqd (ws_q all_run False) = [Some 7] \<and> mset (ws_called all_run False) = {#7#}"
  using no_lost_wakeup [OF all_run(1) _ all_run(4,5), of True] no_lost_wakeup [OF all_run(1) _ all_run(4,5), of False]
  by (simp add: all_run(2,3))

end
