(* ===== verification/TaskPollerCorrect.thy ===== *)
theory TaskPollerCorrect
  imports TaskPoller TaskWakeCorrect
begin

text \<open>
  The pollers that run tasks. What they rely on of \<open>AsyncTaskQueue\<close> is a locale; the
  lock-free queue, used by one goroutine at a time, provides it. On it: what one round of
  chores runs, what a failed wake-up leads to, which descriptors \<open>OpenPoller\<close> leaves open, and
  that the kqueue pollers register the same interest as the epoll poller.
\<close>

section \<open>The interface\<close>

locale async_queue =
  fixes Q :: "('q, ('f, 'x) task) AsyncTaskQueue" and newq :: 'q and tasks :: "'q \<Rightarrow> ('f, 'x) task list" and ok :: "'q \<Rightarrow> bool" and limit :: nat
  assumes new_queue: "ok newq \<and> tasks newq = []"
    and Enqueue: "ok q \<Longrightarrow> Suc (length (tasks q)) < limit \<Longrightarrow>
      \<exists>q'. tq_Enqueue Q q t = Some q' \<and> ok q' \<and> tasks q' = tasks q @ [t]"
    and Dequeue_nil: "ok q \<Longrightarrow> tasks q = [] \<Longrightarrow> \<exists>q'. tq_Dequeue Q q = Some (None, q') \<and> ok q' \<and> tasks q' = []"
    and Dequeue_task: "ok q \<Longrightarrow> tasks q = t # ts \<Longrightarrow> \<exists>q'. tq_Dequeue Q q = Some (Some t, q') \<and> ok q' \<and> tasks q' = ts"
    and IsEmpty: "ok q \<Longrightarrow> tq_IsEmpty Q q = (tasks q = [])"

text \<open>
  Tasks that do their work in the rest of the program, leave the poller alone and do not ask
  for a shutdown; the work of a list of tasks.
\<close>

definition plain_tasks :: "('q, 'f, 'x, 'k) poll_env \<Rightarrow> ('f \<Rightarrow> 'x option \<Rightarrow> 'k \<Rightarrow> 'k) \<Rightarrow> bool" where
  "plain_tasks env effect \<longleftrightarrow>
     (\<forall>f x p. \<exists>err. pv_apply env f x p = Some (err, p\<lparr>po_k := effect f x (po_k p)\<rparr>) \<and> err \<noteq> Some ErrEngineShutdown)"

definition work :: "('f \<Rightarrow> 'x option \<Rightarrow> 'k \<Rightarrow> 'k) \<Rightarrow> ('f, 'x) task list \<Rightarrow> 'k \<Rightarrow> 'k" where
  "work effect ts k = fold (\<lambda>t k. effect (the (tk_Run t)) (tk_Arg t) k) ts k"

lemma work_simps [simp]: "work effect [] k = k" "work effect (t # ts) k = work effect ts (effect (the (tk_Run t)) (tk_Arg t) k)"
    "work effect (ts @ us) k = work effect us (work effect ts k)"
  by (simp_all add: work_def)

definition same_poller :: "('q, 'f, 'x, 'k) poller \<Rightarrow> ('q, 'f, 'x, 'k) poller \<Rightarrow> bool" where
  "same_poller p p' \<longleftrightarrow> po_fd p' = po_fd p \<and> po_epa p' = po_epa p"

context async_queue
begin

lemma run_urgent_plain:
  assumes "pv_queue env = Q" and "plain_tasks env effect" and "ok (po_urgentAsyncTaskQueue p)"
    and "tasks (po_urgentAsyncTaskQueue p) = us" and "\<forall>t \<in> set us. tk_Run t \<noteq> None"
  shows "\<exists>p'. run_urgent env p = Some (None, p') \<and> ok (po_urgentAsyncTaskQueue p') \<and> tasks (po_urgentAsyncTaskQueue p') = [] \<and>
    po_asyncTaskQueue p' = po_asyncTaskQueue p \<and> po_wakeupCall p' = po_wakeupCall p \<and> po_k p' = work effect us (po_k p) \<and>
    same_poller p p'"
  using assms(3-5)
proof (induction us arbitrary: p)
  case Nil
  then obtain q' where "tq_Dequeue Q (po_urgentAsyncTaskQueue p) = Some (None, q')" "ok q'" "tasks q' = []"
    using Dequeue_nil by blast
  then show ?case using assms(1) by (subst run_urgent.simps) (simp add: same_poller_def)
next
  case (Cons t us)
  then obtain q' where q': "tq_Dequeue Q (po_urgentAsyncTaskQueue p) = Some (Some t, q')" "ok q'" "tasks q' = us"
    using Dequeue_task by blast
  obtain f where f: "tk_Run t = Some f" using Cons.prems(3) by auto
  obtain err where a: "pv_apply env f (tk_Arg t) (p\<lparr>po_urgentAsyncTaskQueue := q'\<rparr>) =
      Some (err, p\<lparr>po_urgentAsyncTaskQueue := q', po_k := effect f (tk_Arg t) (po_k p)\<rparr>)" "err \<noteq> Some ErrEngineShutdown"
    using assms(2) [unfolded plain_tasks_def, rule_format, of f "tk_Arg t" "p\<lparr>po_urgentAsyncTaskQueue := q'\<rparr>"] by auto
  let ?p = "p\<lparr>po_urgentAsyncTaskQueue := q', po_k := effect f (tk_Arg t) (po_k p), po_taskPool := PutTask t (po_taskPool p)\<rparr>"
  have "run_urgent env p = run_urgent env ?p"
    using q'(1) a f assms(1) by (subst run_urgent.simps) (simp add: run_task_def)
  moreover have "ok (po_urgentAsyncTaskQueue ?p)" "tasks (po_urgentAsyncTaskQueue ?p) = us" using q' by simp_all
  ultimately show ?case using Cons.IH [of ?p] Cons.prems(3) f by (auto simp: same_poller_def)
qed

lemma run_async_plain:
  assumes "pv_queue env = Q" and "plain_tasks env effect" and "ok (po_asyncTaskQueue p)"
    and "tasks (po_asyncTaskQueue p) = as" and "\<forall>t \<in> set as. tk_Run t \<noteq> None"
  shows "\<exists>p'. run_async env n p = Some (None, p') \<and> ok (po_asyncTaskQueue p') \<and> tasks (po_asyncTaskQueue p') = drop n as \<and>
    po_urgentAsyncTaskQueue p' = po_urgentAsyncTaskQueue p \<and> po_wakeupCall p' = po_wakeupCall p \<and>
    po_k p' = work effect (take n as) (po_k p) \<and> same_poller p p'"
  using assms(3-5)
proof (induction n arbitrary: p as)
  case 0
  then show ?case by (simp add: same_poller_def)
next
  case (Suc n)
  show ?case
  proof (cases as)
    case Nil
    then obtain q' where "tq_Dequeue Q (po_asyncTaskQueue p) = Some (None, q')" "ok q'" "tasks q' = []"
      using Dequeue_nil Suc.prems by blast
    then show ?thesis using assms(1) Nil by (simp add: same_poller_def)
  next
    case (Cons t us)
    then obtain q' where q': "tq_Dequeue Q (po_asyncTaskQueue p) = Some (Some t, q')" "ok q'" "tasks q' = us"
      using Dequeue_task Suc.prems by blast
    obtain f where f: "tk_Run t = Some f" using Suc.prems(3) Cons by auto
    obtain err where a: "pv_apply env f (tk_Arg t) (p\<lparr>po_asyncTaskQueue := q'\<rparr>) =
        Some (err, p\<lparr>po_asyncTaskQueue := q', po_k := effect f (tk_Arg t) (po_k p)\<rparr>)" "err \<noteq> Some ErrEngineShutdown"
      using assms(2) [unfolded plain_tasks_def, rule_format, of f "tk_Arg t" "p\<lparr>po_asyncTaskQueue := q'\<rparr>"] by auto
    let ?p = "p\<lparr>po_asyncTaskQueue := q', po_k := effect f (tk_Arg t) (po_k p), po_taskPool := PutTask t (po_taskPool p)\<rparr>"
    have "run_async env (Suc n) p = run_async env n ?p"
      using q'(1) a f assms(1) by (simp add: run_task_def)
    moreover have "ok (po_asyncTaskQueue ?p)" "tasks (po_asyncTaskQueue ?p) = us" using q' by simp_all
    ultimately show ?thesis using Suc.IH [of ?p us] Suc.prems(3) f Cons by (auto simp: same_poller_def)
  qed
qed

text \<open>One block of chores: every urgent task, then some others, and a wake-up for the rest.\<close>

lemma do_chores_plain:
  assumes "pv_queue env = Q" and "plain_tasks env effect"
    and "ok (po_urgentAsyncTaskQueue p)" and "tasks (po_urgentAsyncTaskQueue p) = us"
    and "ok (po_asyncTaskQueue p)" and "tasks (po_asyncTaskQueue p) = as"
    and "\<forall>t \<in> set us \<union> set as. tk_Run t \<noteq> None"
    and "\<And>p'. same_poller p p' \<Longrightarrow> notify p' = Some (None, p'\<lparr>po_k := ring (po_k p')\<rparr>)"
  shows "\<exists>p'. do_chores env n notify p = Some (None, False, p') \<and>
    ok (po_urgentAsyncTaskQueue p') \<and> ok (po_asyncTaskQueue p') \<and> tasks (po_urgentAsyncTaskQueue p') = [] \<and> tasks (po_asyncTaskQueue p') = drop n as \<and>
    po_k p' = (if n < length as then ring else id) (work effect (us @ take n as) (po_k p)) \<and>
    po_wakeupCall p' = (if n < length as then 1 else 0) \<and> same_poller p p'"
proof -
  obtain p1 where p1: "run_urgent env p = Some (None, p1)" "ok (po_urgentAsyncTaskQueue p1)" "tasks (po_urgentAsyncTaskQueue p1) = []"
      "po_asyncTaskQueue p1 = po_asyncTaskQueue p" "po_k p1 = work effect us (po_k p)" "same_poller p p1"
    using run_urgent_plain [OF assms(1-4)] assms(7) by auto
  obtain p2 where p2: "run_async env n p1 = Some (None, p2)" "ok (po_asyncTaskQueue p2)" "tasks (po_asyncTaskQueue p2) = drop n as"
      "po_urgentAsyncTaskQueue p2 = po_urgentAsyncTaskQueue p1" "po_k p2 = work effect (take n as) (po_k p1)" "same_poller p1 p2"
    using run_async_plain [OF assms(1,2), of p1 as n] p1(4) assms(5-7) by auto
  have e: "tq_IsEmpty (pv_queue env) (po_asyncTaskQueue p2) = (length as \<le> n)" "tq_IsEmpty (pv_queue env) (po_urgentAsyncTaskQueue p2)"
    using IsEmpty [OF p2(2)] IsEmpty [OF p1(2)] p1(3) p2(3,4) assms(1) by auto
  show ?thesis
    by (cases "length as \<le> n")
      (use p1 p2 e assms(8) in \<open>auto simp: do_chores_def cas_wakeup_def same_poller_def\<close>)
qed

text \<open>A wake-up that failed: the flag stays set.\<close>

lemma Trigger_then_silent:
  assumes "pv_queue env = Q" and "ok (po_asyncTaskQueue p)" and "length (tasks (po_asyncTaskQueue p)) + 2 < limit"
    and "po_wakeupCall p = 0"
    and "\<And>p'. same_poller p p' \<Longrightarrow> notify p' = Some (Some e, p'\<lparr>po_k := broken (po_k p')\<rparr>)" and "e \<noteq> EAGAIN"
  shows "\<exists>p1 p2 t1 t2. po_Trigger env notify name fn arg p = Some (Some (SyscallError name e), p1) \<and>
    po_Trigger env notify name fn' arg' p1 = Some (None, p2) \<and> po_k p2 = po_k p1 \<and> po_wakeupCall p2 = 1 \<and>
    tasks (po_asyncTaskQueue p2) = tasks (po_asyncTaskQueue p) @ [t1, t2] \<and> tk_Run t1 = fn \<and> tk_Run t2 = fn'"
proof -
  obtain t1 pool1 where t1: "GetTask (po_taskPool p) = (t1, pool1)" by (cases "GetTask (po_taskPool p)")
  obtain t2 pool2 where t2: "GetTask pool1 = (t2, pool2)" by (cases "GetTask pool1")
  let ?t1 = "t1\<lparr>tk_Run := fn, tk_Arg := arg\<rparr>" and ?t2 = "t2\<lparr>tk_Run := fn', tk_Arg := arg'\<rparr>"
  obtain q1 where q1: "tq_Enqueue Q (po_asyncTaskQueue p) ?t1 = Some q1" "ok q1" "tasks q1 = tasks (po_asyncTaskQueue p) @ [?t1]"
    using Enqueue [OF assms(2), of ?t1] assms(3) by auto
  obtain q2 where q2: "tq_Enqueue Q q1 ?t2 = Some q2" "ok q2" "tasks q2 = tasks q1 @ [?t2]"
    using Enqueue [OF q1(2), of ?t2] assms(3) q1(3) by auto
  let ?p1 = "p\<lparr>po_taskPool := pool1, po_asyncTaskQueue := q1, po_wakeupCall := 1, po_k := broken (po_k p)\<rparr>"
  have "po_Trigger env notify name fn arg p = Some (Some (SyscallError name e), ?p1)"
    using t1 q1(1) assms(1,4-6) by (simp add: po_Trigger_def new_task_def wake_up_def cas_wakeup_def NewSyscallError_def same_poller_def)
  moreover have "po_Trigger env notify name fn' arg' ?p1 = Some (None, ?p1\<lparr>po_taskPool := pool2, po_asyncTaskQueue := q2\<rparr>)"
    using t2 q2(1) assms(1) by (simp add: po_Trigger_def new_task_def wake_up_def cas_wakeup_def NewSyscallError_def)
  ultimately show ?thesis using q1(3) q2(3) by auto
qed

text \<open>A call that triggers: the task is queued, and the flag and the descriptor are set.\<close>

lemma trigger_plain:
  assumes "pv_queue env = Q" and "ok (po_urgentAsyncTaskQueue p)" and "ok (po_asyncTaskQueue p)"
    and "Suc (length (tasks (po_urgentAsyncTaskQueue p))) < limit" and "Suc (length (tasks (po_asyncTaskQueue p))) < limit"
    and "\<And>p'. same_poller p p' \<Longrightarrow> notify p' = Some (None, p'\<lparr>po_k := ring (po_k p')\<rparr>)"
  shows "\<exists>p' t. (if u then po_UrgentTrigger else po_Trigger) env notify name fn arg p = Some (None, p') \<and>
    tk_Run t = fn \<and> tk_Arg t = arg \<and> ok (po_urgentAsyncTaskQueue p') \<and> ok (po_asyncTaskQueue p') \<and>
    tasks (po_urgentAsyncTaskQueue p') = tasks (po_urgentAsyncTaskQueue p) @ (if u then [t] else []) \<and>
    tasks (po_asyncTaskQueue p') = tasks (po_asyncTaskQueue p) @ (if u then [] else [t]) \<and>
    po_wakeupCall p' = (if po_wakeupCall p = 0 then 1 else po_wakeupCall p) \<and>
    po_k p' = (if po_wakeupCall p = 0 then ring (po_k p) else po_k p) \<and> same_poller p p'"
proof -
  obtain t1 pool where t1: "GetTask (po_taskPool p) = (t1, pool)" by (cases "GetTask (po_taskPool p)")
  let ?t = "t1\<lparr>tk_Run := fn, tk_Arg := arg\<rparr>"
  show ?thesis
  proof (cases u)
    case True
    obtain q where "tq_Enqueue Q (po_urgentAsyncTaskQueue p) ?t = Some q" "ok q" "tasks q = tasks (po_urgentAsyncTaskQueue p) @ [?t]"
      using Enqueue [OF assms(2,4), of ?t] by auto
    then show ?thesis using True t1 assms(1,3,6)
      by (intro exI [of _ "(if po_wakeupCall p = 0 then p\<lparr>po_wakeupCall := 1, po_k := ring (po_k p)\<rparr> else p)
            \<lparr>po_taskPool := pool, po_urgentAsyncTaskQueue := q\<rparr>"] exI [of _ ?t])
        (auto simp: po_UrgentTrigger_def new_task_def wake_up_def cas_wakeup_def NewSyscallError_def same_poller_def)
  next
    case False
    obtain q where "tq_Enqueue Q (po_asyncTaskQueue p) ?t = Some q" "ok q" "tasks q = tasks (po_asyncTaskQueue p) @ [?t]"
      using Enqueue [OF assms(3,5), of ?t] by auto
    then show ?thesis using False t1 assms(1,2,6)
      by (intro exI [of _ "(if po_wakeupCall p = 0 then p\<lparr>po_wakeupCall := 1, po_k := ring (po_k p)\<rparr> else p)
            \<lparr>po_taskPool := pool, po_asyncTaskQueue := q\<rparr>"] exI [of _ ?t])
        (auto simp: po_Trigger_def new_task_def wake_up_def cas_wakeup_def NewSyscallError_def same_poller_def)
  qed
qed

end

section \<open>A session of triggers and polling\<close>

text \<open>
  The kernel as the wake-up uses it: \<open>sig\<close> tells whether the event descriptor is readable; a
  write makes it so, a read ends it. Tasks log their function and argument and leave it alone.
\<close>

definition signal_laws ::
  "'k epoll_sys \<Rightarrow> int \<Rightarrow> ('f \<Rightarrow> 'x option \<Rightarrow> 'k \<Rightarrow> 'k) \<Rightarrow> ('k \<Rightarrow> bool) \<Rightarrow> ('k \<Rightarrow> ('f \<times> 'x option) list) \<Rightarrow> bool" where
  "signal_laws sys efd effect sig log \<longleftrightarrow>
     (\<forall>k. fst (snd (ep_write sys k efd wake_bytes)) = None \<and>
        sig (snd (snd (ep_write sys k efd wake_bytes))) \<and> log (snd (snd (ep_write sys k efd wake_bytes))) = log k) \<and>
     (\<forall>k. \<not> sig (snd (snd (ep_read sys k efd 8))) \<and> log (snd (snd (ep_read sys k efd 8))) = log k) \<and>
     (\<forall>f x k. sig (effect f x k) = sig k \<and> log (effect f x k) = log k @ [(f, x)])"

text \<open>\<open>epoll_wait\<close> with nothing but the wake-up to report; where it would block for ever it fails.\<close>

definition wake_only ::
  "('k \<Rightarrow> bool) \<Rightarrow> int \<Rightarrow> goerror \<Rightarrow> int \<Rightarrow> timeout \<Rightarrow> ('q, 'f, 'x, 'k) poller \<Rightarrow>
   64 word \<times> goerror option \<times> (PollAttachment \<times> 32 word) list \<times> ('q, 'f, 'x, 'k) poller" where
  "wake_only sig efd e cap msec p =
     (if sig (po_k p) then (1, None, [(\<lparr>pa_PollFd = 0, pa_FD = efd\<rparr>, 1)], p) else (- 1, Some e, [], p))"

text \<open>Calls of \<open>UrgentTrigger\<close> and \<open>Trigger\<close>, which must all answer \<open>nil\<close>.\<close>

fun post_all ::
  "('q, 'f, 'x, 'k) poll_env \<Rightarrow> 'k epoll_sys \<Rightarrow> (bool \<times> 'f \<times> 'x option) list \<Rightarrow> ('q, 'f, 'x, 'k) poller \<Rightarrow> ('q, 'f, 'x, 'k) poller option" where
  "post_all env sys [] p = Some p"
| "post_all env sys ((urgent, f, x) # ts) p =
     do {
       (err, p) \<leftarrow> (if urgent then epo_UrgentTrigger else epo_Trigger) env sys (Some f) x p;
       if err = None then post_all env sys ts p else None
     }"

definition runs :: "('f, 'x) task list \<Rightarrow> ('f \<times> 'x option) list" where
  "runs ts = map (\<lambda>t. (the (tk_Run t), tk_Arg t)) ts"

definition posted :: "bool \<Rightarrow> (bool \<times> 'f \<times> 'x option) list \<Rightarrow> ('f \<times> 'x option) list" where
  "posted u ts = [t. (v, t) \<leftarrow> ts, v = u]"

lemma runs_posted_simps [simp]:
  "runs [] = []" "runs (t # ts) = (the (tk_Run t), tk_Arg t) # runs ts" "runs (ts @ us) = runs ts @ runs us"
  "posted u [] = []" "posted u ((v, fx) # rest) = (if v = u then [fx] else []) @ posted u rest"
  by (simp_all add: runs_def posted_def)

lemma work_log:
  assumes "signal_laws sys efd effect sig log"
  shows "log (work effect ts k) = log k @ runs ts \<and> sig (work effect ts k) = sig k"
  using assms by (induction ts arbitrary: k) (auto simp: signal_laws_def)

definition ring :: "'k epoll_sys \<Rightarrow> int \<Rightarrow> 'k \<Rightarrow> 'k" where
  "ring sys efd k = snd (snd (ep_write sys k efd wake_bytes))"

lemma epo_notify_rings:
  assumes "signal_laws sys efd effect sig log" and "po_epa p = Some efd" and "same_poller p p'"
  shows "epo_notify sys p' = Some (None, p'\<lparr>po_k := ring sys efd (po_k p')\<rparr>)"
proof -
  have "fst (snd (ep_write sys (po_k p') efd wake_bytes)) = None" using assms(1) by (simp add: signal_laws_def)
  then show ?thesis using assms(2,3) by (simp add: epo_notify_def ring_def same_poller_def split_def)
qed

lemma ring_laws:
  assumes "signal_laws sys efd effect sig log"
  shows "sig (ring sys efd k)" and "log (ring sys efd k) = log k"
  using assms by (simp_all add: signal_laws_def ring_def)

text \<open>The state between calls and rounds: what is queued has been signalled, and the flag says so.\<close>

definition session ::
  "('q \<Rightarrow> bool) \<Rightarrow> ('q \<Rightarrow> ('f, 'x) task list) \<Rightarrow> int \<Rightarrow> ('k \<Rightarrow> bool) \<Rightarrow> ('q, 'f, 'x, 'k) poller \<Rightarrow> bool" where
  "session ok tasks efd sig p \<longleftrightarrow> po_epa p = Some efd \<and> ok (po_urgentAsyncTaskQueue p) \<and> ok (po_asyncTaskQueue p) \<and>
     (\<forall>t \<in> set (tasks (po_urgentAsyncTaskQueue p) @ tasks (po_asyncTaskQueue p)). tk_Run t \<noteq> None) \<and>
     (sig (po_k p) \<longleftrightarrow> tasks (po_urgentAsyncTaskQueue p) @ tasks (po_asyncTaskQueue p) \<noteq> []) \<and>
     (po_wakeupCall p = 0 \<longleftrightarrow> \<not> sig (po_k p))"

context async_queue
begin

lemma post_all_session:
  assumes "pv_queue env = Q" and laws: "signal_laws sys efd effect sig log"
  shows "session ok tasks efd sig p \<Longrightarrow>
    length (tasks (po_urgentAsyncTaskQueue p)) + length (tasks (po_asyncTaskQueue p)) + length ts < limit \<Longrightarrow>
    \<exists>p'. post_all env sys ts p = Some p' \<and> session ok tasks efd sig p' \<and> log (po_k p') = log (po_k p) \<and>
      runs (tasks (po_urgentAsyncTaskQueue p')) = runs (tasks (po_urgentAsyncTaskQueue p)) @ posted True ts \<and>
      runs (tasks (po_asyncTaskQueue p')) = runs (tasks (po_asyncTaskQueue p)) @ posted False ts"
proof (induction ts arbitrary: p)
  case (Cons c ts)
  obtain u f x where c: "c = (u, f, x)" by (cases c)
  note S = Cons.prems(1) [unfolded session_def]
  have r: "Suc (length (tasks (po_urgentAsyncTaskQueue p))) < limit" "Suc (length (tasks (po_asyncTaskQueue p))) < limit"
    using Cons.prems(2) by auto
  obtain p1 t where p1: "(if u then po_UrgentTrigger else po_Trigger) env (epo_notify sys) ''write'' (Some f) x p = Some (None, p1)"
      "tk_Run t = Some f" "tk_Arg t = x" "ok (po_urgentAsyncTaskQueue p1)" "ok (po_asyncTaskQueue p1)"
      "tasks (po_urgentAsyncTaskQueue p1) = tasks (po_urgentAsyncTaskQueue p) @ (if u then [t] else [])"
      "tasks (po_asyncTaskQueue p1) = tasks (po_asyncTaskQueue p) @ (if u then [] else [t])"
      "po_wakeupCall p1 = (if po_wakeupCall p = 0 then 1 else po_wakeupCall p)"
      "po_k p1 = (if po_wakeupCall p = 0 then ring sys efd (po_k p) else po_k p)" "same_poller p p1"
    using trigger_plain [OF assms(1) _ _ r epo_notify_rings [OF laws, of p], where u = u and name = "''write''" and fn = "Some f" and arg = x] S
    by auto
  have "session ok tasks efd sig p1"
    using S p1 ring_laws(1) [OF laws] by (auto simp: session_def same_poller_def)
  moreover have "length (tasks (po_urgentAsyncTaskQueue p1)) + length (tasks (po_asyncTaskQueue p1)) + length ts < limit"
    using Cons.prems(2) p1(6,7) by (cases u) auto
  ultimately obtain p' where "post_all env sys ts p1 = Some p'" "session ok tasks efd sig p'" "log (po_k p') = log (po_k p1)"
      "runs (tasks (po_urgentAsyncTaskQueue p')) = runs (tasks (po_urgentAsyncTaskQueue p1)) @ posted True ts"
      "runs (tasks (po_asyncTaskQueue p')) = runs (tasks (po_asyncTaskQueue p1)) @ posted False ts"
    using Cons.IH [of p1] by blast
  then show ?case using p1 c ring_laws(2) [OF laws] by (cases u) (auto simp: epo_Trigger_def epo_UrgentTrigger_def)
qed simp

text \<open>Polling: round after round until nothing is left.\<close>

lemma polling_session:
  assumes "pv_queue env = Q" and "plain_tasks env effect" and laws: "signal_laws sys efd effect sig log"
    and "e \<noteq> EINTR" and "0 < n"
  shows "session ok tasks efd sig p \<Longrightarrow>
    \<exists>p'. poller_loop (epollWait (wake_only sig efd e)) (epo_event sys callback) (do_chores env n (epo_notify sys)) expand shrink cap msec False p =
        Some (Some e, p') \<and> session ok tasks efd sig p' \<and>
      tasks (po_urgentAsyncTaskQueue p') = [] \<and> tasks (po_asyncTaskQueue p') = [] \<and>
      log (po_k p') = log (po_k p) @ runs (tasks (po_urgentAsyncTaskQueue p)) @ runs (tasks (po_asyncTaskQueue p))"
proof (induction "length (tasks (po_urgentAsyncTaskQueue p) @ tasks (po_asyncTaskQueue p))" arbitrary: p cap msec rule: less_induct)
  case less
  note S = less.prems [unfolded session_def]
  show ?case
  proof (cases "sig (po_k p)")
    case False
    then have t: "tasks (po_urgentAsyncTaskQueue p) = []" "tasks (po_asyncTaskQueue p) = []" using S by auto
    have "poller_loop (epollWait (wake_only sig efd e)) (epo_event sys callback) (do_chores env n (epo_notify sys)) expand shrink cap msec False p = Some (Some e, p)"
      using False assms(4) by (subst poller_loop.simps) (simp add: epollWait_def wake_only_def errnoErr_def)
    then show ?thesis using t less.prems by auto
  next
    case True
    let ?p = "p\<lparr>po_k := snd (snd (ep_read sys (po_k p) efd 8))\<rparr>"
    have k: "\<not> sig (po_k ?p)" "log (po_k ?p) = log (po_k p)" using laws by (simp_all add: signal_laws_def)
    have sp: "same_poller p ?p" by (simp add: same_poller_def)
    obtain p1 where p1: "do_chores env n (epo_notify sys) ?p = Some (None, False, p1)"
        "ok (po_urgentAsyncTaskQueue p1)" "ok (po_asyncTaskQueue p1)" "tasks (po_urgentAsyncTaskQueue p1) = []"
        "tasks (po_asyncTaskQueue p1) = drop n (tasks (po_asyncTaskQueue p))"
        "po_k p1 = (if n < length (tasks (po_asyncTaskQueue p)) then ring sys efd else id)
           (work effect (tasks (po_urgentAsyncTaskQueue p) @ take n (tasks (po_asyncTaskQueue p))) (po_k ?p))"
        "po_wakeupCall p1 = (if n < length (tasks (po_asyncTaskQueue p)) then 1 else 0)" "same_poller ?p p1"
      using do_chores_plain [OF assms(1,2), of ?p "tasks (po_urgentAsyncTaskQueue p)" "tasks (po_asyncTaskQueue p)" "epo_notify sys" "ring sys efd" n]
        S epo_notify_rings [OF laws, of ?p] by auto
    have "poller_loop (epollWait (wake_only sig efd e)) (epo_event sys callback) (do_chores env n (epo_notify sys)) expand shrink cap msec False p =
        poller_loop (epollWait (wake_only sig efd e)) (epo_event sys callback) (do_chores env n (epo_notify sys)) expand shrink
          (if 1 = cap then expand cap else if 1 < drop_bit 1 cap then shrink cap else cap) Now False p1"
      using True S p1(1) by (subst poller_loop.simps) (simp add: epollWait_def wake_only_def epo_event_def split_def)
    moreover have w: "log (work effect ts (po_k ?p)) = log (po_k p) @ runs ts" "\<not> sig (work effect ts (po_k ?p))" for ts
      using work_log [OF laws, of ts "po_k ?p"] k by simp_all
    moreover have ses: "session ok tasks efd sig p1"
      using S p1 w(2) ring_laws(1) [OF laws] by (auto simp: session_def same_poller_def simp del: work_simps(3) dest: in_set_dropD)
    moreover have "length (tasks (po_urgentAsyncTaskQueue p1) @ tasks (po_asyncTaskQueue p1)) <
        length (tasks (po_urgentAsyncTaskQueue p) @ tasks (po_asyncTaskQueue p))"
      using True S p1(4,5) assms(5) by (cases "tasks (po_urgentAsyncTaskQueue p)"; cases "tasks (po_asyncTaskQueue p)") auto
    moreover have "log (po_k p1) = log (po_k p) @ runs (tasks (po_urgentAsyncTaskQueue p)) @ runs (take n (tasks (po_asyncTaskQueue p)))"
      using p1(6) w(1) ring_laws(2) [OF laws] by (auto simp del: work_simps(3))
    moreover have "runs (take n (tasks (po_asyncTaskQueue p))) @ runs (drop n (tasks (po_asyncTaskQueue p))) = runs (tasks (po_asyncTaskQueue p))"
      by (simp flip: runs_posted_simps(3))
    ultimately show ?thesis using less.hyps [of p1] p1(4,5) by (metis append.assoc append_Nil append_Nil2 runs_posted_simps(1))
  qed
qed

end

section \<open>The lock-free queue provides it\<close>

text \<open>A call by a goroutine that nobody interrupts; it returns within 15 accesses.\<close>

definition lfq_Enqueue :: "'t lockFreeQueue \<Rightarrow> 't \<Rightarrow> 't lockFreeQueue option" where
  "lfq_Enqueue q t =
     (case q_solo 15 q (EnqNew (Some t)) of Some (q, pc) \<Rightarrow> if pc = EnqDone then Some q else None | None \<Rightarrow> None)"

definition lfq_Dequeue :: "'t lockFreeQueue \<Rightarrow> ('t option \<times> 't lockFreeQueue) option" where
  "lfq_Dequeue q =
     (case q_solo 15 q DeqHead of Some (q, pc) \<Rightarrow> map_option (\<lambda>r. (r, q)) (Dequeue_result pc) | None \<Rightarrow> None)"

definition lfq :: "('t lockFreeQueue, 't) AsyncTaskQueue" where
  "lfq = \<lparr>tq_Enqueue = lfq_Enqueue, tq_Dequeue = lfq_Dequeue, tq_IsEmpty = q_IsEmpty\<rparr>"

definition lfq_ok :: "'t lockFreeQueue \<Rightarrow> bool" where
  "lfq_ok q \<longleftrightarrow> (\<exists>s. q_reach 1 s \<and> qs_q s = q \<and> qs_pcs s = [Idle] \<and> has_tasks s) \<and> length (q_contents q) < 2 ^ 32"

definition lfq_tasks :: "'t lockFreeQueue \<Rightarrow> 't list" where
  "lfq_tasks q = map the (q_contents q)"

text \<open>What the history says while one call runs alone: \<open>en\<close> and \<open>de\<close> are what it was before.\<close>

definition solo_inv :: "'t option list \<Rightarrow> 't option list \<Rightarrow> 't option list \<Rightarrow> 't qsys \<Rightarrow> 't pc \<Rightarrow> bool" where
  "solo_inv en de new s pc \<longleftrightarrow> q_reach 1 s \<and> qs_pcs s = [pc] \<and> has_tasks s \<and>
     (\<exists>xs. qs_enqd s = en @ xs \<and> mset xs + pending_task (qs_q s) pc = mset new) \<and>
     qs_deqd s = de @ taken pc \<and> (qs_saw s = [True] \<and> taken pc = [] \<and> new = [] \<longrightarrow> q_contents (qs_q s) = [])"

lemma taken_Enqueue: "in_Enqueue pc \<or> pc = EnqDone \<Longrightarrow> taken pc = []"
  by (cases pc) auto

lemma solo_inv_step:
  assumes "solo_inv en de new s pc" and "Enqueue_step (qs_q s) pc = Some (q, pc') \<or> Dequeue_step (qs_q s) pc = Some (q, pc')"
    and "in_Dequeue pc \<longrightarrow> new = []" and "length (qs_saw s) = 1"
  shows "solo_inv en de new (q_advance s 0 q pc') pc' \<and> length (qs_saw (q_advance s 0 q pc')) = 1"
proof -
  note I = assms(1) [unfolded solo_inv_def]
  obtain xs where xs: "qs_enqd s = en @ xs" "mset xs + pending_task (qs_q s) pc = mset new" using I by blast
  have pc: "qs_pcs s ! 0 = pc" "0 < length (qs_pcs s)" using I by simp_all
  have r1: "q_reach 1 s" using I by blast
  have "q_sys_step s (q_advance s 0 q pc')"
    using assms(2) step_Enqueue [OF pc(2), of q pc'] step_Dequeue [OF pc(2), of q pc'] unfolding pc(1) by blast
  from r1 q_reach.more [OF r1 this] have r: "q_reach 1 s" "q_reach 1 (q_advance s 0 q pc')" .
  have own: "n < length (q_heap (qs_q s))" if "own_node pc = Some n" for n
  proof -
    obtain ch h t where "qinv ch h t s" using qinv_reach [OF r(1)] by blast
    from qinvD(7) [OF this pc(2)] show ?thesis using that pc(1) by blast
  qed
  have t: "has_tasks (q_advance s 0 q pc')"
    using assms(2) has_tasks_Enqueue [of s 0 q pc'] has_tasks_Dequeue [of s 0 q pc'] I own pc by auto
  have c: "log_deq pc pc' @ q_contents q = q_contents (qs_q s) @ log_enq (qs_q s) pc pc'"
    using q_advance_contents [OF r] pc(1) by simp
  have p: "mset (log_enq (qs_q s) pc pc') + pending_task q pc' = pending_task (qs_q s) pc"
    using assms(2) Enqueue_step_pending [of "qs_q s" pc q pc'] own Dequeue_step_pending [of "qs_q s" pc q pc'] log_enq_steps(1) [of "qs_q s" pc q pc']
    by (auto simp: ac_simps)
  have d: "taken pc' = taken pc @ log_deq pc pc'"
    using assms(2)
  proof
    assume st: "Enqueue_step (qs_q s) pc = Some (q, pc')"
    show ?thesis
      using taken_Enqueue [of pc] taken_Enqueue [OF Enqueue_step_stays [OF st]] in_step_cases(1) [OF st] log_enq_steps(2) [OF st] by simp
  qed (rule Dequeue_step_taken)
  have "q_contents q = []" if "qs_saw (q_advance s 0 q pc') = [True]" "taken pc' = []" "new = []"
  proof -
    obtain b where b: "qs_saw s = [b]" using assms(4) by (auto simp: length_Suc_conv)
    have l: "log_enq (qs_q s) pc pc' = []" using xs(2) p that(3) by simp
    have "q_contents q = q_contents (qs_q s)" using c d that(2) l by simp
    moreover have "b \<or> q_contents q = []" using that(1) b by (simp add: q_advance_def)
    ultimately show ?thesis using I b d that(2,3) by auto
  qed
  moreover have "mset (xs @ log_enq (qs_q s) pc pc') + pending_task q pc' = mset new"
    using xs(2) p by (simp add: add.assoc)
  ultimately show ?thesis unfolding solo_inv_def
    using r(2) t xs(1) I d pc assms(4) by (auto simp: q_advance_def)
qed

lemma solo_run:
  assumes "solo_inv en de new s pc" and "in_Dequeue pc \<longrightarrow> new = []" and "length (qs_saw s) = 1"
    and "q_solo k (qs_q s) pc = Some (q', pc')"
  shows "\<exists>s'. solo_inv en de new s' pc' \<and> qs_q s' = q' \<and> (in_Enqueue pc \<longrightarrow> in_Enqueue pc' \<or> pc' = EnqDone) \<and>
    (in_Dequeue pc \<longrightarrow> in_Dequeue pc' \<or> Dequeue_result pc' \<noteq> None)"
  using assms
proof (induction k arbitrary: s pc)
  case 0
  then show ?case by auto
next
  case (Suc k)
  consider "in_Enqueue pc" | "\<not> in_Enqueue pc" "in_Dequeue pc" | "\<not> in_Enqueue pc" "\<not> in_Dequeue pc" by blast
  then show ?case
  proof cases
    case 1
    then obtain q1 pc1 where st: "Enqueue_step (qs_q s) pc = Some (q1, pc1)" "q_solo k q1 pc1 = Some (q', pc')"
      using Suc.prems(4) by (auto split: bind_splits)
    have nd: "\<not> in_Dequeue pc" using 1 by (cases pc) auto
    note i = solo_inv_step [OF Suc.prems(1) disjI1 [OF st(1)] Suc.prems(2,3)]
    have s1: "in_Enqueue pc1 \<or> pc1 = EnqDone" using Enqueue_step_stays [OF st(1)] .
    then have "in_Dequeue pc1 \<longrightarrow> new = []" by (cases pc1) auto
    from Suc.IH [OF _ this _ , of "q_advance s 0 q1 pc1"] i st(2) obtain s' where
      s': "solo_inv en de new s' pc'" "qs_q s' = q'" "in_Enqueue pc1 \<longrightarrow> in_Enqueue pc' \<or> pc' = EnqDone"
      by (auto simp: q_advance_def)
    have "pc' = EnqDone" if "pc1 = EnqDone" using st(2) that by (cases k) auto
    then show ?thesis using s' s1 nd by blast
  next
    case 2
    then obtain q1 pc1 where st: "Dequeue_step (qs_q s) pc = Some (q1, pc1)" "q_solo k q1 pc1 = Some (q', pc')"
      using Suc.prems(4) by (auto split: bind_splits)
    note i = solo_inv_step [OF Suc.prems(1) disjI2 [OF st(1)] Suc.prems(2,3)]
    have s1: "in_Dequeue pc1 \<or> Dequeue_result pc1 \<noteq> None" using Dequeue_step_stays [OF st(1)] .
    have "in_Dequeue pc1 \<longrightarrow> new = []" using Suc.prems(2) 2 by simp
    from Suc.IH [OF _ this _ , of "q_advance s 0 q1 pc1"] i st(2) obtain s' where
      s': "solo_inv en de new s' pc'" "qs_q s' = q'" "in_Dequeue pc1 \<longrightarrow> in_Dequeue pc' \<or> Dequeue_result pc' \<noteq> None"
      by (auto simp: q_advance_def)
    have "pc' = pc1" if "Dequeue_result pc1 \<noteq> None" using st(2) that by (cases k; cases pc1) auto
    then show ?thesis using s' s1 2 by blast
  next
    case 3
    then show ?thesis using Suc.prems by auto
  qed
qed

text \<open>A whole call: it returns, and what it did to the histories.\<close>

lemma solo_call:
  assumes "lfq_ok q" and "pc = EnqNew (Some t) \<and> new = [Some t] \<or> pc = DeqHead \<and> new = []"
  shows "\<exists>s s' q' pc' xs. qs_q s = q \<and> q_solo 15 q pc = Some (q', pc') \<and> qs_q s' = q' \<and> q_reach 1 s \<and> q_reach 1 s' \<and>
    has_tasks s' \<and> qs_pcs s' = [pc'] \<and> qs_enqd s' = qs_enqd s @ new \<and> qs_deqd s' = qs_deqd s @ taken pc' \<and>
    (if in_Enqueue pc then pc' = EnqDone else Dequeue_result pc' \<noteq> None) \<and>
    (new = [] \<and> pc' = DeqNil \<longrightarrow> q_contents q' = []) \<and> has_tasks s"
proof -
  obtain s where s: "q_reach 1 s" "qs_q s = q" "qs_pcs s = [Idle]" "has_tasks s" using assms(1) by (auto simp: lfq_ok_def)
  define s1 where "s1 = (set_pc 0 pc s)\<lparr>qs_saw := if in_Enqueue pc then qs_saw s else (qs_saw s)[0 := q_contents q = []]\<rparr>"
  have z: "0 < length (qs_pcs s)" "qs_pcs s ! 0 = Idle" using s(3) by simp_all
  have "q_sys_step s s1"
    using assms(2) call_Enqueue [OF z, of "Some t"] call_Dequeue [OF z] s(2) by (auto simp: s1_def set_pc_def)
  then have r1: "q_reach 1 s1" using s(1) q_reach.more by blast
  have p1: "qs_pcs s1 = [pc]" "qs_q s1 = q" "qs_enqd s1 = qs_enqd s" "qs_deqd s1 = qs_deqd s"
    using s by (simp_all add: s1_def set_pc_def)
  have ls: "length (qs_saw s) = 1" using qinv_reach [OF s(1)] by (auto simp: qinv_def)
  have "has_tasks (set_pc 0 pc s)"
    using assms(2) by (intro has_tasks_set_pc [OF s(4)]) auto
  then have has_tasks_s1: "has_tasks s1" by (simp add: s1_def has_tasks_def)
  have i1: "solo_inv (qs_enqd s) (qs_deqd s) new s1 pc" "length (qs_saw s1) = 1" "in_Dequeue pc \<longrightarrow> new = []"
    using assms(2) r1 p1 has_tasks_s1 s ls
    by (auto simp: solo_inv_def s1_def set_pc_def length_Suc_conv)
  obtain q' pc' where e: "q_solo 15 q pc = Some (q', pc')" "\<not> in_Enqueue pc'" "\<not> in_Dequeue pc'"
    using q_solo_ends [OF r1, of 0 15] accesses_left_bound [of q pc] p1 by auto
  obtain s' where s': "solo_inv (qs_enqd s) (qs_deqd s) new s' pc'" "qs_q s' = q'" "in_Enqueue pc \<longrightarrow> in_Enqueue pc' \<or> pc' = EnqDone"
      "in_Dequeue pc \<longrightarrow> in_Dequeue pc' \<or> Dequeue_result pc' \<noteq> None"
    using solo_run [OF i1(1,3,2)] p1(2) e(1) by blast
  have fin: "if in_Enqueue pc then pc' = EnqDone else Dequeue_result pc' \<noteq> None" using s'(3,4) e(2,3) assms(2) by auto
  then have pend: "pending_task q' pc' = {#}" by (auto split: if_splits)
  obtain xs where xs: "qs_enqd s' = qs_enqd s @ xs" "mset xs = mset new" using s'(1,2) pend by (auto simp: solo_inv_def)
  have "xs = new" using xs(2) assms(2) by auto
  moreover have "q_contents q' = []" if "new = []" "pc' = DeqNil"
  proof -
    have "q_reach 1 s'" "qs_pcs s' = [DeqNil]" using s'(1) that by (simp_all add: solo_inv_def)
    then have "qs_saw s' ! 0" using q_reach_saw [of 1 s' 0] by simp
    moreover have "length (qs_saw s') = 1" using qinv_reach [OF \<open>q_reach 1 s'\<close>] by (auto simp: qinv_def)
    ultimately have "qs_saw s' = [True]" by (cases "qs_saw s'") auto
    then show ?thesis using s'(1,2) that by (simp add: solo_inv_def)
  qed
  ultimately show ?thesis using s e(1) s'(1,2) xs(1) fin by (intro exI [of _ s] exI [of _ s'] exI [of _ q'] exI [of _ pc']) (auto simp: solo_inv_def)
qed

lemma lfq_ok_idle:
  assumes "q_reach 1 s" and "has_tasks s" and "qs_pcs s = [pc]" and "pc = EnqDone \<or> Dequeue_result pc \<noteq> None"
    and "length (q_contents (qs_q s)) < 2 ^ 32"
  shows "lfq_ok (qs_q s)"
proof -
  have "pc \<in> {EnqDone, DeqNil} \<union> range DeqDone" using assms(4) by (cases pc) auto
  then have "q_sys_step s (set_pc 0 Idle s)" unfolding set_pc_def using assms(3) by (intro return) auto
  then have "q_reach 1 (set_pc 0 Idle s)" using assms(1) q_reach.more by blast
  moreover have "has_tasks (set_pc 0 Idle s)" by (rule has_tasks_set_pc [OF assms(2)]) simp_all
  ultimately show ?thesis using assms(3,5) by (auto simp: lfq_ok_def set_pc_def intro!: exI [of _ "set_pc 0 Idle s"])
qed

lemma contents_some:
  assumes "q_reach n s" and "has_tasks s"
  shows "q_contents (qs_q s) = map Some (lfq_tasks (qs_q s))"
proof -
  have "None \<notin> set (q_contents (qs_q s))"
    using q_reach_fifo [OF assms(1)] assms(2) unfolding has_tasks_def by (metis UnI2 set_append)
  then show ?thesis unfolding lfq_tasks_def by (induction "q_contents (qs_q s)") (auto intro!: nth_equalityI simp: in_set_conv_nth)
qed

lemma lfq_new: "lfq_ok (NewLockFreeQueue :: 't lockFreeQueue) \<and> lfq_tasks (NewLockFreeQueue :: 't lockFreeQueue) = []"
proof -
  have "q_contents (NewLockFreeQueue :: 't lockFreeQueue) = []" by (simp add: NewLockFreeQueue_def q_contents_def)
  moreover have "has_tasks (q_start 1 :: 't qsys)" by (auto simp: q_start_def has_tasks_def NewLockFreeQueue_def)
  ultimately show ?thesis
    using q_reach.start [of 1, where 'a = 't]
    by (auto simp: lfq_ok_def lfq_tasks_def q_start_def intro!: exI [of _ "q_start 1 :: 't qsys"])
qed

interpretation lockfree: async_queue lfq NewLockFreeQueue lfq_tasks lfq_ok "2 ^ 32"
proof
  show "lfq_ok (NewLockFreeQueue :: ('a, 'b) task lockFreeQueue) \<and> lfq_tasks (NewLockFreeQueue :: ('a, 'b) task lockFreeQueue) = []"
    by (rule lfq_new)
next
  fix q :: "('a, 'b) task lockFreeQueue" and t
  assume ok: "lfq_ok q" and len: "Suc (length (lfq_tasks q)) < 2 ^ 32"
  obtain s s' q' pc' where c: "qs_q s = q" "q_solo 15 q (EnqNew (Some t)) = Some (q', pc')" "qs_q s' = q'" "q_reach 1 s" "q_reach 1 s'"
      "has_tasks s'" "qs_pcs s' = [pc']" "qs_enqd s' = qs_enqd s @ [Some t]" "qs_deqd s' = qs_deqd s @ taken pc'" "pc' = EnqDone"
    using solo_call [OF ok, of "EnqNew (Some t)" t "[Some t]"] by auto
  have "qs_deqd s @ q_contents q' = qs_deqd s @ q_contents q @ [Some t]"
    using q_reach_fifo [OF c(4)] q_reach_fifo [OF c(5)] c by simp
  then have t: "q_contents q' = q_contents q @ [Some t]" by simp
  then have "lfq_ok q'" using lfq_ok_idle [OF c(5,6,7)] c(3,10) len by (simp add: lfq_tasks_def)
  then show "\<exists>q'. tq_Enqueue lfq q t = Some q' \<and> lfq_ok q' \<and> lfq_tasks q' = lfq_tasks q @ [t]"
    using c(2,10) t by (simp add: lfq_def lfq_Enqueue_def lfq_tasks_def)
next
  fix q :: "('a, 'b) task lockFreeQueue"
  assume ok: "lfq_ok q" and e: "lfq_tasks q = []"
  obtain s s' q' pc' where c: "qs_q s = q" "q_solo 15 q DeqHead = Some (q', pc')" "qs_q s' = q'" "q_reach 1 s" "q_reach 1 s'"
      "has_tasks s'" "qs_pcs s' = [pc']" "qs_enqd s' = qs_enqd s" "qs_deqd s' = qs_deqd s @ taken pc'" "Dequeue_result pc' \<noteq> None"
    using solo_call [OF ok, of DeqHead _ "[]"] by auto
  have "taken pc' @ q_contents q' = []"
    using q_reach_fifo [OF c(4)] q_reach_fifo [OF c(5)] c e by (simp add: lfq_tasks_def)
  then have t: "taken pc' = []" "q_contents q' = []" by auto
  then have "Dequeue_result pc' = Some None" using c(10) by (cases pc') auto
  moreover have "lfq_ok q'" using lfq_ok_idle [OF c(5,6,7)] c(3,10) t by simp
  ultimately show "\<exists>q'. tq_Dequeue lfq q = Some (None, q') \<and> lfq_ok q' \<and> lfq_tasks q' = []"
    using c(2) t by (simp add: lfq_def lfq_Dequeue_def lfq_tasks_def)
next
  fix q :: "('a, 'b) task lockFreeQueue" and t ts
  assume ok: "lfq_ok q" and e: "lfq_tasks q = t # ts"
  obtain s s' q' pc' where c: "qs_q s = q" "q_solo 15 q DeqHead = Some (q', pc')" "qs_q s' = q'" "q_reach 1 s" "q_reach 1 s'"
      "has_tasks s'" "qs_pcs s' = [pc']" "qs_enqd s' = qs_enqd s" "qs_deqd s' = qs_deqd s @ taken pc'" "Dequeue_result pc' \<noteq> None"
      "pc' = DeqNil \<longrightarrow> q_contents q' = []" "has_tasks s"
    using solo_call [OF ok, of DeqHead _ "[]"] by auto
  have f: "taken pc' @ q_contents q' = map Some (t # ts)"
    using q_reach_fifo [OF c(4)] q_reach_fifo [OF c(5)] c(1,3,8,9) contents_some [OF c(4,12)] e
    by (metis append_assoc same_append_eq)
  have "pc' \<noteq> DeqNil" using f c(11) by auto
  then have pc: "pc' = DeqDone (Some t)" using c(10) f by (cases pc') auto
  have "q_contents q' = map Some ts" using f pc by simp
  moreover have "lfq_ok q'"
  proof -
    have "length (q_contents q') \<le> length (q_contents q)" using contents_some [OF c(4,12)] e c(1) calculation by simp
    then show ?thesis using lfq_ok_idle [OF c(5,6,7)] c(3,10) ok by (simp add: lfq_ok_def)
  qed
  ultimately show "\<exists>q'. tq_Dequeue lfq q = Some (Some t, q') \<and> lfq_ok q' \<and> lfq_tasks q' = ts"
    using c(2) pc by (simp add: lfq_def lfq_Dequeue_def lfq_tasks_def comp_def)
next
  fix q :: "('a, 'b) task lockFreeQueue"
  assume ok: "lfq_ok q"
  then obtain s where s: "q_reach 1 s" "qs_q s = q" "qs_pcs s = [Idle]" "length (q_contents q) < 2 ^ 32" by (auto simp: lfq_ok_def)
  then show "tq_IsEmpty lfq q = (lfq_tasks q = [])"
    using q_IsEmpty_exact [OF s(1)] by (simp add: lfq_def lfq_tasks_def)
qed

section \<open>The epoll poller\<close>

text \<open>
  C39: the wake-up descriptor that cannot be had. \<open>OpenPoller\<close> returns, with a poller or an
  error, except in one case: where \<open>Eventfd\<close> fails and the first close of the clean-up
  succeeds, \<open>Close\<close> reads the attachment that has not been assigned and panics.
\<close>

theorem OpenPoller_panics_iff:
  "epo_OpenPoller env sys nilq pool k = None \<longleftrightarrow>
    (\<exists>fd k1 efd e k2 k3. ep_create sys k = (fd, None, k1) \<and> ep_eventfd sys k1 = (efd, Some e, k2) \<and> ep_close sys k2 fd = (None, k3))"
  by (auto simp: epo_OpenPoller_def new_Poller_def Let_def epo_Close_def epo_AddRead_def NewSyscallError_def
      split: prod.splits option.splits bind_splits)

lemma OpenPoller_poller:
  assumes "epo_OpenPoller env sys nilq pool k = Some (Some p, e, k1)"
  shows "\<exists>efd. po_epa p = Some efd" and "po_wakeupCall p = 0" and "po_k p = k1" and "e = None"
    and "po_asyncTaskQueue p = pv_newQueue env" and "po_urgentAsyncTaskQueue p = pv_newQueue env"
  using assms
  by (auto simp: epo_OpenPoller_def new_Poller_def Let_def epo_AddRead_def split: prod.splits option.splits bind_splits)

text \<open>
  C9: tasks posted to a poller are all run. On a poller just opened with lock-free queues, any
  sequence of calls of \<open>UrgentTrigger\<close> and \<open>Trigger\<close> answers \<open>nil\<close>; \<open>Polling\<close> then runs every
  task once, the urgent ones first and each kind in the order of the calls, in as many rounds
  as the bound on tasks per round needs, and both queues are empty when it waits in vain.
\<close>

theorem posted_tasks_all_run:
  assumes "pv_queue env = lfq" and "pv_newQueue env = NewLockFreeQueue" and "plain_tasks env effect"
    and "epo_OpenPoller env sys nilq pool k = Some (Some p, None, k1)" and "po_epa p = Some efd"
    and "signal_laws sys efd effect sig log" and "\<not> sig k1" and "length ts < 2 ^ 32" and "e \<noteq> EINTR"
  shows "\<exists>p1 p2. post_all env sys ts p = Some p1 \<and>
    epo_Polling env sys (wake_only sig efd e) callback p1 = Some (Some e, p2) \<and>
    log (po_k p2) = log k1 @ posted True ts @ posted False ts \<and>
    lfq_tasks (po_urgentAsyncTaskQueue p2) = [] \<and> lfq_tasks (po_asyncTaskQueue p2) = []"
proof -
  note o = OpenPoller_poller [OF assms(4)]
  have "session lfq_ok lfq_tasks efd sig p"
    using o assms(2,5,7) by (simp add: session_def lfq_new)
  then obtain p1 where p1: "post_all env sys ts p = Some p1" "session lfq_ok lfq_tasks efd sig p1" "log (po_k p1) = log (po_k p)"
      "runs (lfq_tasks (po_urgentAsyncTaskQueue p1)) = posted True ts" "runs (lfq_tasks (po_asyncTaskQueue p1)) = posted False ts"
    using lockfree.post_all_session [OF assms(1,6), of p ts] o assms(2,8) by (auto simp: lfq_new)
  show ?thesis
    using lockfree.polling_session [OF assms(1,3,6,9) _ p1(2), of MaxAsyncTasksAtOneTime callback epo_expand epo_shrink InitPollEventsCap Forever]
      p1 o by (auto simp: epo_Polling_def MaxAsyncTasksAtOneTime_def)
qed

text \<open>The witness: a kernel with one descriptor to signal and a log of the tasks run.\<close>

type_synonym demo_kernel = "bool \<times> (nat \<times> nat option) list"

definition demo_epoll :: "demo_kernel epoll_sys" where
  "demo_epoll = \<lparr>ep_create = (\<lambda>k. (5, None, k)), ep_eventfd = (\<lambda>k. (6, None, k)), ep_close = (\<lambda>k fd. (None, k)),
     ep_ctl = (\<lambda>k epfd ctl fd ev. (None, k)), ep_write = (\<lambda>k fd bs. (8, None, (True, snd k))),
     ep_read = (\<lambda>k fd n. (8, None, (False, snd k)))\<rparr>"

definition demo_effect :: "nat \<Rightarrow> nat option \<Rightarrow> demo_kernel \<Rightarrow> demo_kernel" where
  "demo_effect f x k = (fst k, snd k @ [(f, x)])"

definition demo_env :: "((nat, nat) task lockFreeQueue, nat, nat, demo_kernel) poll_env" where
  "demo_env = \<lparr>pv_queue = lfq, pv_newQueue = NewLockFreeQueue,
     pv_apply = (\<lambda>f x p. Some (if f = 3 then Some EINVAL else None, p\<lparr>po_k := demo_effect f x (po_k p)\<rparr>))\<rparr>"

lemma demo_facts:
  "plain_tasks demo_env demo_effect" "signal_laws demo_epoll 6 demo_effect fst snd"
  "epo_OpenPoller demo_env demo_epoll NewLockFreeQueue [] (False, []) =
    Some (Some \<lparr>po_fd = 5, po_epa = Some 6, po_wakeupCall = 0, po_asyncTaskQueue = NewLockFreeQueue,
      po_urgentAsyncTaskQueue = NewLockFreeQueue, po_taskPool = [], po_k = (False, [])\<rparr>, None, (False, []))"
  by (simp_all add: plain_tasks_def demo_env_def signal_laws_def demo_epoll_def demo_effect_def epo_OpenPoller_def new_Poller_def
      epo_AddRead_def epollCtl_def NewSyscallError_def)

theorem posted_tasks_all_run_witness:
  "\<exists>p p1 p2. post_all demo_env demo_epoll [(False, 1, None), (False, 3, Some 7), (True, 2, None)] p = Some p1 \<and>
    epo_Polling demo_env demo_epoll (wake_only fst 6 EINVAL) (\<lambda>pa fd ev p. Some (None, p)) p1 = Some (Some EINVAL, p2) \<and>
    snd (po_k p2) = [(2, None), (1, None), (3, Some 7)]"
  using posted_tasks_all_run [OF _ _ demo_facts(1,3) _ demo_facts(2),
      where ts = "[(False, 1, None), (False, 3, Some 7), (True, 2, None)]" and e = EINVAL and callback = "\<lambda>pa fd ev p. Some (None, p)"]
  by (auto simp: demo_env_def)

text \<open>
  C29: a wake-up that fails once is never tried again. When the write to the event descriptor
  fails with an error other than \<open>EAGAIN\<close>, \<open>Trigger\<close> reports it but leaves its task queued and
  the flag set; the next \<open>Trigger\<close> answers \<open>nil\<close> and queues its task behind without a system
  call, so that nothing wakes the loop for either.
\<close>

theorem failed_wakeup_strands_tasks:
  assumes "pv_queue env = lfq" and "lfq_ok (po_asyncTaskQueue p)" and "length (lfq_tasks (po_asyncTaskQueue p)) + 2 < 2 ^ 32"
    and "po_wakeupCall p = 0" and "po_epa p = Some efd"
    and "\<And>k. fst (snd (ep_write sys k efd wake_bytes)) = Some e" and "e \<noteq> EAGAIN"
  shows "\<exists>p1 p2 t1 t2. epo_Trigger env sys fn arg p = Some (Some (SyscallError ''write'' e), p1) \<and>
    epo_Trigger env sys fn' arg' p1 = Some (None, p2) \<and> po_k p2 = po_k p1 \<and> po_wakeupCall p2 = 1 \<and>
    lfq_tasks (po_asyncTaskQueue p2) = lfq_tasks (po_asyncTaskQueue p) @ [t1, t2] \<and> tk_Run t1 = fn \<and> tk_Run t2 = fn'"
proof -
  have "epo_notify sys p' = Some (Some e, p'\<lparr>po_k := ring sys efd (po_k p')\<rparr>)" if "same_poller p p'" for p'
    using that assms(5,6) by (simp add: epo_notify_def ring_def same_poller_def split_def)
  from lockfree.Trigger_then_silent [OF assms(1-4) this assms(7)] show ?thesis by (simp add: epo_Trigger_def)
qed

text \<open>The witness: an event descriptor that has been closed.\<close>

theorem failed_wakeup_strands_tasks_witness:
  "\<exists>p p1 p2 t1 t2. epo_Trigger demo_env (demo_epoll\<lparr>ep_write := \<lambda>k fd bs. (- 1, Some (Errno 9), k)\<rparr>) (Some 1) None p =
      Some (Some (SyscallError ''write'' (Errno 9)), p1) \<and>
    epo_Trigger demo_env (demo_epoll\<lparr>ep_write := \<lambda>k fd bs. (- 1, Some (Errno 9), k)\<rparr>) (Some 2) None p1 = Some (None, p2) \<and>
    po_wakeupCall p2 = 1 \<and> lfq_tasks (po_asyncTaskQueue p2) = [t1, t2] \<and> tk_Run t1 = Some 1 \<and> tk_Run t2 = Some 2"
proof -
  obtain p :: "((nat, nat) task lockFreeQueue, nat, nat, demo_kernel) poller"
    where p: "lfq_ok (po_asyncTaskQueue p)" "lfq_tasks (po_asyncTaskQueue p) = []" "po_wakeupCall p = 0" "po_epa p = Some 6"
    using that [of "\<lparr>po_fd = 5, po_epa = Some 6, po_wakeupCall = 0, po_asyncTaskQueue = NewLockFreeQueue,
      po_urgentAsyncTaskQueue = NewLockFreeQueue, po_taskPool = [], po_k = (False, [])\<rparr>"] by (simp add: lfq_new)
  have "pv_queue demo_env = lfq" by (simp add: demo_env_def)
  from failed_wakeup_strands_tasks [OF this p(1) _ p(3,4), of "demo_epoll\<lparr>ep_write := \<lambda>k fd bs. (- 1, Some (Errno 9), k)\<rparr>"
      "Errno 9" "Some 1" None "Some 2" None]
  show ?thesis using p(2) by (simp add: exI [of _ p]) blast
qed

end
