(* ===== verification/KqueueCorrect.thy ===== *)
theory KqueueCorrect
  imports TaskPoller
begin

text \<open>
  The kqueue pollers and the epoll poller register the same interest. The two kernels keep
  different tables, an event mask for each descriptor and a set of pairs of a descriptor and
  a filter; what each system call does to its table is a hypothesis, as documented.
\<close>

unbundle bit_operations_syntax

section \<open>The kernels\<close>

text \<open>A successful \<open>epoll_ctl\<close> sets or removes the mask of the descriptor.\<close>

definition epoll_table_laws :: "'k epoll_sys \<Rightarrow> ('k \<Rightarrow> int \<Rightarrow> 32 word option) \<Rightarrow> bool" where
  "epoll_table_laws sys events \<longleftrightarrow>
     (\<forall>k epfd op fd ev k'. ep_ctl sys k epfd op fd ev = (None, k') \<longrightarrow> events k' = (events k)(fd := map_option fst ev))"

text \<open>A successful \<open>kevent\<close> makes its changes in order.\<close>

definition kevent_apply :: "Kevent_t \<Rightarrow> (64 word \<times> int) set \<Rightarrow> (64 word \<times> int) set" where
  "kevent_apply c S =
     (if Flags c = EV_ADD then insert (Ident c, Filter c) S
      else if Flags c = EV_DELETE then S - {(Ident c, Filter c)} else S)"

definition kqueue_table_laws :: "'k kqueue_sys \<Rightarrow> ('k \<Rightarrow> (64 word \<times> int) set) \<Rightarrow> bool" where
  "kqueue_table_laws sys interest \<longleftrightarrow>
     (\<forall>k kq cs n k'. kq_kevent sys k kq cs = (n, None, k') \<longrightarrow> interest k' = fold kevent_apply cs (interest k))"

section \<open>Sequences of registrations\<close>

datatype interest_op = AddR int | AddW int | AddRW int | ModR int | ModRW int

definition attached :: "int \<Rightarrow> PollAttachment" where
  "attached fd = \<lparr>pa_PollFd = 0, pa_FD = fd\<rparr>"

fun epo_op :: "'k epoll_sys \<Rightarrow> interest_op \<Rightarrow> ('q, 'f, 'x, 'k) poller \<Rightarrow> goerror option \<times> ('q, 'f, 'x, 'k) poller" where
  "epo_op sys (AddR fd) p = epo_AddRead sys p (attached fd)"
| "epo_op sys (AddW fd) p = epo_AddWrite sys p (attached fd)"
| "epo_op sys (AddRW fd) p = epo_AddReadWrite sys p (attached fd)"
| "epo_op sys (ModR fd) p = epo_ModRead sys p (attached fd)"
| "epo_op sys (ModRW fd) p = epo_ModReadWrite sys p (attached fd)"

text \<open>The default kqueue poller, and the optimized one where the flag is set.\<close>

fun kq_op :: "bool \<Rightarrow> 'k kqueue_sys \<Rightarrow> interest_op \<Rightarrow> ('q, 'f, 'x, 'k) poller \<Rightarrow> goerror option \<times> ('q, 'f, 'x, 'k) poller" where
  "kq_op opt sys (AddR fd) p = (if opt then kqo_AddRead else kqd_AddRead) sys p (attached fd)"
| "kq_op opt sys (AddW fd) p = (if opt then kqo_AddWrite else kqd_AddWrite) sys p (attached fd)"
| "kq_op opt sys (AddRW fd) p = (if opt then kqo_AddReadWrite else kqd_AddReadWrite) sys p (attached fd)"
| "kq_op opt sys (ModR fd) p = (if opt then kqo_ModRead else kqd_ModRead) sys p (attached fd)"
| "kq_op opt sys (ModRW fd) p = (if opt then kqo_ModReadWrite else kqd_ModReadWrite) sys p (attached fd)"

text \<open>The state after a sequence of calls that all answer \<open>nil\<close>.\<close>

fun all_nil :: "('o \<Rightarrow> 'p \<Rightarrow> goerror option \<times> 'p) \<Rightarrow> 'o list \<Rightarrow> 'p \<Rightarrow> 'p option" where
  "all_nil f [] p = Some p"
| "all_nil f (c # cs) p = (case f c p of (None, p) \<Rightarrow> all_nil f cs p | (Some _, _) \<Rightarrow> None)"

text \<open>
  How the pollers are meant to be used: a descriptor is added once, and modified only when it
  was added with interest in reading. \<open>used\<close> holds the descriptors added so far and \<open>reads\<close>
  those of them with that interest.
\<close>

fun allowed :: "interest_op list \<Rightarrow> int set \<Rightarrow> int set \<Rightarrow> bool" where
  "allowed [] used reads = True"
| "allowed (AddR fd # ops) used reads \<longleftrightarrow> 0 \<le> fd \<and> fd < 2 ^ 31 \<and> fd \<notin> used \<and> allowed ops (insert fd used) (insert fd reads)"
| "allowed (AddW fd # ops) used reads \<longleftrightarrow> 0 \<le> fd \<and> fd < 2 ^ 31 \<and> fd \<notin> used \<and> allowed ops (insert fd used) reads"
| "allowed (AddRW fd # ops) used reads \<longleftrightarrow> 0 \<le> fd \<and> fd < 2 ^ 31 \<and> fd \<notin> used \<and> allowed ops (insert fd used) (insert fd reads)"
| "allowed (ModR fd # ops) used reads \<longleftrightarrow> fd \<in> reads \<and> allowed ops used reads"
| "allowed (ModRW fd # ops) used reads \<longleftrightarrow> fd \<in> reads \<and> allowed ops used reads"

text \<open>The two tables say the same of a descriptor.\<close>

definition epoll_reads :: "32 word option \<Rightarrow> bool" where
  "epoll_reads m \<longleftrightarrow> (case m of None \<Rightarrow> False | Some ev \<Rightarrow> ev AND EPOLLIN \<noteq> 0)"

definition epoll_writes :: "32 word option \<Rightarrow> bool" where
  "epoll_writes m \<longleftrightarrow> (case m of None \<Rightarrow> False | Some ev \<Rightarrow> ev AND EPOLLOUT \<noteq> 0)"

definition same_interest :: "32 word option \<Rightarrow> (64 word \<times> int) set \<Rightarrow> int \<Rightarrow> bool" where
  "same_interest m S fd \<longleftrightarrow>
     ((keventIdent fd, EVFilterRead) \<in> S \<longleftrightarrow> epoll_reads m) \<and> ((keventIdent fd, EVFilterWrite) \<in> S \<longleftrightarrow> epoll_writes m)"

lemma event_bits [simp]:
  "epoll_reads None = False" "epoll_writes None = False"
  "epoll_reads (Some readEvents)" "\<not> epoll_writes (Some readEvents)"
  "\<not> epoll_reads (Some writeEvents)" "epoll_writes (Some writeEvents)"
  "epoll_reads (Some readWriteEvents)" "epoll_writes (Some readWriteEvents)"
  by (simp_all add: epoll_reads_def epoll_writes_def readEvents_def writeEvents_def readWriteEvents_def EPOLLIN_def EPOLLPRI_def EPOLLOUT_def)

lemma kq_constants [simp]: "EV_ADD \<noteq> EV_DELETE" "EV_DELETE \<noteq> EV_ADD" "EVFilterRead \<noteq> EVFilterWrite" "EVFilterWrite \<noteq> EVFilterRead"
  by (simp_all add: EV_ADD_def EV_DELETE_def EVFilterRead_def EVFilterWrite_def)

lemma keventIdent_inj:
  assumes "0 \<le> fd" and "fd < 2 ^ 31" and "0 \<le> fd'" and "fd' < 2 ^ 31"
  shows "keventIdent fd = keventIdent fd' \<longleftrightarrow> fd = fd'"
  using assms by (simp add: keventIdent_def word_of_int_eq_iff take_bit_int_eq_self)

section \<open>One call\<close>

text \<open>The mask a call of the epoll poller sets, and the set the kqueue pollers make of theirs.\<close>

fun op_fd :: "interest_op \<Rightarrow> int" where
  "op_fd (AddR fd) = fd" | "op_fd (AddW fd) = fd" | "op_fd (AddRW fd) = fd" | "op_fd (ModR fd) = fd" | "op_fd (ModRW fd) = fd"

fun op_mask :: "interest_op \<Rightarrow> 32 word" where
  "op_mask (AddR fd) = readEvents" | "op_mask (AddW fd) = writeEvents" | "op_mask (AddRW fd) = readWriteEvents"
| "op_mask (ModR fd) = readEvents" | "op_mask (ModRW fd) = readWriteEvents"

fun op_set :: "interest_op \<Rightarrow> (64 word \<times> int) set \<Rightarrow> (64 word \<times> int) set" where
  "op_set (AddR fd) S = insert (keventIdent fd, EVFilterRead) S"
| "op_set (AddW fd) S = insert (keventIdent fd, EVFilterWrite) S"
| "op_set (AddRW fd) S = insert (keventIdent fd, EVFilterWrite) (insert (keventIdent fd, EVFilterRead) S)"
| "op_set (ModR fd) S = S - {(keventIdent fd, EVFilterWrite)}"
| "op_set (ModRW fd) S = insert (keventIdent fd, EVFilterWrite) S"

lemma epo_op_table:
  assumes "epoll_table_laws sys events" and "epo_op sys c p = (None, p')"
  shows "events (po_k p') = (events (po_k p))(op_fd c \<mapsto> op_mask c)"
  using assms
  by (cases c) (auto simp: epoll_table_laws_def epo_AddRead_def epo_AddWrite_def epo_AddReadWrite_def epo_ModRead_def epo_ModReadWrite_def
      epollCtl_def NewSyscallError_def attached_def split: prod.splits)

text \<open>The changes a kqueue poller submits; the optimized one attaches its argument.\<close>

fun kq_changes :: "bool \<Rightarrow> interest_op \<Rightarrow> Kevent_t list" where
  "kq_changes opt c =
     (let ev = (\<lambda>flags flt fd. if opt then kqo_change flags flt (attached fd) else kq_change flags flt fd) in
      case c of
        AddR fd \<Rightarrow> [ev EV_ADD EVFilterRead fd]
      | AddW fd \<Rightarrow> [ev EV_ADD EVFilterWrite fd]
      | AddRW fd \<Rightarrow> [ev EV_ADD EVFilterRead fd, ev EV_ADD EVFilterWrite fd]
      | ModR fd \<Rightarrow> [ev EV_DELETE EVFilterWrite fd]
      | ModRW fd \<Rightarrow> [ev EV_ADD EVFilterWrite fd])"

lemmas kqueue_calls = kqd_AddRead_def kqd_AddWrite_def kqd_AddReadWrite_def kqd_ModRead_def kqd_ModReadWrite_def
  kqo_AddRead_def kqo_AddWrite_def kqo_AddReadWrite_def kqo_ModRead_def kqo_ModReadWrite_def

lemmas kqueue_changes = kqo_change_def kq_change_def zero_Kevent_def attached_def

lemma kq_op_submits: "\<exists>name. kq_op opt sys c p = kq_submit sys name (kq_changes opt c) p"
  by (cases c; cases opt; simp add: kqueue_calls kqueue_changes Let_def; blast)

lemma kq_changes_set: "fold kevent_apply (kq_changes opt c) S = op_set c S"
  by (cases c; cases opt; simp add: kevent_apply_def kqueue_changes Let_def)

lemma kq_op_table:
  assumes "kqueue_table_laws sys interest" and "kq_op opt sys c p = (None, p')"
  shows "interest (po_k p') = op_set c (interest (po_k p))"
proof -
  obtain name where "kq_submit sys name (kq_changes opt c) p = (None, p')" using kq_op_submits assms(2) by metis
  then have "interest (po_k p') = fold kevent_apply (kq_changes opt c) (interest (po_k p))"
    using assms(1) by (auto simp del: kq_changes.simps simp: kq_submit_def kqueue_table_laws_def NewSyscallError_def split: prod.splits)
  then show ?thesis by (simp only: kq_changes_set)
qed

text \<open>The relation of the two tables that the calls keep.\<close>

definition tables_agree :: "int \<Rightarrow> int set \<Rightarrow> int set \<Rightarrow> (int \<Rightarrow> 32 word option) \<Rightarrow> (64 word \<times> int) set \<Rightarrow> bool" where
  "tables_agree efd used reads events S \<longleftrightarrow> reads \<subseteq> used - {efd} \<and> used - {efd} \<subseteq> {0..<2 ^ 31} \<and>
     (\<forall>fd. 0 \<le> fd \<and> fd < 2 ^ 31 \<and> fd \<noteq> efd \<longrightarrow> same_interest (events fd) S fd \<and>
        (fd \<notin> used \<longrightarrow> events fd = None) \<and> (fd \<in> reads \<longrightarrow> epoll_reads (events fd)))"

lemma tables_agree_step:
  assumes "tables_agree efd used reads events S" and "allowed (c # ops) used reads" and "efd \<in> used"
  shows "\<exists>used' reads'. allowed ops used' reads' \<and> efd \<in> used' \<and>
    tables_agree efd used' reads' (events(op_fd c \<mapsto> op_mask c)) (op_set c S)"
proof -
  define used' where "used' = insert (op_fd c) used"
  define reads' where "reads' = (case c of AddR fd \<Rightarrow> insert fd reads | AddRW fd \<Rightarrow> insert fd reads | _ \<Rightarrow> reads)"
  have r: "0 \<le> op_fd c" "op_fd c < 2 ^ 31" "op_fd c \<noteq> efd"
    using assms by (cases c; auto simp: tables_agree_def)+
  have keep: "same_interest (events fd) (op_set c S) fd = same_interest (events fd) S fd" if "0 \<le> fd" "fd < 2 ^ 31" "fd \<noteq> op_fd c" for fd
    using that r keventIdent_inj [of fd "op_fd c"] by (cases c) (auto simp: same_interest_def)
  have new: "same_interest (Some (op_mask c)) (op_set c S) (op_fd c)"
    using assms r by (cases c) (auto simp: same_interest_def tables_agree_def)
  have "op_fd c \<in> used" if "\<not> (\<exists>fd. c = AddR fd \<or> c = AddW fd \<or> c = AddRW fd)"
    using that assms by (cases c) (auto simp: tables_agree_def)
  then have "allowed ops used' reads'" using assms(2) by (cases c) (auto simp: used'_def reads'_def insert_absorb)
  moreover have "tables_agree efd used' reads' (events(op_fd c \<mapsto> op_mask c)) (op_set c S)"
    unfolding tables_agree_def
  proof (intro conjI allI impI)
    show "reads' \<subseteq> used' - {efd}" "used' - {efd} \<subseteq> {0..<2 ^ 31}"
      using assms r by (cases c; auto simp: tables_agree_def used'_def reads'_def)+
  next
    fix fd assume fd: "0 \<le> fd \<and> fd < 2 ^ 31 \<and> fd \<noteq> efd"
    then have old: "same_interest (events fd) S fd" "fd \<notin> used \<Longrightarrow> events fd = None" "fd \<in> reads \<Longrightarrow> epoll_reads (events fd)"
      using assms(1) by (auto simp: tables_agree_def)
    show "same_interest ((events(op_fd c \<mapsto> op_mask c)) fd) (op_set c S) fd" using keep [of fd] new old(1) fd by auto
    show "(events(op_fd c \<mapsto> op_mask c)) fd = None" if "fd \<notin> used'" using that old(2) by (auto simp: used'_def)
    show "epoll_reads ((events(op_fd c \<mapsto> op_mask c)) fd)" if "fd \<in> reads'"
      using that old(3) assms r by (cases c) (auto simp: reads'_def tables_agree_def)
  qed
  ultimately show ?thesis using assms(3) by (auto simp: used'_def)
qed

text \<open>
  C18: the pollers of the two kernels register the same interest. After any sequence of
  \<open>AddRead\<close>, \<open>AddWrite\<close>, \<open>AddReadWrite\<close>, \<open>ModRead\<close> and \<open>ModReadWrite\<close> that adds a descriptor
  once and modifies only descriptors added for reading, where no call fails, every descriptor
  but the epoll poller's own is watched for reading by the kqueue poller, default or
  optimized, just when the epoll poller watches it, and for writing likewise.
\<close>

theorem kqueue_and_epoll_agree:
  assumes "epoll_table_laws esys events" and "kqueue_table_laws ksys interest"
    and "\<forall>fd. fd \<noteq> efd \<longrightarrow> events (po_k p) fd = None" and "\<forall>i. (i, EVFilterRead) \<notin> interest (po_k q) \<and> (i, EVFilterWrite) \<notin> interest (po_k q)"
    and "all_nil (epo_op esys) ops p = Some p'" and "all_nil (kq_op opt ksys) ops q = Some q'"
    and "allowed ops {efd} {}" and "0 \<le> fd" and "fd < 2 ^ 31" and "fd \<noteq> efd"
  shows "same_interest (events (po_k p') fd) (interest (po_k q')) fd"
proof -
  have "same_interest (events (po_k p') fd) (interest (po_k q')) fd"
    if "tables_agree efd used reads (events (po_k p)) (interest (po_k q))" "allowed ops used reads" "efd \<in> used"
      "all_nil (epo_op esys) ops p = Some p'" "all_nil (kq_op opt ksys) ops q = Some q'" for used reads
    using that
  proof (induction ops arbitrary: p q used reads)
    case Nil
    then show ?case using assms(8-10) by (auto simp: tables_agree_def)
  next
    case (Cons c ops)
    obtain p1 where p1: "epo_op esys c p = (None, p1)" "all_nil (epo_op esys) ops p1 = Some p'"
      using Cons.prems(4) by (auto split: prod.splits option.splits)
    obtain q1 where q1: "kq_op opt ksys c q = (None, q1)" "all_nil (kq_op opt ksys) ops q1 = Some q'"
      using Cons.prems(5) by (auto split: prod.splits option.splits)
    obtain used' reads' where u: "allowed ops used' reads'" "efd \<in> used'"
        "tables_agree efd used' reads' (events (po_k p1)) (interest (po_k q1))"
      using tables_agree_step [OF Cons.prems(1-3)] epo_op_table [OF assms(1) p1(1)] kq_op_table [OF assms(2) q1(1)] by metis
    show ?case by (rule Cons.IH [OF u(3,1,2) p1(2) q1(2)])
  qed
  moreover have "tables_agree efd {efd} {} (events (po_k p)) (interest (po_k q))"
    using assms(3,4) by (auto simp: tables_agree_def same_interest_def)
  ultimately show ?thesis using assms(5-7) by blast
qed

text \<open>The witness: two kernels that do nothing but keep their tables.\<close>

definition table_epoll :: "(int \<Rightarrow> 32 word option) epoll_sys" where
  "table_epoll = \<lparr>ep_create = (\<lambda>k. (5, None, k)), ep_eventfd = (\<lambda>k. (6, None, k)), ep_close = (\<lambda>k fd. (None, k)),
     ep_ctl = (\<lambda>k epfd ctl fd ev. (None, k(fd := map_option fst ev))), ep_write = (\<lambda>k fd bs. (8, None, k)),
     ep_read = (\<lambda>k fd n. (8, None, k))\<rparr>"

definition table_kqueue :: "(64 word \<times> int) set kqueue_sys" where
  "table_kqueue = \<lparr>kq_kqueue = (\<lambda>k. (5, None, k)), kq_kevent = (\<lambda>k kq cs. (0, None, fold kevent_apply cs k)), kq_close = (\<lambda>k fd. (None, k))\<rparr>"

lemma table_laws: "epoll_table_laws table_epoll (\<lambda>k. k)" "kqueue_table_laws table_kqueue (\<lambda>k. k)"
  by (auto simp: epoll_table_laws_def table_epoll_def kqueue_table_laws_def table_kqueue_def)

definition table_poller :: "'k \<Rightarrow> (unit, unit, unit, 'k) poller" where
  "table_poller k = new_Poller () [] k"

lemma table_all_nil:
  "\<exists>p'. all_nil (epo_op table_epoll) ops p = Some p'" "\<exists>q'. all_nil (kq_op opt table_kqueue) ops q = Some q'"
proof -
  have "\<exists>p'. epo_op table_epoll c p = (None, p')" for c and p :: "('a, 'b, 'c, int \<Rightarrow> 32 word option) poller"
    by (cases c) (simp_all add: epo_AddRead_def epo_AddWrite_def epo_AddReadWrite_def epo_ModRead_def epo_ModReadWrite_def
        epollCtl_def NewSyscallError_def table_epoll_def)
  then show "\<exists>p'. all_nil (epo_op table_epoll) ops p = Some p'"
    by (induction ops arbitrary: p) (auto, metis option.simps(4) prod.case)
  have "\<exists>q'. kq_op opt table_kqueue c q = (None, q')" for c and q :: "('d, 'e, 'f, (64 word \<times> int) set) poller"
    using kq_op_submits [of opt table_kqueue c q] by (auto simp: kq_submit_def table_kqueue_def NewSyscallError_def)
  then show "\<exists>q'. all_nil (kq_op opt table_kqueue) ops q = Some q'"
    by (induction ops arbitrary: q) (auto, metis option.simps(4) prod.case)
qed

theorem kqueue_and_epoll_agree_witness:
  "\<exists>p' q'. all_nil (epo_op table_epoll) [AddR 7, ModRW 7, AddW 8, AddRW 9, ModR 9] (table_poller [6 \<mapsto> readEvents]) = Some p' \<and>
    all_nil (kq_op True table_kqueue) [AddR 7, ModRW 7, AddW 8, AddRW 9, ModR 9] (table_poller {}) = Some q' \<and>
    same_interest (po_k p' 7) (po_k q') 7 \<and> same_interest (po_k p' 8) (po_k q') 8 \<and> same_interest (po_k p' 9) (po_k q') 9"
  (is "\<exists>p' q'. all_nil _ ?ops ?p = _ \<and> all_nil _ _ ?q = _ \<and> _")
proof -
  obtain p' where p': "all_nil (epo_op table_epoll) ?ops ?p = Some p'" using table_all_nil(1) by blast
  obtain q' where q': "all_nil (kq_op True table_kqueue) ?ops ?q = Some q'" using table_all_nil(2) by blast
  have "\<forall>fd. fd \<noteq> 6 \<longrightarrow> po_k ?p fd = None" "\<forall>i. (i, EVFilterRead) \<notin> po_k ?q \<and> (i, EVFilterWrite) \<notin> po_k ?q"
    by (simp_all add: table_poller_def new_Poller_def)
  from kqueue_and_epoll_agree [OF table_laws this p' q'] p' q' show ?thesis by simp
qed

end
