(* ===== verification/Spec2Isabelle.thy ===== *)
theory Spec2Isabelle
  imports PowerMath Gfd EngineCorrect FdUnixCorrect QueueCorrect Windows ConnOptions Facade ConnOrder EndToEnd TaskPollerCorrect KqueueCorrect
begin

text \<open>
  A verification library for \<open>glibevent\<close>, an event-driven TCP library in Go: its buffers and
  their pools, its connections, the framing of messages, the server and the client, the pollers,
  the creation of sockets, the descriptor type, the lock-free task queue and the wake-up
  protocol that hands its tasks to the event loop.

  \<^bold>\<open>The program.\<close> A \<open>Server\<close> (\<open>engine_unix.go\<close>) opens a listener
  (\<open>listener_unix.go\<close>, \<open>internal/socket\<close>), polls an epoll descriptor (\<open>internal/netpoll\<close>)
  and handles each event by its callback: a new connection is entered in the table
  (\<open>conn_matrix.go\<close>); a readable one reads all there is into its inbound ring, from which the
  decoder cuts messages for the handler (\<open>glibevent.go\<close>); a writable one flushes its outbound
  buffer (\<open>connection_unix.go\<close>). The inbound buffer is a ring taken from a pool
  (\<open>pkg/buffer/ring\<close>, \<open>pkg/pool/ringbuffer\<close>), the outbound one a ring that overflows into a
  linked list of slices from another pool (\<open>pkg/buffer/elastic\<close>, \<open>pkg/buffer/linkedlist\<close>,
  \<open>pkg/pool/byteslice\<close>). A \<open>Client\<close> (\<open>client.go\<close>) runs the same decoder over a blocking
  connection, and so does the server on Windows (\<open>engine_windows.go\<close>), with one goroutine for
  each connection. The optimized epoll poller and the two kqueue pollers also run tasks that
  other goroutines put into two queues (\<open>internal/queue\<close>).

  \<^bold>\<open>Conventions\<close> (theory \<open>Prelude\<close>). A call that panics, blocks for ever or does not end has
  the value \<open>None\<close>; so \<open>f x = Some y\<close> says that the call returns, without a panic, and with
  what. A Go \<open>error\<close> is a \<open>goerror option\<close>. \<open>int\<close> is a mathematical integer where memory
  bounds it (a buffer holds at most \<open>rb_limit = 2 ^ 59\<close> bytes in the theorems, so that no
  capacity computation overflows) and wraps at 64 bits where the code computes with overflow in
  mind; fields of fixed width are words. Slices are values: what a function returns as a view
  of a buffer is its bytes at that moment. Pools are passed along in a record \<open>world\<close>. Code
  outside the repository (system calls, resolvers, readers and writers) is a function argument;
  theorems are stated over scripts of its answers. On the reading side a script has chunks of any
  size, interruptions, and errors at any point. On the writing side the order of the bytes holds
  over every script (\<open>conn_sends_in_order\<close>); that all of them are sent holds over a calm kernel
  (\<open>kst_calm\<close>: every write takes at least a byte or answers \<open>EAGAIN\<close>) and for writes that are
  not empty, since the code blocks for ever on the others (\<open>conn_Write_failure_blocks\<close>).

  \<^bold>\<open>Theories\<close>, each with the files it models:
  \<^item> \<open>PowerMath\<close> (\<open>internal/math\<close>), \<open>Endian\<close> (the byte orders of \<open>encoding/binary\<close>),
    \<open>Gfd\<close> (\<open>internal/gfd\<close>): power-of-two rounding, packed descriptors and their round trip.
  \<^item> \<open>Byteslice\<close>, \<open>RingPool\<close> (\<open>pkg/pool\<close>): the pools, with reachability relations in which
    the collector and other users interfere; what \<open>Get\<close> returns is safe in every run.
  \<^item> \<open>ByteStream\<close>: locales for a byte queue, its operations, and programs over them.
    \<open>Ring\<close>, \<open>RingCorrect\<close>, \<open>RingContract\<close>, \<open>RingIO\<close> (\<open>pkg/buffer/ring\<close>, \<open>internal/io\<close>):
    the ring buffer refines the byte queue under every sequence of the operations of \<open>ring_op\<close>,
    up to a \<open>WriteByte\<close> that panics.
    \<open>LinkedList\<close>, \<open>LinkedListCorrect\<close>, \<open>LinkedListContract\<close> (\<open>pkg/buffer/linkedlist\<close>): the list
    on an explicit heap of nodes. \<open>Elastic\<close>, \<open>ElasticCorrect\<close> (\<open>pkg/buffer/elastic\<close>): the
    pooled ring and the mixed buffer. \<open>ScriptIO\<close>: scripted readers and writers.
  \<^item> \<open>Netpoll\<close> (\<open>epoll_default_poller.go\<close>, \<open>epoll_events.go\<close>): registration and the polling
    loop with its event list. \<open>Conn\<close>, \<open>ConnWrite\<close>, \<open>ConnProps\<close>, \<open>ConnRead\<close>,
    \<open>ConnOrder\<close> (\<open>connection_unix.go\<close>): a connection; its write lock is a flag whose second locking
    blocks for ever. Shown: as long as the calls return, bytes are sent once and in order,
    whatever the sequence of writes, reads and events and the answers of the kernel, and are received
    in order; \<open>Close\<close> adds to what was sent a part of the rest; a readable event appends all of its
    data; a write that fails, or is empty, with nothing pending never returns.
  \<^item> \<open>Framing\<close>, \<open>FramingCorrect\<close> (\<open>glibevent.go\<close>, \<open>client.go\<close>): headers and the decoder.
    The locale \<open>header_codec\<close> is the contract of a header; its interpretation on the default
    header gives the delivery of every frame.
  \<^item> \<open>SockAddr\<close>, \<open>Sockets\<close>, \<open>Listener\<close>, \<open>Options\<close> (\<open>internal/socket\<close>, \<open>listener_unix.go\<close>,
    \<open>options.go\<close>): address conversion, the types of resolved addresses, socket creation without
    descriptor leaks (with \<open>EINPROGRESS\<close>, which \<open>connect\<close> answers, the caller gets the open socket), the configuration of the server. \<open>Platform\<close>: the files of
    \<open>internal/socket\<close> and \<open>internal/io\<close> that differ between Linux, Darwin and the BSDs: the
    backlog, \<open>sysSocket\<close>, keep-alive, vectored I/O.
  \<^item> \<open>Engine\<close>, \<open>EngineCorrect\<close> (\<open>engine_unix.go\<close>, \<open>conn_matrix.go\<close>): the table of
    connections, the callback and \<open>Start\<close>. Shown: the table stays consistent, frames are
    delivered across events, and which events lose data that has arrived. \<open>ConnOptions\<close>: the
    accessors and socket options of a connection and the ticker of the server.
  \<^item> \<open>ConnLive\<close>, \<open>ServerSend\<close>: the sending side is live. A writable event uses up one answer of
    a slow kernel or sends at least a byte, so the answers plus the pending bytes are a measure.
    In the server the descriptor is registered for writing exactly while bytes are pending; so
    a level-triggered poller reports it until all is sent and never after, where the event
    would close the connection.
  \<^item> \<open>Facade\<close> (\<open>client.go\<close>, \<open>glibevent.go\<close>, \<open>internal/socket/socket.go\<close>, \<open>io_linux.go\<close>): \<open>Open\<close> of the
    client, the exported socket constructors over the \<open>sysSocket\<close> of each platform, \<open>Writev\<close>.
    \<open>EndToEnd\<close> joins a server that writes frames and a client that opens its address: at any
    moment the client has been told of exactly the frames sent completely, and in the end of
    all of them.
  \<^item> \<open>Windows\<close> (\<open>engine_windows.go\<close>, \<open>connection_windows.go\<close>): the server on package \<open>net\<close>. Its
    receive loop is shown equal to the client's, from which the delivery of every frame of
    every connection follows.
  \<^item> \<open>FdUnix\<close>, \<open>FdUnixCorrect\<close> (\<open>internal/netpoll/fd_unix.go\<close>): the descriptor type. The
    locale \<open>chunk_writer\<close> is the loop that \<open>Write\<close> and \<open>Pwrite\<close> share.
  \<^item> \<open>Queue\<close>, \<open>QueueCorrect\<close> (\<open>internal/queue\<close>): the lock-free queue as a step relation with
    one step per atomic access, over any number of goroutines; the auxiliary fields of its system
    state are history only. Shown by an inductive invariant over the chain of nodes: first in
    first out, refinement of the abstract queue, no nil access, the meaning of the counter, and
    that a goroutine running alone returns within 15 accesses.
  \<^item> \<open>TaskWake\<close>, \<open>TaskWakeCorrect\<close> (\<open>epoll_optimized_poller.go\<close>): \<open>Trigger\<close>, \<open>UrgentTrigger\<close> and
    the chores of \<open>Polling\<close> as steps, one for each atomic access of the two queues, the flag and
    the event descriptor. Shown by invariants over all interleavings: tasks run in order and at
    most once, and the loop never sleeps over a task (\<open>no_lost_wakeup\<close>).
  \<^item> \<open>TaskPoller\<close>, \<open>TaskPollerCorrect\<close>, \<open>KqueueCorrect\<close> (\<open>epoll_optimized_poller.go\<close>,
    \<open>kqueue_default_poller.go\<close>, \<open>kqueue_optimized_poller.go\<close>, \<open>kqueue_events.go\<close>): the same
    pollers as whole calls, with their system calls and errors; the three share the task calls
    and the frame of the loop. The locale \<open>async_queue\<close> is what they need of a queue; it is
    interpreted on the lock-free queue used by one goroutine at a time, where its laws come
    from the invariants of \<open>QueueCorrect\<close>. Shown: everything posted is run, urgent tasks first;
    what a failed wake-up or a failed \<open>Eventfd\<close> leads to; and that kqueue and epoll watch the
    same descriptors.

  \<^bold>\<open>Loops.\<close> A loop that is not structural is a \<open>partial_function (option)\<close>, so that not
  returning is \<open>None\<close>, and its theorems state \<open>Some\<close>; the measures are the length of the script
  plus the bytes left. No fuel is used, but for \<open>q_walk\<close>, which reads the contents of the queue
  off the heap with as much fuel as there are nodes, and \<open>q_solo\<close>, which counts accesses: 15
  are enough for a call of the queue by a goroutine that nobody interrupts.

  \<^bold>\<open>Errors of the code\<close> that have a theorem: a failing or empty \<open>Write\<close> deadlocks on its own
  lock (\<open>conn_Write_failure_blocks\<close>); a message without a body takes the messages behind it
  (\<open>decode_without_body_takes_all\<close>); data that arrives together with the end of the stream is
  not decoded (\<open>end_of_stream_drops_input\<close>); an event with an error bit closes the connection
  with its input unread (\<open>hangup_discards_input\<close>); a wake-up that failed is never tried again
  (\<open>failed_wakeup_strands_tasks\<close>); \<open>OpenPoller\<close> panics where \<open>Eventfd\<close> fails
  (\<open>OpenPoller_panics_iff\<close>); an old Darwin cannot have keep-alive
  (\<open>darwin_keepalive_ENOPROTOOPT\<close>); and those of the buffers
  (\<open>rb_WriteByte_full_panics\<close>, \<open>rb_ReadFrom_exhausted_reader\<close>,
  \<open>rb_ReadFrom_short_read_corrupts\<close>, \<open>rb_WriteTo_full_loses_all\<close>,
  \<open>rb_Rewind_wrapped_panics\<close>, \<open>ll_ReadFrom_drops_last_bytes\<close>, \<open>ll_WriteTo_error_loses_node\<close>,
  \<open>eb_WriteTo_skips_list\<close>) and of the rounding (\<open>CeilToPowerOfTwo_above_32_bits\<close>).

  \<^bold>\<open>Not modelled.\<close> Logging and printing; the texts of errors; the log file; the record layouts of system calls
  for each processor and the copy of \<open>epollWait\<close> for another call number; the 32-bit form of the
  kevent identifier. In the listener the backlog is a parameter; \<open>Platform\<close> has how it is found.
  The files of the task pollers import a package that does not exist and do not compile; they
  are modelled as they read. The callbacks of one polling round run one after the other, as do
  the events of the server; what is modelled with interleaving is the queue and the wake-up
  protocol. Aliasing of slices is outside the model: a view handed to the application is valid
  until the buffer is written again.
\<close>

end
